(* ===== verification/Prelude.thy ===== *)
theory Prelude
  imports Main "HOL-Library.Word" "HOL-Library.AList"
begin

text \<open>
  Shared vocabulary of the development: the machine types of the C sources, the outcome of a C
  function that may run into undefined behaviour, the return codes of \<^verbatim>\<open>include/server.h\<close>, bytes
  and C strings, decimal numbers, and the generic lemmas and rule collections the component
  theories share.
\<close>

unbundle bit_operations_syntax

section \<open>Machine types\<close>

type_synonym u8 = "8 word"
type_synonym u16 = "16 word"
type_synonym u32 = "32 word"
type_synonym u64 = "64 word"
type_synonym bytes = "u8 list"

section \<open>Rule collections\<close>

text \<open>
  \<open>c_run\<close> collects the equations that drive the sequencing of C statements, \<open>c_str\<close> those about
  C strings and byte buffers.
\<close>

named_theorems c_run "sequencing of fallible C statements"
named_theorems c_str "bytes and C strings"

section \<open>Outcomes of C code\<close>

text \<open>
  A C function either returns a value or leaves the defined behaviour of the language. The second
  case is a value of \<open>fault\<close>: a write past a stack or heap buffer, a read outside an object, a
  null dereference, reading a member of a union other than the one stored, closing a stream twice,
  freeing a block twice, reaching a block that was freed, or not returning at all.
\<close>

datatype fault =
    Stack_overflow
  | Heap_overflow
  | Oob_read
  | Null_deref
  | Wrong_member
  | Double_fclose
  | Double_free
  | Use_after_free
  | Diverges

type_synonym 'a run = "fault + 'a"

definition rbind :: "'a run \<Rightarrow> ('a \<Rightarrow> 'b run) \<Rightarrow> 'b run" where
  "rbind m f = (case m of Inl e \<Rightarrow> Inl e | Inr x \<Rightarrow> f x)"

lemma rbind_Inr [simp, c_run]: "rbind (Inr x) f = f x"
  by (simp add: rbind_def)

lemma rbind_Inl [simp, c_run]: "rbind (Inl e) f = Inl e"
  by (simp add: rbind_def)

lemma rbind_eq_Inr_iff: "rbind m f = Inr y \<longleftrightarrow> (\<exists>x. m = Inr x \<and> f x = Inr y)"
  by (cases m) simp_all

lemma rbind_InrE:
  assumes "rbind m f = Inr y"
  obtains x where "m = Inr x" and "f x = Inr y"
  using assms by (auto simp: rbind_eq_Inr_iff)

lemma rbind_cong [fundef_cong]:
  "m = m' \<Longrightarrow> (\<And>x. m' = Inr x \<Longrightarrow> f x = g x) \<Longrightarrow> rbind m f = rbind m' g"
  by (cases m') simp_all

lemma rbind_assoc: "rbind (rbind m f) g = rbind m (\<lambda>x. rbind (f x) g)"
  by (cases m) simp_all

text \<open>A loop that never ends is a run without a result.\<close>

definition run_of_option :: "'a option \<Rightarrow> 'a run" where
  "run_of_option r = (case r of None \<Rightarrow> Inl Diverges | Some x \<Rightarrow> Inr x)"

lemma run_of_option_simps [simp, c_run]:
  "run_of_option None = Inl Diverges" "run_of_option (Some x) = Inr x"
  by (simp_all add: run_of_option_def)

section \<open>Return codes\<close>

datatype ret_codes_t =
    OP_SUCCESS
  | OP_SESSION_ERROR
  | OP_PERMISSION_ERROR
  | OP_USER_EXISTS
  | OP_FILE_EXISTS
  | OP_CRED_RULE_ERROR
  | OP_USER_AUTH
  | OP_DIR_NOT_EMPTY
  | OP_RESOLVE_ERROR
  | OP_PATH_NOT_DIR
  | OP_PATH_NOT_FILE
  | OP_DIR_EXISTS
  | OP_SOCK_CLOSED
  | OP_USER_NO_EXIST
  | OP_FILE_EMPTY
  | OP_DIR_EMPTY
  | OP_IO_ERROR
  | OP_FAILURE

primrec ret_code :: "ret_codes_t \<Rightarrow> nat" where
  "ret_code OP_SUCCESS = 1"
| "ret_code OP_SESSION_ERROR = 2"
| "ret_code OP_PERMISSION_ERROR = 3"
| "ret_code OP_USER_EXISTS = 4"
| "ret_code OP_FILE_EXISTS = 5"
| "ret_code OP_CRED_RULE_ERROR = 6"
| "ret_code OP_USER_AUTH = 7"
| "ret_code OP_DIR_NOT_EMPTY = 8"
| "ret_code OP_RESOLVE_ERROR = 9"
| "ret_code OP_PATH_NOT_DIR = 10"
| "ret_code OP_PATH_NOT_FILE = 11"
| "ret_code OP_DIR_EXISTS = 12"
| "ret_code OP_SOCK_CLOSED = 13"
| "ret_code OP_USER_NO_EXIST = 14"
| "ret_code OP_FILE_EMPTY = 15"
| "ret_code OP_DIR_EMPTY = 16"
| "ret_code OP_IO_ERROR = 254"
| "ret_code OP_FAILURE = 255"

text \<open>The codes form a finite enumeration, so statements about all of them can be evaluated.\<close>

instantiation ret_codes_t :: enum
begin

definition enum_ret_codes_t :: "ret_codes_t list" where
  "enum_ret_codes_t =
    [OP_SUCCESS, OP_SESSION_ERROR, OP_PERMISSION_ERROR, OP_USER_EXISTS, OP_FILE_EXISTS,
     OP_CRED_RULE_ERROR, OP_USER_AUTH, OP_DIR_NOT_EMPTY, OP_RESOLVE_ERROR, OP_PATH_NOT_DIR,
     OP_PATH_NOT_FILE, OP_DIR_EXISTS, OP_SOCK_CLOSED, OP_USER_NO_EXIST, OP_FILE_EMPTY,
     OP_DIR_EMPTY, OP_IO_ERROR, OP_FAILURE]"

definition enum_all_ret_codes_t :: "(ret_codes_t \<Rightarrow> bool) \<Rightarrow> bool" where
  "enum_all_ret_codes_t P \<longleftrightarrow> list_all P (enum_class.enum :: ret_codes_t list)"

definition enum_ex_ret_codes_t :: "(ret_codes_t \<Rightarrow> bool) \<Rightarrow> bool" where
  "enum_ex_ret_codes_t P \<longleftrightarrow> list_ex P (enum_class.enum :: ret_codes_t list)"

instance
proof
  show univ: "(UNIV :: ret_codes_t set) = set enum_class.enum"
  proof
    show "(UNIV :: ret_codes_t set) \<subseteq> set enum_class.enum"
    proof
      fix c :: ret_codes_t
      show "c \<in> set enum_class.enum" by (cases c) (simp_all add: enum_ret_codes_t_def)
    qed
  qed simp
  show "distinct (enum_class.enum :: ret_codes_t list)"
    by (simp add: enum_ret_codes_t_def)
  show "enum_class.enum_all P \<longleftrightarrow> Ball (UNIV :: ret_codes_t set) P" for P
    by (simp only: enum_all_ret_codes_t_def list_all_iff univ)
  show "enum_class.enum_ex P \<longleftrightarrow> Bex (UNIV :: ret_codes_t set) P" for P
    by (simp only: enum_ex_ret_codes_t_def list_ex_iff univ)
qed

end

section \<open>Bytes and C strings\<close>

text \<open>
  A C string is its list of characters up to and without the terminating NUL. \<open>cstr\<close> reads a
  string out of a buffer, \<open>str_bytes\<close> lays its characters out in memory.
\<close>

definition byte_of :: "char \<Rightarrow> u8" where
  "byte_of c = word_of_nat (of_char c)"

definition chr_of :: "u8 \<Rightarrow> char" where
  "chr_of b = char_of (unat b)"

definition str_bytes :: "string \<Rightarrow> bytes" where
  "str_bytes s = map byte_of s"

definition cstr :: "bytes \<Rightarrow> string" where
  "cstr bs = map chr_of (takeWhile (\<lambda>b. b \<noteq> 0) bs)"

definition nul_free :: "string \<Rightarrow> bool" where
  "nul_free s \<longleftrightarrow> CHR 0x00 \<notin> set s"

lemma of_char_less_256: "(of_char c :: nat) < 256"
  by (metis char_of_eq_iff of_char_mod_256 mod_less_divisor zero_less_numeral)

lemma unat_byte_of [simp, c_str]: "unat (byte_of c) = of_char c"
  using of_char_less_256 [of c] by (simp add: byte_of_def unat_of_nat)

lemma chr_of_byte_of [simp, c_str]: "chr_of (byte_of c) = c"
  by (simp add: chr_of_def)

lemma unat_u8_less: "unat (b :: u8) < 256"
proof -
  have "unat b < 2 ^ LENGTH(8)" by (rule unsigned_less)
  then show ?thesis by simp
qed

lemma byte_of_chr_of [simp, c_str]: "byte_of (chr_of b) = b"
  using unat_u8_less [of b] by (simp add: byte_of_def chr_of_def)

lemma byte_of_eq_0_iff: "byte_of c = 0 \<longleftrightarrow> c = CHR 0x00"
proof -
  have "byte_of c = 0 \<longleftrightarrow> unat (byte_of c) = unat (0 :: u8)"
    by (simp only: word_unat_eq_iff)
  also have "\<dots> \<longleftrightarrow> (of_char c :: nat) = of_char (CHR 0x00)" by simp
  also have "\<dots> \<longleftrightarrow> c = CHR 0x00" by (simp only: of_char_eq_iff)
  finally show ?thesis .
qed

lemma map_chr_of_str_bytes [simp, c_str]: "map chr_of (str_bytes s) = s"
  by (simp add: str_bytes_def o_def)

lemma length_str_bytes [simp, c_str]: "length (str_bytes s) = length s"
  by (simp add: str_bytes_def)

lemma str_bytes_append [simp, c_str]: "str_bytes (s @ t) = str_bytes s @ str_bytes t"
  by (simp add: str_bytes_def)

lemma str_bytes_inject [simp]: "str_bytes s = str_bytes t \<longleftrightarrow> s = t"
  by (metis map_chr_of_str_bytes)

lemma takeWhile_str_bytes:
  assumes "nul_free s"
  shows "takeWhile (\<lambda>b. b \<noteq> 0) (str_bytes s @ bs) = str_bytes s @ takeWhile (\<lambda>b. b \<noteq> 0) bs"
proof -
  have "\<forall>b \<in> set (str_bytes s). b \<noteq> 0"
    using assms by (auto simp: str_bytes_def nul_free_def byte_of_eq_0_iff)
  then show ?thesis by (simp add: takeWhile_append2)
qed

lemma cstr_str_bytes [simp, c_str]: "nul_free s \<Longrightarrow> cstr (str_bytes s @ 0 # bs) = s"
  unfolding cstr_def by (subst takeWhile_str_bytes) simp_all

lemma cstr_str_bytes_exact [simp, c_str]: "nul_free s \<Longrightarrow> cstr (str_bytes s) = s"
  unfolding cstr_def using takeWhile_str_bytes [of s "[]"]
  by (simp only: append_Nil2 takeWhile.simps map_chr_of_str_bytes)

lemma nul_free_cstr [simp]: "nul_free (cstr bs)"
proof -
  have "chr_of b \<noteq> CHR 0x00" if "b \<in> set (takeWhile (\<lambda>b. b \<noteq> 0) bs)" for b
  proof
    assume "chr_of b = CHR 0x00"
    then have "byte_of (chr_of b) = 0" by (simp only: byte_of_eq_0_iff)
    then have "b = 0" by simp
    with that show False by (auto dest: set_takeWhileD)
  qed
  then show ?thesis unfolding nul_free_def cstr_def set_map by fastforce
qed

lemma length_cstr_le: "length (cstr bs) \<le> length bs"
  by (simp add: cstr_def length_takeWhile_le)

lemma nul_free_append [simp]: "nul_free (s @ t) \<longleftrightarrow> nul_free s \<and> nul_free t"
  by (auto simp: nul_free_def)

lemma nul_free_Nil [simp]: "nul_free []"
  by (simp add: nul_free_def)

lemma nul_free_Cons [simp]: "nul_free (c # s) \<longleftrightarrow> c \<noteq> CHR 0x00 \<and> nul_free s"
  by (auto simp: nul_free_def)

section \<open>Decimal numbers\<close>

text \<open>
  \<open>dec_nat\<close> prints a number as \<^verbatim>\<open>%hhu\<close> and \<^verbatim>\<open>%ld\<close> do, \<open>digit_val\<close> reads one digit.
\<close>

definition digit_char :: "nat \<Rightarrow> char" where
  "digit_char d = char_of (48 + d)"

definition digit_val :: "char \<Rightarrow> nat option" where
  "digit_val c =
    (let n = (of_char c :: nat) in if 48 \<le> n \<and> n \<le> 57 then Some (n - 48) else None)"

fun dec_nat :: "nat \<Rightarrow> string" where
  "dec_nat n = (if n < 10 then [digit_char n] else dec_nat (n div 10) @ [digit_char (n mod 10)])"

declare dec_nat.simps [simp del]

fun num_of_digits :: "nat \<Rightarrow> nat list \<Rightarrow> nat" where
  "num_of_digits acc [] = acc"
| "num_of_digits acc (d # ds) = num_of_digits (10 * acc + d) ds"

lemma num_of_digits_append:
  "num_of_digits acc (xs @ ys) = num_of_digits (num_of_digits acc xs) ys"
  by (induction xs arbitrary: acc) simp_all

lemma digit_val_digit_char [simp]: "d < 10 \<Longrightarrow> digit_val (digit_char d) = Some d"
  by (simp add: digit_val_def digit_char_def Let_def)

lemma digit_char_numerals [simp]:
  "digit_char 0 = CHR ''0''" "digit_char 1 = CHR ''1''" "digit_char 2 = CHR ''2''"
  "digit_char 3 = CHR ''3''" "digit_char 4 = CHR ''4''" "digit_char 5 = CHR ''5''"
  "digit_char 6 = CHR ''6''" "digit_char 7 = CHR ''7''" "digit_char 8 = CHR ''8''"
  "digit_char 9 = CHR ''9''"
  by code_simp+

lemma dec_nat_nonempty [simp]: "dec_nat n \<noteq> []"
  by (subst dec_nat.simps) simp

lemma dec_nat_small: "n < 10 \<Longrightarrow> dec_nat n = [digit_char n]"
  by (subst dec_nat.simps) simp

lemma dec_nat_digits: "\<exists>ds. dec_nat n = map digit_char ds \<and> (\<forall>d \<in> set ds. d < 10) \<and>
  num_of_digits 0 ds = n"
proof (induction n rule: dec_nat.induct)
  case (1 n)
  show ?case
  proof (cases "n < 10")
    case True
    then show ?thesis by (intro exI [of _ "[n]"]) (simp add: dec_nat_small)
  next
    case False
    then obtain ds where "dec_nat (n div 10) = map digit_char ds" "\<forall>d \<in> set ds. d < 10"
      "num_of_digits 0 ds = n div 10"
      using "1.IH" by blast
    with False show ?thesis
      by (intro exI [of _ "ds @ [n mod 10]"])
        (auto simp: dec_nat.simps [of n] num_of_digits_append)
  qed
qed

section \<open>Lists\<close>

lemma takeWhile_neq_append [simp]: "x \<notin> set xs \<Longrightarrow> takeWhile (\<lambda>y. y \<noteq> x) (xs @ x # ys) = xs"
  by (induction xs) auto

lemma dropWhile_neq_append [simp]:
  "x \<notin> set xs \<Longrightarrow> dropWhile (\<lambda>y. y \<noteq> x) (xs @ x # ys) = x # ys"
  by (induction xs) auto

lemma list_all_upt_iff: "(\<forall>i < n. P i) \<longleftrightarrow> list_all P [0..<n]"
  by (auto simp: list_all_iff)

end
