(* ===== verification/Utils.thy ===== *)
theory Utils
  imports Prelude
begin

text \<open>
  \<^verbatim>\<open>src/server/utils.c\<close>: the 64-bit byte swap behind \<open>htonll\<close> and \<open>ntohll\<close>, and the layout of
  integers in memory and on the wire. The interface \<open>net_codec\<close> states what a field codec promises;
  it is interpreted on the 16-, 32- and 64-bit conversions the wire code uses.
\<close>

section \<open>Integers in memory\<close>

text \<open>
  \<open>mem_of\<close> is the object representation of an integer of \<open>n\<close> bytes, on a little-endian or a
  big-endian machine; \<open>be_bytes\<close> is network order.
\<close>

definition mem_byte :: "nat \<Rightarrow> 'a::len word \<Rightarrow> u8" where
  "mem_byte i w = ucast (drop_bit (8 * i) w)"

definition be_bytes :: "nat \<Rightarrow> 'a::len word \<Rightarrow> bytes" where
  "be_bytes n w = map (\<lambda>i. mem_byte i w) (rev [0..<n])"

definition mem_of :: "bool \<Rightarrow> nat \<Rightarrow> 'a::len word \<Rightarrow> bytes" where
  "mem_of little n w =
    (if little then map (\<lambda>i. mem_byte i w) [0..<n] else map (\<lambda>i. mem_byte i w) (rev [0..<n]))"

fun be_nat :: "nat \<Rightarrow> bytes \<Rightarrow> nat" where
  "be_nat acc [] = acc"
| "be_nat acc (b # bs) = be_nat (acc * 256 + unat b) bs"

definition be_dec :: "bytes \<Rightarrow> 'a::len word" where
  "be_dec bs = word_of_nat (be_nat 0 bs)"

text \<open>Loading an integer from its object representation.\<close>

definition load_mem :: "bool \<Rightarrow> bytes \<Rightarrow> 'a::len word" where
  "load_mem little bs = (if little then be_dec (rev bs) else be_dec bs)"

lemma be_bytes_Suc: "be_bytes (Suc n) w = mem_byte n w # be_bytes n w"
  by (simp add: be_bytes_def)

lemma length_be_bytes [simp]: "length (be_bytes n w) = n"
  by (simp add: be_bytes_def)

lemma length_mem_of [simp]: "length (mem_of little n w) = n"
  by (simp add: mem_of_def)

lemma mem_of_be: "mem_of little n w = (if little then rev (be_bytes n w) else be_bytes n w)"
  by (simp add: mem_of_def be_bytes_def rev_map)

lemma unat_mem_byte: "unat (mem_byte i w) = unat w div 256 ^ i mod 256"
proof -
  have "unat (drop_bit (8 * i) w) = unat w div 2 ^ (8 * i)"
    by (simp only: unat_drop_bit_eq) (simp only: drop_bit_eq_div)
  moreover have "(2::nat) ^ (8 * i) = 256 ^ i" by (simp add: power_mult)
  ultimately show ?thesis by (simp add: mem_byte_def unsigned_ucast_eq take_bit_eq_mod)
qed

lemma be_nat_acc: "be_nat acc bs = acc * 256 ^ length bs + be_nat 0 bs"
proof (induction bs arbitrary: acc)
  case Nil
  then show ?case by simp
next
  case (Cons b bs)
  have "be_nat acc (b # bs) = (acc * 256 + unat b) * 256 ^ length bs + be_nat 0 bs"
    using Cons.IH [of "acc * 256 + unat b"] by simp
  also have "\<dots> = acc * 256 ^ length (b # bs) + (unat b * 256 ^ length bs + be_nat 0 bs)"
    by (simp add: algebra_simps)
  also have "unat b * 256 ^ length bs + be_nat 0 bs = be_nat 0 (b # bs)"
    using Cons.IH [of "unat b"] by simp
  finally show ?case .
qed

lemma be_nat_be_bytes: "be_nat 0 (be_bytes n w) = unat w mod 256 ^ n"
proof (induction n)
  case 0
  then show ?case by (simp add: be_bytes_def)
next
  case (Suc n)
  have "be_nat 0 (be_bytes (Suc n) w) = unat (mem_byte n w) * 256 ^ n + be_nat 0 (be_bytes n w)"
    using be_nat_acc [of "unat (mem_byte n w)" "be_bytes n w"] by (simp add: be_bytes_Suc)
  also have "\<dots> = 256 ^ n * (unat w div 256 ^ n mod 256) + unat w mod 256 ^ n"
    by (simp add: unat_mem_byte Suc.IH)
  also have "\<dots> = unat w mod (256 ^ n * 256)" by (rule mod_mult2_eq [symmetric])
  finally show ?case by (simp add: mult.commute)
qed

lemma be_dec_be_bytes:
  fixes w :: "'a::len word"
  assumes "8 * n = LENGTH('a)"
  shows "be_dec (be_bytes n w) = w"
proof -
  have "(256::nat) ^ n = 2 ^ LENGTH('a)" by (simp add: assms [symmetric] power_mult)
  then have "unat w mod 256 ^ n = unat w" using unsigned_less [of w] by simp
  then show ?thesis by (simp add: be_dec_def be_nat_be_bytes)
qed

lemma be_nat_less: "be_nat 0 bs < 256 ^ length bs"
proof (induction bs)
  case Nil
  then show ?case by simp
next
  case (Cons b bs)
  have "unat b < 256" using unsigned_less [of b] by simp
  then have "unat b * 256 ^ length bs + be_nat 0 bs < (unat b + 1) * 256 ^ length bs"
    using Cons.IH by (simp add: algebra_simps)
  also have "\<dots> \<le> 256 * 256 ^ length bs"
    using \<open>unat b < 256\<close> by (intro mult_le_mono1) simp
  finally show ?case using be_nat_acc [of "unat b" bs] by simp
qed

lemma be_nat_inject:
  "length xs = length ys \<Longrightarrow> be_nat 0 xs = be_nat 0 ys \<Longrightarrow> xs = ys"
proof (induction xs ys rule: list_induct2)
  case Nil
  then show ?case by simp
next
  case (Cons x xs y ys)
  let ?m = "(256::nat) ^ length ys"
  have eq: "unat x * ?m + be_nat 0 xs = unat y * ?m + be_nat 0 ys"
    using Cons.prems be_nat_acc [of "unat x" xs] be_nat_acc [of "unat y" ys] Cons.hyps by simp
  have lx: "be_nat 0 xs < ?m" and ly: "be_nat 0 ys < ?m"
    using be_nat_less [of xs] be_nat_less [of ys] Cons.hyps by simp_all
  have "(unat x * ?m + be_nat 0 xs) div ?m = unat x" using lx by simp
  moreover have "(unat y * ?m + be_nat 0 ys) div ?m = unat y" using ly by simp
  ultimately have "unat x = unat y" using eq by simp
  moreover from this eq have "be_nat 0 xs = be_nat 0 ys" by simp
  ultimately show ?case using Cons.IH by (simp add: word_unat_eq_iff)
qed

lemma be_bytes_be_dec:
  assumes "length bs = n" and "8 * n = LENGTH('a::len)"
  shows "be_bytes n (be_dec bs :: 'a word) = bs"
proof -
  have pow: "(256::nat) ^ n = 2 ^ LENGTH('a)" by (simp add: assms(2) [symmetric] power_mult)
  have "unat (be_dec bs :: 'a word) = be_nat 0 bs"
    using be_nat_less [of bs] assms(1) pow by (simp add: be_dec_def unat_of_nat)
  then have "be_nat 0 (be_bytes n (be_dec bs :: 'a word)) = be_nat 0 bs"
    using be_nat_less [of bs] assms(1) by (simp add: be_nat_be_bytes)
  then show ?thesis using assms(1) by (intro be_nat_inject) simp_all
qed

lemma load_mem_mem_of:
  fixes w :: "'a::len word"
  assumes "8 * n = LENGTH('a)"
  shows "load_mem little (mem_of little n w) = w"
  by (simp add: load_mem_def mem_of_be be_dec_be_bytes [OF assms])

section \<open>Byte order conversions\<close>

text \<open>
  \<^verbatim>\<open>swap_byte_order\<close> looks at the first byte of an \<^verbatim>\<open>int\<close> that holds 1 to find the machine's byte
  order; the parameter \<open>little\<close> is the outcome of that test.
\<close>

definition swap_byte_order :: "bool \<Rightarrow> u64 \<Rightarrow> u64" where
  "swap_byte_order little val =
    (if little then
       (let val = (push_bit 8 val AND 0xFF00FF00FF00FF00) OR (drop_bit 8 val AND 0x00FF00FF00FF00FF);
            val = (push_bit 16 val AND 0xFFFF0000FFFF0000) OR (drop_bit 16 val AND 0x0000FFFF0000FFFF);
            val = push_bit 32 val OR drop_bit 32 val
        in val)
     else val)"

definition htonll :: "bool \<Rightarrow> u64 \<Rightarrow> u64" where
  "htonll little val = swap_byte_order little val"

definition ntohll :: "bool \<Rightarrow> u64 \<Rightarrow> u64" where
  "ntohll little val = swap_byte_order little val"

text \<open>The C library's conversions of 16 and 32 bits: the value whose network layout is the argument.\<close>

definition ntohs :: "bool \<Rightarrow> u16 \<Rightarrow> u16" where
  "ntohs little x = be_dec (mem_of little 2 x)"

definition htons :: "bool \<Rightarrow> u16 \<Rightarrow> u16" where
  "htons little x = load_mem little (be_bytes 2 x)"

definition ntohl :: "bool \<Rightarrow> u32 \<Rightarrow> u32" where
  "ntohl little x = be_dec (mem_of little 4 x)"

definition htonl :: "bool \<Rightarrow> u32 \<Rightarrow> u32" where
  "htonl little x = load_mem little (be_bytes 4 x)"

text \<open>The three steps of the swap, named for the proof: each exchanges neighbouring groups of bits.\<close>

definition swap8 :: "u64 \<Rightarrow> u64" where
  "swap8 v = (push_bit 8 v AND 0xFF00FF00FF00FF00) OR (drop_bit 8 v AND 0x00FF00FF00FF00FF)"

definition swap16 :: "u64 \<Rightarrow> u64" where
  "swap16 v = (push_bit 16 v AND 0xFFFF0000FFFF0000) OR (drop_bit 16 v AND 0x0000FFFF0000FFFF)"

definition swap32 :: "u64 \<Rightarrow> u64" where
  "swap32 v = push_bit 32 v OR drop_bit 32 v"

lemma swap_steps: "swap_byte_order True v = swap32 (swap16 (swap8 v))"
  unfolding swap_byte_order_def swap8_def swap16_def swap32_def Let_def if_True by (rule refl)

lemma swap_masks:
  "list_all (\<lambda>n. bit (0xFF00FF00FF00FF00 :: u64) n = odd (n div 8) \<and>
     bit (0x00FF00FF00FF00FF :: u64) n = even (n div 8) \<and>
     bit (0xFFFF0000FFFF0000 :: u64) n = odd (n div 16) \<and>
     bit (0x0000FFFF0000FFFF :: u64) n = even (n div 16)) [0..<64]"
  by code_simp

lemma bit_swap_masks:
  assumes "n < 64"
  shows "bit (0xFF00FF00FF00FF00 :: u64) n = odd (n div 8)"
    "bit (0x00FF00FF00FF00FF :: u64) n = even (n div 8)"
    "bit (0xFFFF0000FFFF0000 :: u64) n = odd (n div 16)"
    "bit (0x0000FFFF0000FFFF :: u64) n = even (n div 16)"
  using swap_masks assms unfolding list_all_iff by auto

lemma bit_swap8:
  assumes "n < 64"
  shows "bit (swap8 v) n = (if odd (n div 8) then bit v (n - 8) else bit v (n + 8))"
proof -
  have "odd (n div 8) \<Longrightarrow> 8 \<le> n" by (cases "n < 8") simp_all
  moreover have "bit (push_bit 8 v) n \<longleftrightarrow> 8 \<le> n \<and> bit v (n - 8)"
    using assms by (simp add: bit_push_bit_iff)
  moreover have "bit (drop_bit 8 v) n \<longleftrightarrow> bit v (n + 8)"
    by (simp add: bit_drop_bit_eq add.commute)
  ultimately show ?thesis unfolding swap8_def
    by (simp only: bit_or_iff bit_and_iff bit_swap_masks [OF assms] split: if_split) blast
qed

lemma bit_swap16:
  assumes "n < 64"
  shows "bit (swap16 v) n = (if odd (n div 16) then bit v (n - 16) else bit v (n + 16))"
proof -
  have "odd (n div 16) \<Longrightarrow> 16 \<le> n" by (cases "n < 16") simp_all
  moreover have "bit (push_bit 16 v) n \<longleftrightarrow> 16 \<le> n \<and> bit v (n - 16)"
    using assms by (simp add: bit_push_bit_iff)
  moreover have "bit (drop_bit 16 v) n \<longleftrightarrow> bit v (n + 16)"
    by (simp add: bit_drop_bit_eq add.commute)
  ultimately show ?thesis unfolding swap16_def
    by (simp only: bit_or_iff bit_and_iff bit_swap_masks [OF assms] split: if_split) blast
qed

lemma bit_swap32:
  assumes "n < 64"
  shows "bit (swap32 v) n = (if odd (n div 32) then bit v (n - 32) else bit v (n + 32))"
proof -
  have "odd (n div 32) \<Longrightarrow> 32 \<le> n" by (cases "n < 32") simp_all
  moreover have "even (n div 32) \<Longrightarrow> n < 32"
    using assms by (cases "n < 32") (simp_all add: le_div_geq)
  moreover have "bit v (n + 32) \<Longrightarrow> n < 32" using bit_imp_le_length [of v "n + 32"] by simp
  moreover have "bit (push_bit 32 v) n \<longleftrightarrow> 32 \<le> n \<and> bit v (n - 32)"
    using assms by (simp add: bit_push_bit_iff)
  moreover have "bit (drop_bit 32 v) n \<longleftrightarrow> bit v (n + 32)"
    by (simp add: bit_drop_bit_eq add.commute)
  ultimately show ?thesis unfolding swap32_def
    by (simp only: bit_or_iff split: if_split) (auto simp: not_less)
qed

lemma less_8_cases:
  assumes "(n::nat) < 8"
  shows "n = 0 \<or> n = 1 \<or> n = 2 \<or> n = 3 \<or> n = 4 \<or> n = 5 \<or> n = 6 \<or> n = 7"
  using assms by arith

lemma bit_swap:
  assumes r: "r < 8" and q: "q < 8"
  shows "bit (swap_byte_order True v) (8 * q + r) = bit v (8 * (7 - q) + r)"
proof -
  have "(8 * k + r) div 8 = k" for k using r by simp
  then have d8: "(8 * q + r) div 8 = q" "(8 * q + r) div 16 = q div 2" "(8 * q + r) div 32 = q div 4" for q
    using div_mult2_eq [of "8 * q + r" 8 2] div_mult2_eq [of "8 * q + r" 8 4] by simp_all
  have b: "8 * q + r < 64" if "q < 8" for q using that r by simp
  have s8: "bit (swap8 v) (8 * q + r) = bit v (8 * (if odd (q) then q - 1 else q + 1) + r)"
    if "q < 8" for q v
  proof -
    have "odd (q) \<Longrightarrow> 1 \<le> q" by (cases "q < 1") simp_all
    then have "odd (q) \<Longrightarrow> 8 * q + r - 8 = 8 * (q - 1) + r" by simp
    moreover have "8 * q + r + 8 = 8 * (q + 1) + r" by simp
    ultimately show ?thesis using bit_swap8 [OF b [OF that], of v]
      by (cases "odd (q)") (simp_all only: d8 if_True if_False simp_thms)
  qed
  have s16: "bit (swap16 v) (8 * q + r) = bit v (8 * (if odd (q div 2) then q - 2 else q + 2) + r)"
    if "q < 8" for q v
  proof -
    have "odd (q div 2) \<Longrightarrow> 2 \<le> q" by (cases "q < 2") simp_all
    then have "odd (q div 2) \<Longrightarrow> 8 * q + r - 16 = 8 * (q - 2) + r" by simp
    moreover have "8 * q + r + 16 = 8 * (q + 2) + r" by simp
    ultimately show ?thesis using bit_swap16 [OF b [OF that], of v]
      by (cases "odd (q div 2)") (simp_all only: d8 if_True if_False simp_thms)
  qed
  have s32: "bit (swap32 v) (8 * q + r) = bit v (8 * (if odd (q div 4) then q - 4 else q + 4) + r)"
    if "q < 8" for q v
  proof -
    have "odd (q div 4) \<Longrightarrow> 4 \<le> q" by (cases "q < 4") simp_all
    then have "odd (q div 4) \<Longrightarrow> 8 * q + r - 32 = 8 * (q - 4) + r" by simp
    moreover have "8 * q + r + 32 = 8 * (q + 4) + r" by simp
    ultimately show ?thesis using bit_swap32 [OF b [OF that], of v]
      by (cases "odd (q div 4)") (simp_all only: d8 if_True if_False simp_thms)
  qed
  let ?a = "if odd (q div 4) then q - 4 else q + 4"
  let ?b = "if odd (?a div 2) then ?a - 2 else ?a + 2"
  let ?c = "if odd ?b then ?b - 1 else ?b + 1"
  have a: "?a < 8" and b: "?b < 8" and c: "?c = 7 - q"
    using less_8_cases [OF q] by (elim disjE; simp)+
  show ?thesis unfolding swap_steps s32 [OF q] s16 [OF a] s8 [OF b] c by (rule refl)
qed

lemma swap_mem_byte:
  assumes "i < 8"
  shows "mem_byte i (swap_byte_order True v) = mem_byte (7 - i) v"
proof (rule bit_word_eqI)
  fix n assume "n < LENGTH(8)"
  then have n: "n < 8" by simp
  then show "bit (mem_byte i (swap_byte_order True v)) n = bit (mem_byte (7 - i) v) n"
    using bit_swap [OF n assms, of v] by (simp add: mem_byte_def bit_simps)
qed
lemma be_bytes_swap: "be_bytes 8 (swap_byte_order True v) = rev (be_bytes 8 v)"
proof -
  have "mem_byte 0 (swap_byte_order True v) = mem_byte 7 v"
    "mem_byte 1 (swap_byte_order True v) = mem_byte 6 v"
    "mem_byte 2 (swap_byte_order True v) = mem_byte 5 v"
    "mem_byte 3 (swap_byte_order True v) = mem_byte 4 v"
    "mem_byte 4 (swap_byte_order True v) = mem_byte 3 v"
    "mem_byte 5 (swap_byte_order True v) = mem_byte 2 v"
    "mem_byte 6 (swap_byte_order True v) = mem_byte 1 v"
    "mem_byte 7 (swap_byte_order True v) = mem_byte 0 v"
    by (simp_all add: swap_mem_byte)
  then show ?thesis by (simp add: be_bytes_def upt_rec numeral_eq_Suc)
qed

lemma swap_False [simp]: "swap_byte_order False v = v"
  by (simp add: swap_byte_order_def)

lemma mem_of_htonll: "mem_of little 8 (htonll little v) = be_bytes 8 v"
  by (cases little) (simp_all add: mem_of_be htonll_def be_bytes_swap)

lemma ntohll_load: "length bs = 8 \<Longrightarrow> ntohll little (load_mem little bs) = be_dec bs"
proof (cases little)
  case True
  assume len: "length bs = 8"
  let ?w = "load_mem little bs :: u64"
  have "be_bytes 8 ?w = rev bs"
    using True len by (simp add: load_mem_def be_bytes_be_dec)
  then have "be_bytes 8 (ntohll little ?w) = bs"
    using True by (simp add: ntohll_def be_bytes_swap)
  then have "be_dec (be_bytes 8 (ntohll little ?w)) = (be_dec bs :: u64)" by simp
  then show ?thesis by (simp add: be_dec_be_bytes)
next
  case False
  then show ?thesis by (simp add: ntohll_def swap_byte_order_def load_mem_def)
qed

lemma mem_of_load_mem:
  assumes "length bs = n" and "8 * n = LENGTH('a::len)"
  shows "mem_of little n (load_mem little bs :: 'a word) = bs"
  using assms by (simp add: mem_of_be load_mem_def be_bytes_be_dec)

lemma ntohs_load: "length bs = 2 \<Longrightarrow> ntohs little (load_mem little bs) = be_dec bs"
  by (simp add: ntohs_def mem_of_load_mem)

lemma ntohl_load: "length bs = 4 \<Longrightarrow> ntohl little (load_mem little bs) = be_dec bs"
  by (simp add: ntohl_def mem_of_load_mem)

text \<open>Network layout of htonll.\<close>

theorem htonll_network_order:
  "mem_of little 8 (htonll little v) = be_bytes 8 v \<and> ntohll little (htonll little v) = v"
proof
  show "mem_of little 8 (htonll little v) = be_bytes 8 v" by (rule mem_of_htonll)
  have "ntohll little (load_mem little (mem_of little 8 (htonll little v))) = be_dec (be_bytes 8 v)"
    by (simp add: ntohll_load mem_of_htonll)
  then show "ntohll little (htonll little v) = v"
    by (simp add: load_mem_mem_of be_dec_be_bytes)
qed

text \<open>The converters to and from network order coincide, as the reader of \<^verbatim>\<open>path_len\<close> relies on.\<close>

lemma htons_eq_ntohs: "htons little x = ntohs little x"
  by (simp add: htons_def ntohs_def load_mem_def mem_of_be)

section \<open>Field codecs\<close>

text \<open>
  What the wire code relies on: a field has a fixed width, decoding inverts encoding, and every
  byte string of that width is the encoding of its value.
\<close>

locale net_codec =
  fixes width :: nat
    and enc :: "'a \<Rightarrow> bytes"
    and dec :: "bytes \<Rightarrow> 'a"
  assumes length_enc: "length (enc x) = width"
    and dec_enc: "dec (enc x) = x"
    and enc_dec: "length bs = width \<Longrightarrow> enc (dec bs) = bs"
begin

lemma take_enc: "take width (enc x @ bs) = enc x"
  using length_enc [of x] by simp

lemma drop_enc: "drop width (enc x @ bs) = bs"
  using length_enc [of x] by simp

lemma enc_inject: "enc x = enc y \<longleftrightarrow> x = y"
  by (metis dec_enc)

lemma dec_inject: "length xs = width \<Longrightarrow> length ys = width \<Longrightarrow> dec xs = dec ys \<Longrightarrow> xs = ys"
  by (metis enc_dec)

end

text \<open>What is sent is the memory of the converted integer; what is received is loaded and converted.\<close>

definition enc16 :: "u16 \<Rightarrow> bytes" where
  "enc16 x = mem_of True 2 (htons True x)"

definition dec16 :: "bytes \<Rightarrow> u16" where
  "dec16 bs = ntohs True (load_mem True bs)"

definition enc32 :: "u32 \<Rightarrow> bytes" where
  "enc32 x = mem_of True 4 (htonl True x)"

definition dec32 :: "bytes \<Rightarrow> u32" where
  "dec32 bs = ntohl True (load_mem True bs)"

definition enc64 :: "u64 \<Rightarrow> bytes" where
  "enc64 x = mem_of True 8 (htonll True x)"

definition dec64 :: "bytes \<Rightarrow> u64" where
  "dec64 bs = ntohll True (load_mem True bs)"

lemma enc16_be: "enc16 x = be_bytes 2 x"
  by (simp add: enc16_def htons_def mem_of_load_mem)

lemma enc32_be: "enc32 x = be_bytes 4 x"
  by (simp add: enc32_def htonl_def mem_of_load_mem)

lemma enc64_be: "enc64 x = be_bytes 8 x"
  by (simp add: enc64_def mem_of_htonll)

interpretation c16: net_codec 2 enc16 dec16
  by unfold_locales (simp_all add: enc16_be dec16_def ntohs_load be_dec_be_bytes be_bytes_be_dec)

interpretation c32: net_codec 4 enc32 dec32
  by unfold_locales (simp_all add: enc32_be dec32_def ntohl_load be_dec_be_bytes be_bytes_be_dec)

interpretation c64: net_codec 8 enc64 dec64
  by unfold_locales (simp_all add: enc64_be dec64_def ntohll_load be_dec_be_bytes be_bytes_be_dec)

end
