(* ===== verification/Crypto.thy ===== *)
theory Crypto
  imports Prelude
begin

text \<open>
  \<^verbatim>\<open>src/server/server_crypto.c\<close>: the hash object, its comparisons, and its textual form in
  hexadecimal. SHA-256 belongs to OpenSSL: it is the parameter \<open>sha\<close> of the definitions that call it.
  Pointers that the code tests against NULL are options; a pointer and a length that always travel
  together are one list.
\<close>

section \<open>The hash object\<close>

record hash_t =
  h_size :: nat
  h_array :: bytes

text \<open>Every hash object the code builds has an array of exactly its size.\<close>

definition hash_ok :: "hash_t \<Rightarrow> bool" where
  "hash_ok h \<longleftrightarrow> h_size h = length (h_array h)"

definition SHA256_DIGEST_LENGTH :: nat where
  "SHA256_DIGEST_LENGTH = 32"

text \<open>Indexing an array: undefined behaviour outside its bounds.\<close>

definition rd :: "bytes \<Rightarrow> nat \<Rightarrow> u8 run" where
  "rd a i = (if i < length a then Inr (a ! i) else Inl Oob_read)"

function hash_compare_loop :: "bytes \<Rightarrow> bytes \<Rightarrow> nat \<Rightarrow> nat \<Rightarrow> bool run" where
  "hash_compare_loop l_array r_array sz i =
    (if i < sz then
       rbind (rd l_array i) (\<lambda>x. rbind (rd r_array i) (\<lambda>y.
         if x \<noteq> y then Inr False else hash_compare_loop l_array r_array sz (Suc i)))
     else Inr True)"
  by pat_completeness auto
termination
  by (relation "measure (\<lambda>(l, r, sz, i). sz - i)") auto

declare hash_compare_loop.simps [simp del]

definition hash_compare :: "bytes \<Rightarrow> bytes \<Rightarrow> nat \<Rightarrow> bool run" where
  "hash_compare l_array r_array sz = hash_compare_loop l_array r_array sz 0"

definition hash_bytes_match :: "hash_t option \<Rightarrow> bytes option \<Rightarrow> bool run" where
  "hash_bytes_match p_hash p_array =
    (case (p_hash, p_array) of
       (Some h, Some a) \<Rightarrow>
         if h_size h \<noteq> length a then Inr False else hash_compare (h_array h) a (length a)
     | _ \<Rightarrow> Inr False)"

definition hash_hash_t_match :: "hash_t option \<Rightarrow> hash_t option \<Rightarrow> bool run" where
  "hash_hash_t_match p_lhash p_rhash =
    (case (p_lhash, p_rhash) of
       (Some l, Some r) \<Rightarrow>
         if h_size r \<noteq> h_size l then Inr False
         else hash_compare (h_array l) (h_array r) (h_size l)
     | _ \<Rightarrow> Inr False)"

text \<open>The digest is copied out of the library's buffer, 32 bytes of it.\<close>

definition hash_byte_array :: "(bytes \<Rightarrow> bytes) \<Rightarrow> bytes option \<Rightarrow> hash_t option" where
  "hash_byte_array sha p_byte_array =
    (case p_byte_array of
       None \<Rightarrow> None
     | Some bs \<Rightarrow>
         Some \<lparr>h_size = SHA256_DIGEST_LENGTH, h_array = take SHA256_DIGEST_LENGTH (sha bs)\<rparr>)"

section \<open>Hexadecimal text\<close>

text \<open>\<open>hex_byte\<close> is what \<^verbatim>\<open>printf("%02x")\<close> writes for one byte.\<close>

definition hex_digit :: "nat \<Rightarrow> char" where
  "hex_digit d = ''0123456789abcdef'' ! d"

definition hex_byte :: "u8 \<Rightarrow> string" where
  "hex_byte b = [hex_digit (unat b div 16), hex_digit (unat b mod 16)]"

definition hex_string :: "bytes \<Rightarrow> string" where
  "hex_string bs = concat (map hex_byte bs)"

definition print_b_array :: "hash_t option \<Rightarrow> string" where
  "print_b_array p_hash =
    (case p_hash of None \<Rightarrow> [] | Some h \<Rightarrow> hex_string (take (h_size h) (h_array h)) @ [CHR 0x0A])"

definition is_space :: "char \<Rightarrow> bool" where
  "is_space c \<longleftrightarrow> (let n = (of_char c :: nat) in n = 32 \<or> 9 \<le> n \<and> n \<le> 13)"

definition hex_val :: "char \<Rightarrow> nat option" where
  "hex_val c =
    (let n = (of_char c :: nat) in
     if 48 \<le> n \<and> n \<le> 57 then Some (n - 48)
     else if 97 \<le> n \<and> n \<le> 102 then Some (n - 87)
     else if 65 \<le> n \<and> n \<le> 70 then Some (n - 55)
     else None)"

text \<open>
  \<open>sscanf_2hhx\<close> is \<^verbatim>\<open>sscanf(s, "%2hhx", \<dots>)\<close> of the C standard: white space is skipped, then at most
  two characters are taken as an optionally signed hexadecimal number; a lone sign and a bare
  \<^verbatim>\<open>0x\<close> do not match. \<open>Scan_eof\<close> is the return value \<^verbatim>\<open>EOF\<close>, \<open>Scan_fail\<close> the return value 0.
\<close>

datatype 'a scan = Scan_eof | Scan_fail | Scan_ok 'a

definition sscanf_2hhx :: "string \<Rightarrow> u8 scan" where
  "sscanf_2hhx s =
    (case dropWhile is_space s of
       [] \<Rightarrow> Scan_eof
     | c # r \<Rightarrow>
         if c = CHR ''+'' \<or> c = CHR ''-'' then
           (case r of
              [] \<Rightarrow> Scan_fail
            | d # _ \<Rightarrow>
                (case hex_val d of
                   None \<Rightarrow> Scan_fail
                 | Some v \<Rightarrow> Scan_ok (if c = CHR ''-'' then - word_of_nat v else word_of_nat v)))
         else
           (case hex_val c of
              None \<Rightarrow> Scan_fail
            | Some v \<Rightarrow>
                (case r of
                   [] \<Rightarrow> Scan_ok (word_of_nat v)
                 | d # _ \<Rightarrow>
                     (case hex_val d of
                        Some w \<Rightarrow> Scan_ok (word_of_nat (16 * v + w))
                      | None \<Rightarrow>
                          if c = CHR ''0'' \<and> (d = CHR ''x'' \<or> d = CHR ''X'') then Scan_fail
                          else Scan_ok (word_of_nat v)))))"

text \<open>
  The loop of \<^verbatim>\<open>hex_char_to_byte_array\<close>. When the scan matches nothing the code neither advances nor
  leaves the loop, so the same scan is made again: \<open>None\<close> is the run that never returns.
\<close>

partial_function (option) hex_loop ::
  "string \<Rightarrow> nat \<Rightarrow> nat \<Rightarrow> nat \<Rightarrow> bytes \<Rightarrow> bytes option option" where
  "hex_loop p_hash_str hash_size str_idx barr_idx p_byte_array =
    (if str_idx < hash_size then
       (case sscanf_2hhx (drop str_idx p_hash_str) of
          Scan_ok b \<Rightarrow>
            hex_loop p_hash_str hash_size (str_idx + 2) (barr_idx + 1) (p_byte_array[barr_idx := b])
        | Scan_eof \<Rightarrow> Some None
        | Scan_fail \<Rightarrow> hex_loop p_hash_str hash_size str_idx barr_idx p_byte_array)
     else Some (Some p_byte_array))"

definition hex_char_to_byte_array :: "string option \<Rightarrow> nat \<Rightarrow> hash_t option run" where
  "hex_char_to_byte_array p_hash_str hash_size =
    (case p_hash_str of
       None \<Rightarrow> Inr None
     | Some s \<Rightarrow>
         if hash_size = 0 then Inr None
         else if hash_size mod 2 \<noteq> 0 then Inr None
         else
           (let array_size = hash_size div 2 in
            rbind (run_of_option (hex_loop s hash_size 0 0 (replicate array_size 0))) (\<lambda>r.
              Inr (case r of
                     None \<Rightarrow> None
                   | Some a \<Rightarrow> Some \<lparr>h_size = array_size, h_array = a\<rparr>))))"

text \<open>
  \<^verbatim>\<open>hash_pass_match\<close> compares as many bytes as the text stands for, without looking at the size of
  the hash object.
\<close>

function hash_pass_loop :: "bytes \<Rightarrow> bytes \<Rightarrow> nat \<Rightarrow> nat \<Rightarrow> bool run" where
  "hash_pass_loop pw h sz i =
    (if i < sz then
       rbind (rd pw i) (\<lambda>x. rbind (rd h i) (\<lambda>y.
         if x \<noteq> y then Inr False else hash_pass_loop pw h sz (Suc i)))
     else Inr True)"
  by pat_completeness auto
termination
  by (relation "measure (\<lambda>(pw, h, sz, i). sz - i)") auto

declare hash_pass_loop.simps [simp del]

definition hash_pass_match :: "hash_t option \<Rightarrow> string option \<Rightarrow> nat \<Rightarrow> bool run" where
  "hash_pass_match p_hash p_input len =
    (case (p_hash, p_input) of
       (Some h, Some s) \<Rightarrow>
         rbind (hex_char_to_byte_array (Some s) len) (\<lambda>p_pw_hash.
           case p_pw_hash of
             None \<Rightarrow> Inr False
           | Some pw \<Rightarrow> hash_pass_loop (h_array pw) (h_array h) (h_size pw) 0)
     | _ \<Rightarrow> Inr False)"

section \<open>Comparing hashes\<close>

lemma rd_in [simp]: "i < length a \<Longrightarrow> rd a i = Inr (a ! i)"
  by (simp add: rd_def)

lemma hash_compare_loop_eq:
  assumes "sz \<le> length l" and "sz \<le> length r" and "i \<le> sz"
  shows "hash_compare_loop l r sz i = Inr (\<forall>j. i \<le> j \<and> j < sz \<longrightarrow> l ! j = r ! j)"
  using assms
proof (induction l r sz i rule: hash_compare_loop.induct)
  case (1 l r sz i)
  show ?case
  proof (cases "i < sz \<and> l ! i = r ! i")
    case True
    then have "hash_compare_loop l r sz i = hash_compare_loop l r sz (Suc i)"
      using 1 by (subst hash_compare_loop.simps) simp
    also have "\<dots> = Inr (\<forall>j. Suc i \<le> j \<and> j < sz \<longrightarrow> l ! j = r ! j)"
      using 1 True by simp
    also have "(\<forall>j. Suc i \<le> j \<and> j < sz \<longrightarrow> l ! j = r ! j) \<longleftrightarrow>
        (\<forall>j. i \<le> j \<and> j < sz \<longrightarrow> l ! j = r ! j)"
    proof -
      have "i \<le> j \<longleftrightarrow> j = i \<or> Suc i \<le> j" for j by arith
      with True show ?thesis by auto
    qed
    finally show ?thesis .
  next
    case False
    then show ?thesis using 1 by (subst hash_compare_loop.simps) auto
  qed
qed

lemma hash_compare_eq:
  assumes "sz \<le> length l" and "sz \<le> length r"
  shows "hash_compare l r sz = Inr (take sz l = take sz r)"
proof -
  have "hash_compare l r sz = Inr (\<forall>j < sz. l ! j = r ! j)"
    using assms by (simp add: hash_compare_def hash_compare_loop_eq)
  also have "(\<forall>j < sz. l ! j = r ! j) \<longleftrightarrow> take sz l = take sz r"
    using assms by (auto simp: list_eq_iff_nth_eq)
  finally show ?thesis .
qed

text \<open>Both comparison loops read the same indices in the same order.\<close>

lemma hash_pass_loop_eq: "hash_pass_loop pw h sz i = hash_compare_loop pw h sz i"
proof (induction pw h sz i rule: hash_pass_loop.induct)
  case (1 pw h sz i)
  then show ?case
    by (subst hash_pass_loop.simps, subst hash_compare_loop.simps) (auto simp: rbind_def split: sum.splits)
qed

text \<open>Comparison of hash objects.\<close>

theorem hash_match_iff_equal:
  assumes "hash_ok l" and "hash_ok r"
  shows "hash_hash_t_match (Some l) (Some r) = Inr (h_array l = h_array r) \<and>
    hash_bytes_match (Some l) (Some (h_array r)) = Inr (h_array l = h_array r)"
  using assms by (auto simp: hash_hash_t_match_def hash_bytes_match_def hash_ok_def hash_compare_eq)

theorem hash_match_iff_equal_witness:
  "hash_hash_t_match (Some \<lparr>h_size = 2, h_array = [1, 2]\<rparr>) (Some \<lparr>h_size = 2, h_array = [1, 3]\<rparr>)
     = Inr False"
  using hash_match_iff_equal
    [of "\<lparr>h_size = 2, h_array = [1, 2]\<rparr>" "\<lparr>h_size = 2, h_array = [1, 3]\<rparr>"]
  by (simp add: hash_ok_def)

lemma hash_byte_array_ok:
  assumes "\<And>x. length (sha x) = SHA256_DIGEST_LENGTH" and "hash_byte_array sha (Some bs) = Some h"
  shows "hash_ok h" and "h_array h = sha bs" and "h_size h = SHA256_DIGEST_LENGTH"
  using assms by (auto simp: hash_byte_array_def hash_ok_def)

section \<open>Hexadecimal round trip\<close>

lemma hex_digit_facts:
  "list_all (\<lambda>d. hex_val (hex_digit d) = Some d \<and> \<not> is_space (hex_digit d) \<and>
     hex_digit d \<noteq> CHR ''+'' \<and> hex_digit d \<noteq> CHR ''-'' \<and> hex_digit d \<noteq> CHR 0x00 \<and>
     hex_digit d \<noteq> CHR '':'' \<and> hex_digit d \<noteq> CHR 0x0A) [0..<16]"
  by code_simp

lemma hex_digit_simps [simp]:
  assumes "d < 16"
  shows "hex_val (hex_digit d) = Some d" and "\<not> is_space (hex_digit d)"
    and "hex_digit d \<noteq> CHR ''+''" and "hex_digit d \<noteq> CHR ''-''"
    and "hex_digit d \<noteq> CHR 0x00" and "hex_digit d \<noteq> CHR '':''" and "hex_digit d \<noteq> CHR 0x0A"
  using hex_digit_facts assms by (auto simp: list_all_iff)

lemma byte_nibbles: "unat (b :: u8) div 16 < 16" "unat (b :: u8) mod 16 < 16"
  using unat_u8_less [of b] by simp_all

lemma sscanf_hex_byte [simp]: "sscanf_2hhx (hex_byte b @ s) = Scan_ok b"
proof -
  have "word_of_nat (16 * (unat b div 16) + unat b mod 16) = b" by simp
  then show ?thesis
    using byte_nibbles [of b] by (simp add: sscanf_2hhx_def hex_byte_def)
qed

lemma hex_string_simps [simp]:
  "hex_string [] = []" "hex_string (b # bs) = hex_byte b @ hex_string bs"
  by (simp_all add: hex_string_def)

lemma length_hex_byte [simp]: "length (hex_byte b) = 2"
  by (simp add: hex_byte_def)

lemma length_hex_string [simp]: "length (hex_string bs) = 2 * length bs"
  by (induction bs) simp_all

lemma drop_hex_string: "drop (2 * k) (hex_string bs) = hex_string (drop k bs)"
proof (induction bs arbitrary: k)
  case (Cons b bs)
  then show ?case by (cases k) simp_all
qed simp

lemma hex_byte_chars:
  "c \<in> set (hex_byte b) \<Longrightarrow> c \<noteq> CHR 0x00 \<and> c \<noteq> CHR '':'' \<and> c \<noteq> CHR 0x0A"
  using byte_nibbles [of b] by (auto simp: hex_byte_def)

lemma hex_string_chars:
  "c \<in> set (hex_string bs) \<Longrightarrow> c \<noteq> CHR 0x00 \<and> c \<noteq> CHR '':'' \<and> c \<noteq> CHR 0x0A"
  by (induction bs) (auto dest: hex_byte_chars)

lemma hex_loop_hex_string:
  assumes "k \<le> length bs"
  shows "hex_loop (hex_string bs) (2 * length bs) (2 * k) k
      (take k bs @ replicate (length bs - k) 0) = Some (Some bs)"
  using assms
proof (induction "length bs - k" arbitrary: k)
  case 0
  then show ?case by (simp add: hex_loop.simps)
next
  case (Suc m)
  then have k: "k < length bs" by simp
  then have "drop (2 * k) (hex_string bs) = hex_byte (bs ! k) @ hex_string (drop (Suc k) bs)"
    by (simp add: drop_hex_string Cons_nth_drop_Suc [symmetric])
  moreover have "(take k bs @ replicate (length bs - k) 0)[k := bs ! k] =
      take (Suc k) bs @ replicate (length bs - Suc k) 0"
    using k by (simp add: take_Suc_conv_app_nth list_update_append Suc_diff_Suc [symmetric])
  moreover have "hex_loop (hex_string bs) (2 * length bs) (2 * Suc k) (Suc k)
      (take (Suc k) bs @ replicate (length bs - Suc k) 0) = Some (Some bs)"
    using Suc.hyps(1) [of "Suc k"] Suc.hyps(2) k by simp
  ultimately show ?case using k by (subst hex_loop.simps) simp
qed

lemma hex_read_back:
  assumes "bs \<noteq> []"
  shows "hex_char_to_byte_array (Some (hex_string bs)) (length (hex_string bs)) =
    Inr (Some \<lparr>h_size = length bs, h_array = bs\<rparr>)"
  using assms hex_loop_hex_string [of 0 bs] by (simp add: hex_char_to_byte_array_def Let_def)

text \<open>Printing and reading back a hash.\<close>

theorem hex_round_trip:
  assumes "bs \<noteq> []"
  shows "hex_char_to_byte_array (Some (hex_string bs)) (length (hex_string bs)) =
    Inr (Some \<lparr>h_size = length bs, h_array = bs\<rparr>)"
  using assms by (rule hex_read_back)

theorem hex_round_trip_witness:
  "hex_char_to_byte_array (Some ''5eff'') 4 = Inr (Some \<lparr>h_size = 2, h_array = [0x5e, 0xff]\<rparr>)"
proof -
  have s: "hex_string [0x5e, 0xff] = ''5eff''" by (simp add: hex_byte_def hex_digit_def)
  have n: "length ''5eff'' = 4" "length [0x5e, 0xff :: u8] = 2" by simp_all
  show ?thesis using hex_round_trip [of "[0x5e, 0xff]"] unfolding s n by simp
qed

text \<open>A failed scan is repeated for ever.\<close>

lemma hex_loop_stuck:
  assumes "str_idx < hash_size" and "sscanf_2hhx (drop str_idx s) = Scan_fail"
  shows "hex_loop s hash_size str_idx barr_idx a = None"
proof (rule ccontr)
  assume "hex_loop s hash_size str_idx barr_idx a \<noteq> None"
  then obtain r where ret: "hex_loop s hash_size str_idx barr_idx a = Some r" by blast
  have "\<not> (str_idx < hash_size \<and> sscanf_2hhx (drop str_idx s) = Scan_fail)"
  proof (rule hex_loop.raw_induct [where
      P = "\<lambda>s n i k a r. \<not> (i < n \<and> sscanf_2hhx (drop i s) = Scan_fail)", OF _ ret])
    fix f s n i k a r
    assume IH: "\<And>s n i k a r. f s n i k a = Some r \<Longrightarrow>
        \<not> (i < n \<and> sscanf_2hhx (drop i s) = Scan_fail)"
      and eq: "(if i < n then
          (case sscanf_2hhx (drop i s) of
             Scan_ok b \<Rightarrow> f s n (i + 2) (k + 1) (a[k := b])
           | Scan_eof \<Rightarrow> Some None
           | Scan_fail \<Rightarrow> f s n i k a)
        else Some (Some a)) = Some r"
    show "\<not> (i < n \<and> sscanf_2hhx (drop i s) = Scan_fail)"
    proof
      assume stuck: "i < n \<and> sscanf_2hhx (drop i s) = Scan_fail"
      with eq have "f s n i k a = Some r" by simp
      from IH [OF this] stuck show False by simp
    qed
  qed
  with assms show False by simp
qed



text \<open>The password check accepts every prefix of the digest.\<close>

theorem hash_pass_match_prefix:
  assumes "hash_ok h" and "bs \<noteq> []" and "length bs \<le> h_size h"
  shows "hash_pass_match (Some h) (Some (hex_string bs)) (length (hex_string bs)) =
    Inr (take (length bs) (h_array h) = bs)"
proof -
  note hex_read_back [OF assms(2)]
  moreover have "hash_pass_loop bs (h_array h) (length bs) 0 = Inr (bs = take (length bs) (h_array h))"
    using assms hash_compare_eq [of "length bs" bs "h_array h"]
    by (simp add: hash_pass_loop_eq hash_compare_def hash_ok_def)
  ultimately show ?thesis by (auto simp: hash_pass_match_def)
qed

theorem hash_pass_match_prefix_witness:
  "hash_pass_match (Some \<lparr>h_size = 3, h_array = [0x5e, 0x88, 0x48]\<rparr>) (Some ''5e'') 2 = Inr True"
proof -
  have s: "hex_string [0x5e] = ''5e''" by (simp add: hex_byte_def hex_digit_def)
  have n: "length ''5e'' = 2" by simp
  show ?thesis
    using hash_pass_match_prefix [of "\<lparr>h_size = 3, h_array = [0x5e, 0x88, 0x48]\<rparr>" "[0x5e]"]
    unfolding s n by (simp add: hash_ok_def)
qed

end
