(* ===== verification/FileSys.thy ===== *)
theory FileSys
  imports Prelude "HOL-Library.Sublist"
begin

text \<open>
  The part of POSIX the server stands on: a tree of files, directories, symbolic links and special
  files, path resolution as \<^verbatim>\<open>realpath\<close> and the kernel perform it, and the system calls the sources
  make. Two lists of paths describe the failures the code has to react to: \<open>fs_denied\<close>, where the
  caller lacks permission, and \<open>fs_ioerr\<close>, where transfers fall short.
\<close>

section \<open>Files and paths\<close>

datatype node = File bytes | Dir | Link string | Special

datatype errno = ENOENT | ENOTDIR | EISDIR | EEXIST | EACCES | ELOOP | ENAMETOOLONG | ENOTEMPTY | EINVAL

type_synonym path = "string list"

text \<open>
  The nodes are listed in the order in which \<^verbatim>\<open>readdir\<close> reports them; the root directory is the empty
  path and is not listed.
\<close>

record fs =
  fs_nodes :: "(path \<times> node) list"
  fs_cwd :: path
  fs_denied :: "path list"
  fs_ioerr :: "path list"
  fs_dirsize :: nat

definition PATH_MAX :: nat where
  "PATH_MAX = 4096"

definition NAME_MAX :: nat where
  "NAME_MAX = 255"

definition valid_name :: "string \<Rightarrow> bool" where
  "valid_name c \<longleftrightarrow> c \<noteq> [] \<and> c \<noteq> ''.'' \<and> c \<noteq> ''..'' \<and> CHR ''/'' \<notin> set c \<and> nul_free c \<and>
     length c \<le> NAME_MAX"

definition lookup :: "fs \<Rightarrow> path \<Rightarrow> node option" where
  "lookup F p = (if p = [] then Some Dir else map_of (fs_nodes F) p)"

definition is_dir :: "fs \<Rightarrow> path \<Rightarrow> bool" where
  "is_dir F p \<longleftrightarrow> lookup F p = Some Dir"

text \<open>The text of a link is a C string.\<close>

definition node_ok :: "node \<Rightarrow> bool" where
  "node_ok n \<longleftrightarrow> (case n of Link t \<Rightarrow> nul_free t | _ \<Rightarrow> True)"

text \<open>Every node has a proper name and lies in a directory.\<close>

definition wf_fs :: "fs \<Rightarrow> bool" where
  "wf_fs F \<longleftrightarrow> distinct (map fst (fs_nodes F)) \<and>
     (\<forall>p \<in> set (map fst (fs_nodes F)). p \<noteq> [] \<and> list_all valid_name p \<and> is_dir F (butlast p)) \<and>
     (\<forall>n \<in> set (map snd (fs_nodes F)). node_ok n)"

definition put_node :: "path \<Rightarrow> node \<Rightarrow> fs \<Rightarrow> fs" where
  "put_node p n F = F\<lparr>fs_nodes := AList.update p n (fs_nodes F)\<rparr>"

definition del_node :: "path \<Rightarrow> fs \<Rightarrow> fs" where
  "del_node p F = F\<lparr>fs_nodes := AList.delete p (fs_nodes F)\<rparr>"

definition children :: "fs \<Rightarrow> path \<Rightarrow> (string \<times> node) list" where
  "children F d =
    map (\<lambda>(p, n). (last p, n)) (filter (\<lambda>(p, n). p \<noteq> [] \<and> butlast p = d) (fs_nodes F))"

section \<open>Path names\<close>

fun split_slash :: "string \<Rightarrow> string list" where
  "split_slash [] = [[]]"
| "split_slash (c # s) =
    (if c = CHR ''/'' then [] # split_slash s
     else (case split_slash s of [] \<Rightarrow> [[c]] | w # ws \<Rightarrow> (c # w) # ws))"

definition render :: "path \<Rightarrow> string" where
  "render p = (if p = [] then ''/'' else concat (map (\<lambda>c. CHR ''/'' # c) p))"

definition is_abs :: "string \<Rightarrow> bool" where
  "is_abs s \<longleftrightarrow> s \<noteq> [] \<and> hd s = CHR ''/''"

definition link_text :: "node \<Rightarrow> string option" where
  "link_text n = (case n of Link t \<Rightarrow> Some t | _ \<Rightarrow> None)"

text \<open>
  Resolution walks the components from a directory. At most \<open>n\<close> further links are followed; with
  \<open>mk\<close> the last component need not exist, as for a file about to be created.
\<close>

function resolve :: "fs \<Rightarrow> bool \<Rightarrow> nat \<Rightarrow> path \<Rightarrow> string list \<Rightarrow> errno + path" where
  "resolve F mk n cur [] = Inr cur"
| "resolve F mk n cur (c # cs) =
    (if \<not> is_dir F cur then Inl ENOTDIR
     else if c = [] \<or> c = ''.'' then resolve F mk n cur cs
     else if c = ''..'' then resolve F mk n (butlast cur) cs
     else if NAME_MAX < length c then Inl ENAMETOOLONG
     else
       (case lookup F (cur @ [c]) of
          None \<Rightarrow> if mk \<and> cs = [] then Inr (cur @ [c]) else Inl ENOENT
        | Some nd \<Rightarrow>
            (case link_text nd of
               None \<Rightarrow> resolve F mk n (cur @ [c]) cs
             | Some t \<Rightarrow>
                 (case n of
                    0 \<Rightarrow> Inl ELOOP
                  | Suc m \<Rightarrow>
                      if t = [] then Inl ENOENT
                      else resolve F mk m (if is_abs t then [] else cur) (split_slash t @ cs)))))"
  by pat_completeness auto
termination
  by (relation "measures [\<lambda>(F, mk, n, cur, cs). n, \<lambda>(F, mk, n, cur, cs). length cs]") auto

definition SYMLOOP_MAX :: nat where
  "SYMLOOP_MAX = 40"

definition namei :: "fs \<Rightarrow> bool \<Rightarrow> string \<Rightarrow> errno + path" where
  "namei F mk s =
    (if s = [] then Inl ENOENT
     else if PATH_MAX \<le> length s then Inl ENAMETOOLONG
     else resolve F mk SYMLOOP_MAX (if is_abs s then [] else fs_cwd F) (split_slash s))"

text \<open>Calls that act on a directory entry itself resolve its parent and keep the last component.\<close>

definition namei_parent :: "fs \<Rightarrow> string \<Rightarrow> errno + path \<times> string" where
  "namei_parent F s =
    (if s = [] then Inl ENOENT
     else if PATH_MAX \<le> length s then Inl ENAMETOOLONG
     else
       (let cs = split_slash s;
            cs = rev (dropWhile (\<lambda>c. c = []) (rev cs))
        in if cs = [] then Inr ([], [])
           else
             (case resolve F False SYMLOOP_MAX (if is_abs s then [] else fs_cwd F) (butlast cs) of
                Inl e \<Rightarrow> Inl e
              | Inr d \<Rightarrow>
                  if \<not> is_dir F d then Inl ENOTDIR
                  else if NAME_MAX < length (last cs) then Inl ENAMETOOLONG
                  else Inr (d, last cs))))"

section \<open>System calls\<close>

definition realpath :: "fs \<Rightarrow> string \<Rightarrow> errno + string" where
  "realpath F s =
    (case namei F False s of
       Inl e \<Rightarrow> Inl e
     | Inr p \<Rightarrow> if PATH_MAX \<le> length (render p) then Inl ENAMETOOLONG else Inr (render p))"

text \<open>\<open>stat\<close> gives the node and its \<^verbatim>\<open>st_size\<close>.\<close>

definition node_size :: "fs \<Rightarrow> node \<Rightarrow> nat" where
  "node_size F n = (case n of File bs \<Rightarrow> length bs | Dir \<Rightarrow> fs_dirsize F | _ \<Rightarrow> 0)"

definition stat :: "fs \<Rightarrow> string \<Rightarrow> errno + node" where
  "stat F s =
    (case namei F False s of
       Inl e \<Rightarrow> Inl e
     | Inr p \<Rightarrow> (case lookup F p of None \<Rightarrow> Inl ENOENT | Some n \<Rightarrow> Inr n))"

definition mkdir :: "fs \<Rightarrow> string \<Rightarrow> errno option \<times> fs" where
  "mkdir F s =
    (case namei_parent F s of
       Inl e \<Rightarrow> (Some e, F)
     | Inr (d, c) \<Rightarrow>
         if c = [] \<or> c = ''.'' \<or> c = ''..'' then (Some EEXIST, F)
         else if lookup F (d @ [c]) \<noteq> None then (Some EEXIST, F)
         else if d \<in> set (fs_denied F) then (Some EACCES, F)
         else (None, put_node (d @ [c]) Dir F))"

definition opendir :: "fs \<Rightarrow> string \<Rightarrow> errno + (string \<times> node) list" where
  "opendir F s =
    (case namei F False s of
       Inl e \<Rightarrow> Inl e
     | Inr p \<Rightarrow>
         if \<not> is_dir F p then Inl ENOTDIR
         else if p \<in> set (fs_denied F) then Inl EACCES
         else Inr ((''.'', Dir) # (''..'', Dir) # children F p))"

definition unlink :: "fs \<Rightarrow> string \<Rightarrow> errno option \<times> fs" where
  "unlink F s =
    (case namei_parent F s of
       Inl e \<Rightarrow> (Some e, F)
     | Inr (d, c) \<Rightarrow>
         if c = [] \<or> c = ''.'' \<or> c = ''..'' then (Some EISDIR, F)
         else
           (case lookup F (d @ [c]) of
              None \<Rightarrow> (Some ENOENT, F)
            | Some Dir \<Rightarrow> (Some EISDIR, F)
            | Some _ \<Rightarrow>
                if last s = CHR ''/'' then (Some ENOTDIR, F)
                else if d \<in> set (fs_denied F) then (Some EACCES, F)
                else (None, del_node (d @ [c]) F)))"

definition rmdir :: "fs \<Rightarrow> string \<Rightarrow> errno option \<times> fs" where
  "rmdir F s =
    (case namei_parent F s of
       Inl e \<Rightarrow> (Some e, F)
     | Inr (d, c) \<Rightarrow>
         if c = [] \<or> c = ''.'' then (Some EINVAL, F)
         else if c = ''..'' then (Some ENOTEMPTY, F)
         else
           (case lookup F (d @ [c]) of
              None \<Rightarrow> (Some ENOENT, F)
            | Some Dir \<Rightarrow>
                if d \<in> set (fs_denied F) then (Some EACCES, F)
                else if children F (d @ [c]) \<noteq> [] then (Some ENOTEMPTY, F)
                else (None, del_node (d @ [c]) F)
            | Some _ \<Rightarrow> (Some ENOTDIR, F)))"

text \<open>
  A stream is the path it is open on. Opening for writing creates or truncates a regular file;
  opening a directory for reading succeeds.
\<close>

definition fopen_r :: "fs \<Rightarrow> string \<Rightarrow> errno + path" where
  "fopen_r F s =
    (case namei F False s of
       Inl e \<Rightarrow> Inl e
     | Inr p \<Rightarrow> if p \<in> set (fs_denied F) then Inl EACCES else Inr p)"

definition fopen_w :: "fs \<Rightarrow> string \<Rightarrow> (errno + path) \<times> fs" where
  "fopen_w F s =
    (case namei F True s of
       Inl e \<Rightarrow> (Inl e, F)
     | Inr p \<Rightarrow>
         (case lookup F p of
            None \<Rightarrow>
              if butlast p \<in> set (fs_denied F) then (Inl EACCES, F)
              else (Inr p, put_node p (File []) F)
          | Some Dir \<Rightarrow> (Inl EISDIR, F)
          | Some n \<Rightarrow>
              if p \<in> set (fs_denied F) then (Inl EACCES, F)
              else (Inr p, (case n of File _ \<Rightarrow> put_node p (File []) F | _ \<Rightarrow> F))))"

text \<open>Writing a whole stream from its start, and reading one to its end.\<close>

definition fwrite_all :: "fs \<Rightarrow> path \<Rightarrow> bytes \<Rightarrow> nat \<times> fs" where
  "fwrite_all F p bs =
    (if p \<in> set (fs_ioerr F) then (0, F)
     else (length bs, (case lookup F p of Some (File _) \<Rightarrow> put_node p (File bs) F | _ \<Rightarrow> F)))"

definition file_bytes :: "fs \<Rightarrow> path \<Rightarrow> bytes" where
  "file_bytes F p = (case lookup F p of Some (File bs) \<Rightarrow> bs | _ \<Rightarrow> [])"

definition fread_all :: "fs \<Rightarrow> path \<Rightarrow> bytes" where
  "fread_all F p = (if p \<in> set (fs_ioerr F) then [] else file_bytes F p)"

section \<open>Facts about names\<close>

lemma split_slash_nonempty [simp]: "split_slash s \<noteq> []"
  by (induction s) (auto split: list.splits)

lemma split_slash_append [simp]:
  "CHR ''/'' \<notin> set w \<Longrightarrow> split_slash (w @ CHR ''/'' # s) = w # split_slash s"
  by (induction w) auto

lemma split_slash_name [simp]: "CHR ''/'' \<notin> set w \<Longrightarrow> split_slash w = [w]"
  by (induction w) auto

lemma split_slash_chars:
  "c \<in> set (split_slash s) \<Longrightarrow> set c \<subseteq> set s \<and> CHR ''/'' \<notin> set c"
  by (induction s arbitrary: c) (auto split: list.splits if_splits; fastforce)+

definition seg_ok :: "string \<Rightarrow> bool" where
  "seg_ok c \<longleftrightarrow> CHR ''/'' \<notin> set c \<and> nul_free c"

lemma split_slash_seg_ok: "nul_free s \<Longrightarrow> list_all seg_ok (split_slash s)"
  by (auto simp: list_all_iff seg_ok_def nul_free_def dest: split_slash_chars)

lemma valid_name_seg [simp]: "valid_name c \<Longrightarrow> CHR ''/'' \<notin> set c"
  by (simp add: valid_name_def)

lemma split_slash_render:
  assumes "list_all valid_name p" and "p \<noteq> []"
  shows "split_slash (concat (map (\<lambda>c. CHR ''/'' # c) p)) = [] # p"
  using assms
proof (induction p)
  case (Cons c p)
  then show ?case by (cases p) simp_all
qed simp

lemma split_render:
  "list_all valid_name p \<Longrightarrow> split_slash (render p) = (if p = [] then [[], []] else [] # p)"
  by (simp add: render_def split_slash_render)

lemma is_abs_render [simp]: "is_abs (render p)"
  by (cases p) (simp_all add: is_abs_def render_def)

lemma render_nonempty [simp]: "render p \<noteq> []"
  by (cases p) (simp_all add: render_def)

lemma render_append:
  "p \<noteq> [] \<Longrightarrow> render (p @ q) = render p @ (if q = [] then [] else render q)"
  by (cases q) (simp_all add: render_def)

lemma render_snoc: "p \<noteq> [] \<Longrightarrow> render (p @ [c]) = render p @ CHR ''/'' # c"
  by (simp add: render_def)

lemma nul_free_render: "list_all nul_free p \<Longrightarrow> nul_free (render p)"
  by (induction p) (auto simp: render_def nul_free_def)

lemma valid_names_nul_free: "list_all valid_name p \<Longrightarrow> list_all nul_free p"
  by (auto simp: list_all_iff valid_name_def)

lemma render_inject:
  assumes "list_all valid_name p" and "list_all valid_name q" and "render p = render q"
  shows "p = q"
proof -
  have "split_slash (render p) = split_slash (render q)" using assms(3) by simp
  then have "(if p = [] then [[], []] else [] # p) = (if q = [] then [[], []] else [] # q)"
    using split_render [OF assms(1)] split_render [OF assms(2)] by simp
  then show ?thesis using assms(1, 2) by (auto split: if_splits simp: valid_name_def)
qed

text \<open>A rendered path that continues another one at a slash lies below it.\<close>

lemma split_slash_append_slash:
  "split_slash (s @ CHR ''/'' # t) = split_slash s @ split_slash t"
  by (induction s) (auto split: list.splits)

lemma render_below:
  assumes "list_all valid_name p" and "list_all valid_name h"
    and "h \<noteq> []" and "render p = render h @ CHR ''/'' # t"
  shows "\<exists>q. p = h @ q"
proof -
  have "split_slash (render p) = split_slash (render h) @ split_slash t"
    unfolding assms(4) by (rule split_slash_append_slash)
  then have "(if p = [] then [[], []] else [] # p) = [] # h @ split_slash t"
    using split_render [OF assms(1)] split_render [OF assms(2)] assms(3) by simp
  then show ?thesis using assms(2, 3) by (cases h) (auto split: if_splits simp: valid_name_def)
qed

section \<open>Facts about resolution\<close>

declare resolve.simps(2) [simp del]

lemma lookup_Nil [simp]: "lookup F [] = Some Dir"
  by (simp add: lookup_def)

lemma is_dir_Nil [simp]: "is_dir F []"
  by (simp add: is_dir_def)

lemma wf_fs_lookup:
  assumes "wf_fs F" and "lookup F p = Some n"
  shows "list_all valid_name p" and "is_dir F (butlast p)" and "node_ok n"
proof -
  have "p = [] \<or> (p, n) \<in> set (fs_nodes F)"
    using assms(2) by (auto simp: lookup_def split: if_splits dest: map_of_SomeD)
  then consider "p = []" "n = Dir" | "p \<in> set (map fst (fs_nodes F))" "n \<in> set (map snd (fs_nodes F))"
    using assms(2) by (cases "p = []") (force simp: lookup_def)+
  note cases = this
  from cases show "list_all valid_name p" using assms(1) by cases (auto simp: wf_fs_def)
  from cases show "is_dir F (butlast p)" using assms(1) by cases (auto simp: wf_fs_def)
  from cases show "node_ok n" using assms(1) by cases (auto simp: wf_fs_def node_ok_def)
qed

text \<open>The directories above an existing node exist.\<close>

lemma wf_fs_prefix_dir:
  assumes "wf_fs F" and "lookup F (p @ q) = Some n" and "q \<noteq> []"
  shows "is_dir F p"
  using assms
proof (induction q arbitrary: n rule: rev_induct)
  case (snoc c q)
  have "is_dir F (p @ q)" using wf_fs_lookup(2) [OF snoc.prems(1, 2)] by (simp add: butlast_append)
  then show ?case using snoc.IH [of Dir] snoc.prems(1) by (cases "q = []") (auto simp: is_dir_def)
qed simp

definition not_link :: "node \<Rightarrow> bool" where
  "not_link n \<longleftrightarrow> link_text n = None"

lemma not_link_simps [simp]:
  "not_link (File bs)" "not_link Dir" "\<not> not_link (Link s)" "not_link Special"
  by (simp_all add: not_link_def link_text_def)

text \<open>Existing components are walked one by one.\<close>

lemma resolve_append:
  assumes "wf_fs F" and "lookup F (cur @ p) = Some n" and "not_link n"
  shows "resolve F mk k cur (p @ cs) = resolve F mk k (cur @ p) cs"
  using assms
proof (induction p arbitrary: cur)
  case (Cons c p)
  have dc: "is_dir F cur" using wf_fs_prefix_dir [OF Cons.prems(1, 2)] by simp
  have v: "valid_name c" using wf_fs_lookup(1) [OF Cons.prems(1, 2)] by simp
  obtain m where m: "lookup F (cur @ [c]) = Some m" "not_link m"
  proof (cases "p = []")
    case True
    then show ?thesis using that Cons.prems(2, 3) by simp
  next
    case False
    then have "is_dir F (cur @ [c])"
      using wf_fs_prefix_dir [of F "cur @ [c]" p n] Cons.prems by simp
    then show ?thesis using that by (auto simp: is_dir_def)
  qed
  have "resolve F mk k (cur @ [c]) (p @ cs) = resolve F mk k ((cur @ [c]) @ p) cs"
    by (rule Cons.IH) (use Cons.prems in simp_all)
  then show ?case using dc v m by (simp add: resolve.simps(2) valid_name_def not_link_def)
qed simp

lemma resolve_down:
  assumes "wf_fs F" and "lookup F (cur @ p) = Some n" and "not_link n"
  shows "resolve F mk k cur p = Inr (cur @ p)"
  using resolve_append [OF assms, of mk k "[]"] by simp

text \<open>What resolution returns exists and is no link; with \<open>mk\<close> it may be a new entry of a directory.\<close>

lemma resolve_sound:
  assumes "resolve F mk k cur cs = Inr p" and "cs = [] \<longrightarrow> (\<exists>n. lookup F cur = Some n \<and> not_link n)"
    and "wf_fs F" and "list_all seg_ok cs"
  shows "(\<exists>n. lookup F p = Some n \<and> not_link n) \<or>
    mk \<and> lookup F p = None \<and> p \<noteq> [] \<and> is_dir F (butlast p) \<and> valid_name (last p)"
  using assms
proof (induction F mk k cur cs rule: resolve.induct)
  case (1 F mk n cur)
  then show ?case by simp
next
  case (2 F mk n cur c cs)
  have dir: "is_dir F cur" using "2.prems"(1) by (auto simp: resolve.simps(2) split: if_splits)
  have nl: "\<exists>n. lookup F d = Some n \<and> not_link n" if "is_dir F d" for d
    using that by (simp add: is_dir_def)
  have up: "is_dir F (butlast cur)"
    using wf_fs_lookup(2) [of F cur] dir "2.prems"(3) by (simp add: is_dir_def)
  have so: "seg_ok c" "list_all seg_ok cs" using "2.prems"(4) by simp_all
  consider "c = [] \<or> c = ''.''" | "c = ''..''" | "c \<noteq> []" "c \<noteq> ''.''" "c \<noteq> ''..''" by blast
  then show ?case
  proof cases
    case 1
    then show ?thesis using "2.IH"(1) "2.prems" dir so nl [OF dir] by (auto simp: resolve.simps(2))
  next
    case 2
    then show ?thesis using "2.IH"(2) "2.prems" dir so nl [OF up] by (auto simp: resolve.simps(2))
  next
    case 3
    then have len: "\<not> NAME_MAX < length c" using "2.prems"(1) dir
      by (auto simp: resolve.simps(2) split: if_splits)
    show ?thesis
    proof (cases "lookup F (cur @ [c])")
      case None
      then have new: "mk" "p = cur @ [c]"
        using 3 len dir "2.prems"(1) by (simp_all add: resolve.simps(2) split: if_splits)
      have "valid_name c" using 3 len so(1) by (simp add: valid_name_def seg_ok_def)
      with new None dir show ?thesis by simp
    next
      case (Some m)
      show ?thesis
      proof (cases "not_link m")
        case True
        then have "resolve F mk n (cur @ [c]) cs = Inr p"
          using Some 3 len dir "2.prems"(1)
          by (simp add: resolve.simps(2) not_link_def)
        then show ?thesis using "2.IH"(3) 3 len dir so True Some "2.prems"(3)
          by (simp add: not_link_def)
      next
        case False
        then obtain t where t: "m = Link t" "link_text m = Some t"
          by (cases m) (simp_all add: link_text_def)
        obtain k where k: "n = Suc k" "t \<noteq> []"
            "resolve F mk k (if is_abs t then [] else cur) (split_slash t @ cs) = Inr p"
          using "2.prems"(1) Some 3 len dir t(2)
          by (auto simp: resolve.simps(2) split: if_splits nat.splits)
        have "nul_free t" using wf_fs_lookup(3) [OF "2.prems"(3) Some] t(1) by (simp add: node_ok_def)
        then have "list_all seg_ok (split_slash t @ cs)"
          using so by (simp add: split_slash_seg_ok)
        then show ?thesis
          by (intro "2.IH"(4) [OF _ _ _ _ Some t(2) k(1, 2, 3)]) (use 3 len dir "2.prems"(3) in simp_all)
      qed
    qed
  qed
qed

section \<open>The invariant\<close>

lemma lookup_put_node [simp]:
  "p \<noteq> [] \<Longrightarrow> lookup (put_node p n F) q = (if q = p then Some n else lookup F q)"
  by (simp add: lookup_def put_node_def update_conv')

lemma lookup_del_node [simp]:
  "p \<noteq> [] \<Longrightarrow> lookup (del_node p F) q = (if q = p then None else lookup F q)"
  by (simp add: lookup_def del_node_def delete_conv')

lemma fs_nodes_put_node: "fs_nodes (put_node p n F) = AList.update p n (fs_nodes F)"
  by (simp add: put_node_def)

lemma fs_nodes_del_node: "fs_nodes (del_node p F) = AList.delete p (fs_nodes F)"
  by (simp add: del_node_def)

lemma fs_params_put_del [simp]:
  "fs_cwd (put_node p n F) = fs_cwd F" "fs_denied (put_node p n F) = fs_denied F"
  "fs_ioerr (put_node p n F) = fs_ioerr F" "fs_dirsize (put_node p n F) = fs_dirsize F"
  "fs_cwd (del_node p F) = fs_cwd F" "fs_denied (del_node p F) = fs_denied F"
  "fs_ioerr (del_node p F) = fs_ioerr F" "fs_dirsize (del_node p F) = fs_dirsize F"
  by (simp_all add: put_node_def del_node_def)

lemma set_snd_update: "snd ` set (AList.update p n xs) \<subseteq> insert n (snd ` set xs)"
  by (induction xs) auto

lemma wf_put_node:
  assumes "wf_fs F" and "p \<noteq> []" and "valid_name (last p)" and "is_dir F (butlast p)"
    and "node_ok n" and "lookup F p = Some Dir \<longrightarrow> n = Dir"
  shows "wf_fs (put_node p n F)"
proof -
  have "list_all valid_name (butlast p)"
    using assms(1, 4) by (auto simp: is_dir_def dest: wf_fs_lookup(1))
  then have vp: "list_all valid_name p"
    using assms(2, 3) append_butlast_last_id [OF assms(2)]
      list_all_append [of valid_name "butlast p" "[last p]"] by simp
  have dirs: "is_dir F q \<Longrightarrow> is_dir (put_node p n F) q" for q
    using assms(2, 6) by (auto simp: is_dir_def)
  show ?thesis unfolding wf_fs_def
  proof (intro conjI)
    show "distinct (map fst (fs_nodes (put_node p n F)))"
      using assms(1) by (simp add: fs_nodes_put_node wf_fs_def distinct_update)
    show "\<forall>q \<in> set (map fst (fs_nodes (put_node p n F))).
        q \<noteq> [] \<and> list_all valid_name q \<and> is_dir (put_node p n F) (butlast q)"
    proof
      fix q assume "q \<in> set (map fst (fs_nodes (put_node p n F)))"
      then consider "q = p" | "q \<in> set (map fst (fs_nodes F))"
        by (auto simp: fs_nodes_put_node update_keys split: if_splits)
      then show "q \<noteq> [] \<and> list_all valid_name q \<and> is_dir (put_node p n F) (butlast q)"
      proof cases
        case 1
        then show ?thesis using assms(2) vp dirs assms(4) by blast
      next
        case 2
        then show ?thesis using assms(1) dirs unfolding wf_fs_def by blast
      qed
    qed
    have "set (map snd (fs_nodes (put_node p n F))) \<subseteq> insert n (set (map snd (fs_nodes F)))"
      using set_snd_update [of p n "fs_nodes F"] by (simp add: fs_nodes_put_node)
    then show "\<forall>m \<in> set (map snd (fs_nodes (put_node p n F))). node_ok m"
      using assms(1, 5) unfolding wf_fs_def by blast
  qed
qed

lemma wf_del_node:
  assumes "wf_fs F" and "p \<noteq> []" and "\<And>q. q \<in> set (map fst (fs_nodes F)) \<Longrightarrow> butlast q \<noteq> p"
  shows "wf_fs (del_node p F)"
  unfolding wf_fs_def
proof (intro conjI)
  have sub: "set (fs_nodes (del_node p F)) \<subseteq> set (fs_nodes F)"
    by (auto simp: fs_nodes_del_node AList.delete_eq)
  show "distinct (map fst (fs_nodes (del_node p F)))"
    using assms(1) by (simp add: fs_nodes_del_node wf_fs_def distinct_delete)
  show "\<forall>q \<in> set (map fst (fs_nodes (del_node p F))).
      q \<noteq> [] \<and> list_all valid_name q \<and> is_dir (del_node p F) (butlast q)"
  proof
    fix q assume "q \<in> set (map fst (fs_nodes (del_node p F)))"
    then have q: "q \<in> set (map fst (fs_nodes F))" using sub by auto
    then have "q \<noteq> [] \<and> list_all valid_name q \<and> is_dir F (butlast q)"
      using assms(1) unfolding wf_fs_def by blast
    then show "q \<noteq> [] \<and> list_all valid_name q \<and> is_dir (del_node p F) (butlast q)"
      using assms(2) assms(3) [OF q] by (simp add: is_dir_def)
  qed
  show "\<forall>m \<in> set (map snd (fs_nodes (del_node p F))). node_ok m"
    using assms(1) sub by (auto simp: wf_fs_def)
qed

lemma wf_del_leaf:
  assumes "wf_fs F" and "p \<noteq> []" and "\<not> is_dir F p"
  shows "wf_fs (del_node p F)"
  by (rule wf_del_node) (use assms in \<open>auto simp: wf_fs_def\<close>)

lemma wf_del_empty_dir:
  assumes "wf_fs F" and "p \<noteq> []" and "children F p = []"
  shows "wf_fs (del_node p F)"
proof (rule wf_del_node [OF assms(1, 2)])
  fix q assume q: "q \<in> set (map fst (fs_nodes F))"
  then have "q \<noteq> []" using assms(1) by (auto simp: wf_fs_def)
  with q assms(3) show "butlast q \<noteq> p"
    by (force simp: children_def filter_empty_conv)
qed

section \<open>System calls keep the invariant\<close>

lemma namei_sound:
  assumes "wf_fs F" and "namei F mk s = Inr p" and "nul_free s"
  shows "(\<exists>n. lookup F p = Some n \<and> not_link n) \<or>
    mk \<and> lookup F p = None \<and> p \<noteq> [] \<and> is_dir F (butlast p) \<and> valid_name (last p)"
  by (rule resolve_sound [where cs = "split_slash s"])
    (use assms in \<open>auto simp: namei_def split_slash_seg_ok split: if_splits\<close>)

lemma seg_ok_last_butlast:
  assumes "list_all seg_ok cs"
  shows "list_all seg_ok (rev (dropWhile P (rev cs)))" and "list_all seg_ok (butlast cs)"
  using assms by (auto simp: list_all_iff dest: set_dropWhileD in_set_butlastD)

lemma namei_parent_sound:
  assumes "wf_fs F" and "namei_parent F s = Inr (d, c)" and "nul_free s" and "c \<noteq> []"
  shows "is_dir F d" and "seg_ok c" and "length c \<le> NAME_MAX"
proof -
  define cs where "cs = rev (dropWhile (\<lambda>c. c = []) (rev (split_slash s)))"
  have so: "list_all seg_ok cs"
    unfolding cs_def using assms(3) by (intro seg_ok_last_butlast(1) split_slash_seg_ok)
  have "cs \<noteq> []" "is_dir F d" "c = last cs" "length c \<le> NAME_MAX"
    using assms(2, 4) unfolding namei_parent_def Let_def cs_def [symmetric]
    by (auto split: if_splits sum.splits)
  with so show "is_dir F d" "seg_ok c" "length c \<le> NAME_MAX"
    by (auto simp: list_all_iff)
qed

lemma namei_parent_valid:
  assumes "wf_fs F" and "namei_parent F s = Inr (d, c)" and "nul_free s"
    and "\<not> (c = [] \<or> c = ''.'' \<or> c = ''..'')"
  shows "valid_name c" and "is_dir F d"
  using namei_parent_sound [OF assms(1-3)] assms(4) by (auto simp: valid_name_def seg_ok_def)

lemma wf_mkdir:
  assumes "wf_fs F" and "nul_free s"
  shows "wf_fs (snd (mkdir F s))"
  using assms namei_parent_valid [OF assms(1) _ assms(2)]
  by (auto simp: mkdir_def node_ok_def intro!: wf_put_node split: sum.splits)

lemma wf_unlink:
  assumes "wf_fs F"
  shows "wf_fs (snd (unlink F s))"
  using assms
  by (auto simp: unlink_def is_dir_def intro!: wf_del_leaf split: sum.splits option.splits node.splits)

lemma wf_rmdir:
  assumes "wf_fs F"
  shows "wf_fs (snd (rmdir F s))"
  using assms
  by (auto simp: rmdir_def intro!: wf_del_empty_dir split: sum.splits option.splits node.splits)

lemma wf_put_file:
  assumes "wf_fs F" and "p \<noteq> []" and "lookup F p = Some (File bs)"
  shows "wf_fs (put_node p (File bs') F)"
proof (rule wf_put_node [OF assms(1, 2)])
  have "list_all valid_name p" by (rule wf_fs_lookup(1) [OF assms(1, 3)])
  then show "valid_name (last p)" using assms(2) by (simp add: list_all_iff)
  show "is_dir F (butlast p)" by (rule wf_fs_lookup(2) [OF assms(1, 3)])
qed (use assms(3) in \<open>simp_all add: node_ok_def\<close>)

lemma lookup_file_nonempty: "lookup F p = Some (File bs) \<Longrightarrow> p \<noteq> []"
  by auto

lemma wf_fopen_w:
  assumes "wf_fs F" and "nul_free s"
  shows "wf_fs (snd (fopen_w F s))"
proof (cases "namei F True s")
  case (Inr p)
  show ?thesis
  proof (cases "lookup F p")
    case None
    with namei_sound [OF assms(1) Inr assms(2)] Inr assms(1) show ?thesis
      by (auto simp: fopen_w_def node_ok_def intro!: wf_put_node)
  next
    case (Some n)
    with Inr assms(1) show ?thesis
      by (auto simp: fopen_w_def intro!: wf_put_file split: node.splits)
  qed
qed (use assms in \<open>simp add: fopen_w_def\<close>)

lemma wf_fwrite_all:
  assumes "wf_fs F"
  shows "wf_fs (snd (fwrite_all F p bs))"
  using assms
  by (auto simp: fwrite_all_def intro!: wf_put_file split: option.splits node.splits dest: lookup_file_nonempty)

text \<open>A real path names an existing file that is no link, and is the canonical name of it.\<close>

lemma realpath_sound:
  assumes "wf_fs F" and "realpath F s = Inr r" and "nul_free s"
  obtains p n where "r = render p" and "lookup F p = Some n" and "not_link n"
    and "list_all valid_name p" and "length r < PATH_MAX"
proof -
  obtain p where p: "namei F False s = Inr p" "r = render p" "length r < PATH_MAX"
    using assms(2) by (auto simp: realpath_def split: sum.splits if_splits)
  then show thesis using that namei_sound [OF assms(1) p(1) assms(3)] wf_fs_lookup(1) [OF assms(1)]
    by auto
qed

lemma namei_canonical:
  assumes "wf_fs F" and "lookup F p = Some n" and "not_link n" and "length (render p) < PATH_MAX"
  shows "namei F mk (render p) = Inr p"
proof -
  have "split_slash (render p) = (if p = [] then [[], []] else [] # p)"
    by (rule split_render [OF wf_fs_lookup(1) [OF assms(1, 2)]])
  moreover have "resolve F mk SYMLOOP_MAX [] p = Inr p"
    using resolve_down [of F "[]" p n mk SYMLOOP_MAX] assms by simp
  ultimately show ?thesis using assms(4) by (simp add: namei_def resolve.simps(2))
qed

lemma realpath_canonical:
  assumes "wf_fs F" and "lookup F p = Some n" and "not_link n" and "length (render p) < PATH_MAX"
  shows "realpath F (render p) = Inr (render p)"
  using assms by (simp add: realpath_def namei_canonical)

lemma stat_canonical:
  assumes "wf_fs F" and "lookup F p = Some n" and "not_link n" and "length (render p) < PATH_MAX"
  shows "stat F (render p) = Inr n"
  using assms by (simp add: stat_def namei_canonical)

text \<open>The parent and the last component of the canonical name of a new or existing entry.\<close>

lemma namei_parent_canonical:
  assumes "wf_fs F" and "is_dir F d" and "valid_name c" and "length (render (d @ [c])) < PATH_MAX"
  shows "namei_parent F (render (d @ [c])) = Inr (d, c)"
proof -
  have vd: "list_all valid_name d" using assms(1, 2) by (auto simp: is_dir_def dest: wf_fs_lookup(1))
  then have sp: "split_slash (render (d @ [c])) = [] # d @ [c]"
    using assms(3) by (simp add: split_render)
  have rd: "resolve F False SYMLOOP_MAX [] d = Inr d"
    using resolve_down [of F "[]" d Dir] assms(1, 2) by (simp add: is_dir_def)
  have "resolve F False SYMLOOP_MAX [] ([] # d) = Inr d"
    by (simp add: resolve.simps(2) rd)
  moreover have "butlast ([] # d @ [c]) = [] # d" by (simp add: butlast_append)
  ultimately show ?thesis using assms(2-4) by (simp add: namei_parent_def sp Let_def valid_name_def)
qed

lemma namei_new:
  assumes "wf_fs F" and "is_dir F d" and "valid_name c" and "length (render (d @ [c])) < PATH_MAX"
    and "lookup F (d @ [c]) = None"
  shows "namei F True (render (d @ [c])) = Inr (d @ [c])"
proof -
  have vd: "list_all valid_name d" using assms(1, 2) by (auto simp: is_dir_def dest: wf_fs_lookup(1))
  then have sp: "split_slash (render (d @ [c])) = [] # d @ [c]"
    using assms(3) by (simp add: split_render)
  have "resolve F True k cur (q @ [c]) = Inr (cur @ q @ [c])" if "d = cur @ q" for k cur q
    using that
  proof (induction q arbitrary: cur)
    case Nil
    then show ?case using assms(2, 3, 5) by (simp add: resolve.simps(2) valid_name_def)
  next
    case (Cons x q)
    have l: "lookup F (cur @ [x] @ q) = Some Dir" using assms(2) Cons.prems by (simp add: is_dir_def)
    have dc: "is_dir F cur" by (rule wf_fs_prefix_dir [OF assms(1) l]) simp
    have "is_dir F (cur @ [x])"
      using wf_fs_prefix_dir [of F "cur @ [x]" q Dir] assms(1) l by (cases "q = []") (auto simp: is_dir_def)
    moreover have "valid_name x" using vd Cons.prems by simp
    ultimately show ?case using dc Cons.IH [of "cur @ [x]"] Cons.prems
      by (simp add: resolve.simps(2) is_dir_def valid_name_def link_text_def)
  qed
  from this [of "[]" d] show ?thesis using assms(4)
    by (simp add: namei_def sp resolve.simps(2))
qed

section \<open>Staying below a directory\<close>

text \<open>
  Without symbolic links and without the component \<^verbatim>\<open>..\<close>, resolution never leaves the directory it
  starts from.
\<close>

definition link_free :: "fs \<Rightarrow> bool" where
  "link_free F \<longleftrightarrow> list_all (\<lambda>(p, n). not_link n) (fs_nodes F)"

definition plain :: "string \<Rightarrow> bool" where
  "plain s \<longleftrightarrow> ''..'' \<notin> set (split_slash s)"

lemma link_free_lookup: "link_free F \<Longrightarrow> lookup F p = Some n \<Longrightarrow> not_link n"
  by (auto simp: link_free_def lookup_def list_all_iff split: if_splits dest!: map_of_SomeD)

lemma link_free_put_node: "link_free F \<Longrightarrow> not_link n \<Longrightarrow> link_free (put_node p n F)"
proof -
  assume "link_free F" "not_link n"
  then have "\<forall>m \<in> snd ` set (AList.update p n (fs_nodes F)). not_link m"
    using set_snd_update [of p n "fs_nodes F"] by (fastforce simp: link_free_def list_all_iff)
  then show ?thesis by (fastforce simp: link_free_def list_all_iff put_node_def)
qed

lemma link_free_del_node: "link_free F \<Longrightarrow> link_free (del_node p F)"
  by (auto simp: link_free_def list_all_iff del_node_def AList.delete_eq)

lemma resolve_plain:
  assumes "resolve F mk k cur cs = Inr p" and "link_free F" and "''..'' \<notin> set cs" and "prefix h cur"
  shows "prefix h p"
  using assms
proof (induction F mk k cur cs rule: resolve.induct)
  case (1 F mk n cur)
  then show ?case by simp
next
  case (2 F mk n cur c cs)
  show ?case
  proof (cases "c = [] \<or> c = ''.''")
    case True
    then show ?thesis using "2.IH"(1) "2.prems" by (auto simp: resolve.simps(2) split: if_splits)
  next
    case False
    show ?thesis
    proof (cases "lookup F (cur @ [c])")
      case None
      then show ?thesis using False "2.prems" by (auto simp: resolve.simps(2) split: if_splits)
    next
      case (Some m)
      then have "link_text m = None"
        using link_free_lookup [OF "2.prems"(2) Some] by (simp add: not_link_def)
      then show ?thesis using "2.IH"(3) "2.prems" False Some
        by (auto simp: resolve.simps(2) split: if_splits)
    qed
  qed
qed

text \<open>A path name that starts with the name of something that exists.\<close>

lemma resolve_from:
  assumes "wf_fs F" and "lookup F d = Some n" and "not_link n" and "d \<noteq> []"
  shows "resolve F mk k [] (split_slash (render d @ CHR ''/'' # t)) = resolve F mk k d (split_slash t)"
proof -
  have "list_all valid_name d" using assms(1, 2) by (rule wf_fs_lookup(1))
  then have "split_slash (render d @ CHR ''/'' # t) = [] # d @ split_slash t"
    using assms(4) by (simp add: split_slash_append_slash split_render)
  then show ?thesis using resolve_append [OF assms(1), of "[]" d] assms(2, 3)
    by (simp add: resolve.simps(2))
qed

lemma is_abs_append [simp]: "is_abs (render d @ t)"
  using is_abs_render [of d] by (cases "render d") (simp_all add: is_abs_def)

lemma namei_below:
  assumes "wf_fs F" and "link_free F" and "lookup F d = Some n" and "d \<noteq> []" and "plain t"
    and "namei F mk (render d @ CHR ''/'' # t) = Inr p"
  shows "prefix d p"
proof -
  have "resolve F mk SYMLOOP_MAX [] (split_slash (render d @ CHR ''/'' # t)) = Inr p"
    using assms(6) by (simp add: namei_def split: if_splits)
  then have "resolve F mk SYMLOOP_MAX d (split_slash t) = Inr p"
    by (simp only: resolve_from [OF assms(1, 3) link_free_lookup [OF assms(2, 3)] assms(4)])
  then show ?thesis by (rule resolve_plain) (use assms(2, 5) in \<open>simp_all add: plain_def\<close>)
qed

text \<open>A name that resolved still resolves, to the same path, once a file is stored there.\<close>

lemma resolve_put_file:
  assumes "resolve F mk k cur cs = Inr p" and "\<not> is_dir F p" and "p \<noteq> []"
    and "\<And>n. lookup F p = Some n \<Longrightarrow> not_link n" and "cs = [] \<Longrightarrow> cur \<noteq> p"
  shows "resolve (put_node p (File bs) F) False k cur cs = Inr p"
  using assms
proof (induction F mk k cur cs rule: resolve.induct)
  case (1 F mk n cur)
  then show ?case by simp
next
  case (2 F mk n cur c cs)
  let ?F = "put_node p (File bs) F"
  have dir: "is_dir F cur" using "2.prems"(1) by (auto simp: resolve.simps(2) split: if_splits)
  then have ne: "cur \<noteq> p" using "2.prems"(2) by auto
  then have dir': "is_dir ?F cur" using dir "2.prems"(3) by (simp add: is_dir_def)
  have down: "resolve ?F False n d cs = Inr p"
    if "resolve F mk n d cs = Inr p" "\<And>d'. resolve F mk n d cs = Inr p \<Longrightarrow> (cs = [] \<Longrightarrow> d \<noteq> p) \<Longrightarrow>
      resolve ?F False n d cs = Inr p" for d
    using that by (cases "cs = []") auto
  consider "c = [] \<or> c = ''.''" | "c = ''..''" | "c \<noteq> []" "c \<noteq> ''.''" "c \<noteq> ''..''" by blast
  then show ?case
  proof cases
    case 1
    then have "resolve F mk n cur cs = Inr p" using "2.prems"(1) dir by (auto simp: resolve.simps(2))
    then have "resolve ?F False n cur cs = Inr p"
      using "2.IH"(1) dir 1 "2.prems"(2-4) ne by simp
    then show ?thesis using 1 dir' by (auto simp: resolve.simps(2))
  next
    case 2
    then have r: "resolve F mk n (butlast cur) cs = Inr p" using "2.prems"(1) dir
      by (auto simp: resolve.simps(2))
    then have "resolve ?F False n (butlast cur) cs = Inr p"
      using "2.IH"(2) dir 2 "2.prems"(2-4) by (cases "cs = []") auto
    then show ?thesis using 2 dir' by (auto simp: resolve.simps(2))
  next
    case 3
    then have len: "\<not> NAME_MAX < length c" using "2.prems"(1) dir
      by (auto simp: resolve.simps(2) split: if_splits)
    show ?thesis
    proof (cases "lookup F (cur @ [c])")
      case None
      then have "cs = []" "p = cur @ [c]" using 3 len dir "2.prems"(1)
        by (auto simp: resolve.simps(2) split: if_splits)
      then show ?thesis using 3 len dir' by (simp add: resolve.simps(2) link_text_def)
    next
      case (Some m)
      show ?thesis
      proof (cases "link_text m")
        case None
        then have r: "resolve F mk n (cur @ [c]) cs = Inr p"
          using Some 3 len dir "2.prems"(1) by (simp add: resolve.simps(2))
        show ?thesis
        proof (cases "cur @ [c] = p")
          case True
          then have "cs = []" using r "2.prems"(2)
            by (cases cs) (auto simp: resolve.simps(2))
          then show ?thesis using True 3 len dir' "2.prems"(3) by (simp add: resolve.simps(2) link_text_def)
        next
          case False
          then have "resolve ?F False n (cur @ [c]) cs = Inr p"
            using "2.IH"(3) 3 len dir Some None r "2.prems"(2-4) by simp
          then show ?thesis using False Some None 3 len dir' "2.prems"(3) by (simp add: resolve.simps(2))
        qed
      next
        case (Some t)
        then have "cur @ [c] \<noteq> p" using "2.prems"(4) \<open>lookup F (cur @ [c]) = Some m\<close>
          by (auto simp: not_link_def)
        moreover obtain k where k: "n = Suc k" "t \<noteq> []"
            "resolve F mk k (if is_abs t then [] else cur) (split_slash t @ cs) = Inr p"
          using "2.prems"(1) Some \<open>lookup F (cur @ [c]) = Some m\<close> 3 len dir
          by (auto simp: resolve.simps(2) split: if_splits nat.splits)
        moreover have "resolve ?F False k (if is_abs t then [] else cur) (split_slash t @ cs) = Inr p"
          by (rule "2.IH"(4) [OF _ _ _ _ \<open>lookup F (cur @ [c]) = Some m\<close> Some k(1, 2, 3)])
            (use 3 len dir "2.prems"(2-4) in simp_all)
        ultimately show ?thesis using Some \<open>lookup F (cur @ [c]) = Some m\<close> 3 len dir' "2.prems"(3)
          by (simp add: resolve.simps(2))
      qed
    qed
  qed
qed

text \<open>The flag \<open>mk\<close> makes no difference for names that exist.\<close>

lemma resolve_exists:
  "resolve F mk k cur cs = Inr p \<Longrightarrow> lookup F p \<noteq> None \<Longrightarrow> resolve F False k cur cs = Inr p"
proof (induction F mk k cur cs rule: resolve.induct)
  case (2 F mk n cur c cs)
  consider "c = [] \<or> c = ''.''" | "c = ''..''" | "c \<noteq> []" "c \<noteq> ''.''" "c \<noteq> ''..''" by blast
  then show ?case
  proof cases
    case 3
    show ?thesis
    proof (cases "lookup F (cur @ [c])")
      case None
      then show ?thesis using 3 "2.prems" by (simp add: resolve.simps(2) split: if_splits)
    next
      case (Some m)
      show ?thesis
      proof (cases "link_text m")
        case None
        then show ?thesis using 3 Some "2.prems" "2.IH"(3) by (simp add: resolve.simps(2) split: if_splits)
      next
        case (Some t)
        then obtain k where k: "n = Suc k" "t \<noteq> []" "is_dir F cur" "\<not> NAME_MAX < length c"
            "resolve F mk k (if is_abs t then [] else cur) (split_slash t @ cs) = Inr p"
          using "2.prems"(1) 3 \<open>lookup F (cur @ [c]) = Some m\<close>
          by (auto simp: resolve.simps(2) split: if_splits nat.splits)
        have "resolve F False k (if is_abs t then [] else cur) (split_slash t @ cs) = Inr p"
          by (rule "2.IH"(4) [OF _ _ _ _ \<open>lookup F (cur @ [c]) = Some m\<close> Some k(1, 2, 5)])
            (use 3 k "2.prems"(2) in simp_all)
        then show ?thesis using 3 k Some \<open>lookup F (cur @ [c]) = Some m\<close> by (simp add: resolve.simps(2))
      qed
    qed
  qed (use "2.prems" "2.IH"(1, 2) in \<open>auto simp: resolve.simps(2) split: if_splits\<close>)
qed simp

end
