(* ===== verification/FileApi.thy ===== *)
theory FileApi
  imports FileSys Crypto
begin

text \<open>
  \<^verbatim>\<open>src/server/server_file_api.c\<close>: verified paths, and the file operations on them. A verified path is
  only built by \<open>f_set_home_dir\<close>, \<open>f_path_resolve\<close> and \<open>f_valid_resolve\<close>, which always store a path in
  it. Pointers the code tests are options, fixed-size allocations succeed, and a result \<open>Inl\<close> is
  undefined behaviour of the C code.
\<close>

section \<open>Verified paths\<close>

record verified_path_t =
  p_path :: string

record file_content_t =
  fc_hash :: hash_t
  fc_stream :: bytes
  fc_stream_size :: nat
  fc_path :: string

text \<open>Files that listings leave out.\<close>

definition DB_DIR :: string where "DB_DIR = ''.cape''"
definition DB_NAME :: string where "DB_NAME = ''.cape/.cape.db''"
definition DB_HASH :: string where "DB_HASH = ''.cape/.cape.hash''"

definition SLASH_PLUS_NULL :: nat where
  "SLASH_PLUS_NULL = 2"

text \<open>Reading a character of a C string: the terminator may be read, nothing beyond it.\<close>

definition str_at :: "string \<Rightarrow> nat \<Rightarrow> char run" where
  "str_at s i =
    (if i < length s then Inr (s ! i) else if i = length s then Inr (CHR 0x00) else Inl Oob_read)"

text \<open>
  \<^verbatim>\<open>join_paths\<close> builds the path in a stack buffer of \<open>PATH_MAX\<close> bytes, the terminator included. The
  length \<^verbatim>\<open>root_length - 1\<close> is unsigned: for 0 it is no limit at all.
\<close>

definition join_paths ::
  "string option \<Rightarrow> nat \<Rightarrow> string option \<Rightarrow> nat \<Rightarrow> string option run" where
  "join_paths p_root root_length p_child child_length =
    (case (p_root, p_child) of
       (Some root, Some child) \<Rightarrow>
         rbind (str_at root root_length) (\<lambda>r. rbind (str_at child 0) (\<lambda>c.
           let b_omit_root = (r = CHR ''/'');
               b_omit_child = (c = CHR ''/'');
               root_part =
                 (if b_omit_root then
                    (if root_length = 0 then root else take (root_length - 1) root)
                  else take root_length root);
               new_path = root_part @ (if b_omit_child then [] else ''/'') @ take child_length child
           in if PATH_MAX \<le> length new_path then Inl Stack_overflow else Inr (Some new_path)))
     | _ \<Rightarrow> Inr None)"

definition join_and_resolve_paths ::
  "fs \<Rightarrow> string option \<Rightarrow> nat \<Rightarrow> string option \<Rightarrow> nat \<Rightarrow> string option run" where
  "join_and_resolve_paths F p_root root_length p_child child_length =
    (if p_root = None \<or> p_child = None then Inr None
     else
       rbind (join_paths p_root root_length p_child child_length) (\<lambda>r.
         Inr (case r of
                None \<Rightarrow> None
              | Some new_path \<Rightarrow> (case realpath F new_path of Inl e \<Rightarrow> None | Inr p \<Rightarrow> Some p))))"

definition f_set_home_dir :: "fs \<Rightarrow> string option \<Rightarrow> nat \<Rightarrow> verified_path_t option run" where
  "f_set_home_dir F p_home_dir dir_size =
    (case p_home_dir of
       None \<Rightarrow> Inr None
     | Some h \<Rightarrow>
         rbind (join_and_resolve_paths F (Some h) dir_size (Some []) 0) (\<lambda>r.
           Inr (map_option (\<lambda>p. \<lparr>p_path = p\<rparr>) r)))"

text \<open>\<^verbatim>\<open>dirname\<close> and \<^verbatim>\<open>basename\<close> of \<^verbatim>\<open>libgen.h\<close>.\<close>

definition dirname :: "string \<Rightarrow> string" where
  "dirname s =
    (let r = dropWhile (\<lambda>c. c = CHR ''/'') (rev s);
         d = dropWhile (\<lambda>c. c \<noteq> CHR ''/'') r;
         e = dropWhile (\<lambda>c. c = CHR ''/'') d
     in if s = [] then ''.''
        else if r = [] then ''/''
        else if d = [] then ''.''
        else if e = [] then ''/''
        else rev e)"

definition basename :: "string \<Rightarrow> string" where
  "basename s =
    (let r = dropWhile (\<lambda>c. c = CHR ''/'') (rev s)
     in if s = [] then ''.''
        else if r = [] then ''/''
        else rev (takeWhile (\<lambda>c. c \<noteq> CHR ''/'') r))"

text \<open>\<open>strncmp_eq a b n\<close> is \<^verbatim>\<open>0 == strncmp(a, b, n)\<close>.\<close>

definition strncmp_eq :: "string \<Rightarrow> string \<Rightarrow> nat \<Rightarrow> bool" where
  "strncmp_eq a b n \<longleftrightarrow> take n (a @ [CHR 0x00]) = take n (b @ [CHR 0x00])"

definition f_path_resolve ::
  "fs \<Rightarrow> string option \<Rightarrow> string option \<Rightarrow> verified_path_t option run" where
  "f_path_resolve F p_home_dir p_child =
    (case (p_home_dir, p_child) of
       (Some home, Some child) \<Rightarrow>
         let home_dir_len = length home; child_len = length child in
         if home_dir_len + child_len + SLASH_PLUS_NULL > PATH_MAX then Inr None
         else
           rbind (join_and_resolve_paths F (Some home) home_dir_len (Some child) child_len) (\<lambda>r.
             Inr (case r of
                    None \<Rightarrow> None
                  | Some p_join_path \<Rightarrow>
                      if \<not> strncmp_eq home p_join_path home_dir_len then None
                      else Some \<lparr>p_path = p_join_path\<rparr>))
     | _ \<Rightarrow> Inr None)"

definition f_valid_resolve ::
  "fs \<Rightarrow> string option \<Rightarrow> string option \<Rightarrow> verified_path_t option run" where
  "f_valid_resolve F p_home_dir p_child =
    (case (p_home_dir, p_child) of
       (Some home, Some child) \<Rightarrow>
         let child_dir = dirname child; home_dir_len = length home in
         rbind (join_and_resolve_paths F (Some home) home_dir_len (Some child_dir) (length child_dir))
           (\<lambda>r.
             case r of
               None \<Rightarrow> Inr None
             | Some p_join_path \<Rightarrow>
                 let child_basename = basename child in
                 if length child_basename = 1 \<and> hd child_basename = CHR ''.'' then Inr None
                 else
                   rbind (join_paths (Some p_join_path) (length p_join_path)
                            (Some child_basename) (length child_basename)) (\<lambda>f.
                     Inr (case f of
                            None \<Rightarrow> None
                          | Some p_final_path \<Rightarrow>
                              if \<not> strncmp_eq home p_final_path home_dir_len then None
                              else Some \<lparr>p_path = p_final_path\<rparr>)))
     | _ \<Rightarrow> Inr None)"

definition f_ver_valid_resolve ::
  "fs \<Rightarrow> verified_path_t option \<Rightarrow> string option \<Rightarrow> verified_path_t option run" where
  "f_ver_valid_resolve F p_home_dir p_child =
    (if p_home_dir = None \<or> p_child = None then Inr None
     else f_valid_resolve F (map_option p_path p_home_dir) p_child)"

definition f_ver_path_resolve ::
  "fs \<Rightarrow> verified_path_t option \<Rightarrow> string option \<Rightarrow> verified_path_t option run" where
  "f_ver_path_resolve F p_home_dir p_child =
    (if p_home_dir = None \<or> p_child = None then Inr None
     else f_path_resolve F (map_option p_path p_home_dir) p_child)"

text \<open>
  \<open>f_path_repr\<close> copies the path into a caller's buffer of \<open>path_size\<close> bytes and leaves the rest zero;
  when it refuses, the buffer keeps its contents.
\<close>

definition f_path_repr :: "verified_path_t option \<Rightarrow> bytes option \<Rightarrow> nat \<Rightarrow> bytes option run" where
  "f_path_repr pp path_repr path_size =
    (case (pp, path_repr) of
       (Some p, Some buf) \<Rightarrow>
         if PATH_MAX < path_size \<or> path_size < length (p_path p) then Inr (Some buf)
         else if length buf < path_size then Inl Heap_overflow
         else Inr (Some (str_bytes (p_path p) @ replicate (path_size - length (p_path p)) 0 @
                drop path_size buf))
     | _ \<Rightarrow> Inr path_repr)"

section \<open>Operations on verified paths\<close>

definition f_create_dir :: "fs \<Rightarrow> verified_path_t option \<Rightarrow> ret_codes_t \<times> fs" where
  "f_create_dir F pp =
    (case pp of
       None \<Rightarrow> (OP_FAILURE, F)
     | Some p \<Rightarrow>
         (case mkdir F (p_path p) of
            (None, F') \<Rightarrow> (OP_SUCCESS, F')
          | (Some EEXIST, F') \<Rightarrow> (OP_DIR_EXISTS, F')
          | (Some _, F') \<Rightarrow> (OP_FAILURE, F')))"

text \<open>The loop counts entries, the two dot entries among them, and stops at four.\<close>

fun count_entries :: "nat \<Rightarrow> (string \<times> node) list \<Rightarrow> nat" where
  "count_entries file_count [] = file_count"
| "count_entries file_count (obj # objs) =
    (if file_count < 4 then count_entries (file_count + 1) objs else file_count)"

definition f_del_file :: "fs \<Rightarrow> verified_path_t option \<Rightarrow> (ret_codes_t \<times> fs) run" where
  "f_del_file F pp =
    (case pp of
       None \<Rightarrow> Inr (OP_FAILURE, F)
     | Some p \<Rightarrow>
         (case stat F (p_path p) of
            Inl e \<Rightarrow> Inr (OP_FAILURE, F)
          | Inr (File bs) \<Rightarrow>
              (case unlink F (p_path p) of
                 (None, F') \<Rightarrow> Inr (OP_SUCCESS, F')
               | (Some e, F') \<Rightarrow> Inr (OP_FAILURE, F'))
          | Inr Dir \<Rightarrow>
              (case opendir F (p_path p) of
                 Inl e \<Rightarrow> Inl Null_deref
               | Inr objs \<Rightarrow>
                   if count_entries 0 objs > 2 then Inr (OP_DIR_NOT_EMPTY, F)
                   else
                     (case rmdir F (p_path p) of
                        (None, F') \<Rightarrow> Inr (OP_SUCCESS, F')
                      | (Some e, F') \<Rightarrow> Inr (OP_FAILURE, F')))
          | Inr _ \<Rightarrow> Inr (OP_FAILURE, F)))"

datatype open_mode = Mode_r | Mode_w

definition f_open_file ::
  "fs \<Rightarrow> verified_path_t option \<Rightarrow> open_mode \<Rightarrow> ret_codes_t \<times> path option \<times> fs" where
  "f_open_file F pp mode =
    (case pp of
       None \<Rightarrow> (OP_FAILURE, None, F)
     | Some p \<Rightarrow>
         (case (case mode of Mode_r \<Rightarrow> (fopen_r F (p_path p), F) | Mode_w \<Rightarrow> fopen_w F (p_path p)) of
            (Inr h, F') \<Rightarrow> (OP_SUCCESS, Some h, F')
          | (Inl ENOTDIR, F') \<Rightarrow> (OP_PATH_NOT_FILE, None, F')
          | (Inl _, F') \<Rightarrow> (OP_FAILURE, None, F')))"

definition f_write_file ::
  "fs \<Rightarrow> verified_path_t option \<Rightarrow> bytes option \<Rightarrow> ret_codes_t \<times> fs" where
  "f_write_file F pp p_stream =
    (case (pp, p_stream) of
       (Some p, Some bs) \<Rightarrow>
         (case f_open_file F (Some p) Mode_w of
            (_, Some h, F') \<Rightarrow>
              (let (written, F'') = fwrite_all F' h bs in
               if written \<noteq> length bs then (OP_FAILURE, F'') else (OP_SUCCESS, F''))
          | (result, None, F') \<Rightarrow> (result, F'))
     | _ \<Rightarrow> (OP_FAILURE, F))"

text \<open>
  After a short read the stream, already closed, is closed again. Seeking and telling cannot fail on
  a regular file.
\<close>

definition f_read_file ::
  "(bytes \<Rightarrow> bytes) \<Rightarrow> fs \<Rightarrow> verified_path_t option \<Rightarrow> (file_content_t option \<times> ret_codes_t) run" where
  "f_read_file sha F pp =
    (case pp of
       None \<Rightarrow> Inr (None, OP_IO_ERROR)
     | Some p \<Rightarrow>
         (case stat F (p_path p) of
            Inl e \<Rightarrow> Inr (None, OP_IO_ERROR)
          | Inr (File _) \<Rightarrow>
              (case f_open_file F (Some p) Mode_r of
                 (_, Some h, _) \<Rightarrow>
                   (let file_size = length (file_bytes F h); p_byte_array = fread_all F h in
                    if length p_byte_array \<noteq> file_size then Inl Double_fclose
                    else
                      (case hash_byte_array sha (Some p_byte_array) of
                         None \<Rightarrow> Inl Double_fclose
                       | Some p_hash \<Rightarrow>
                           Inr (Some \<lparr>fc_hash = p_hash, fc_stream = p_byte_array,
                                  fc_stream_size = length p_byte_array, fc_path = p_path p\<rparr>,
                                OP_SUCCESS)))
               | (_, None, _) \<Rightarrow> Inr (None, OP_IO_ERROR))
          | Inr _ \<Rightarrow> Inr (None, OP_PATH_NOT_FILE)))"

section \<open>Listing a directory\<close>

text \<open>
  The digit count starts at 1 and the loop that should advance it runs while it is above 9, so it
  is never entered from there.
\<close>

function num_len_loop :: "u16 \<Rightarrow> nat \<Rightarrow> u16" where
  "num_len_loop num_len size_copy =
    (if 9 < num_len then num_len_loop (num_len + 1) (size_copy div 10) else num_len)"
  by pat_completeness auto
termination
proof (relation "measure (\<lambda>(n, s). if 9 < n then 65536 - unat n else 0)")
  fix n :: u16 and s
  assume "9 < n"
  have "unat n < 65536" using unsigned_less [of n] by simp
  moreover have "unat (n + 1) = unat n + 1" if "9 < n + 1"
  proof -
    have "1 + n \<noteq> 0"
    proof
      assume "1 + n = 0"
      then have "n + 1 = 0" by (simp only: add.commute)
      with that show False by simp
    qed
    then show ?thesis using unatSuc [of n] by (simp add: add.commute)
  qed
  ultimately show "((n + 1, s div 10), (n, s)) \<in> measure (\<lambda>(n, s). if 9 < n then 65536 - unat n else 0)"
    using \<open>9 < n\<close> by auto
qed simp

declare num_len_loop.simps [simp del]

definition get_file_size :: "fs \<Rightarrow> verified_path_t \<Rightarrow> string \<Rightarrow> (nat \<times> u16) run" where
  "get_file_size F p name =
    (let path = p_path p @ ''/'' @ name in
     if PATH_MAX \<le> length path then Inl Stack_overflow
     else
       (case stat F path of
          Inl e \<Rightarrow> Inr (0, 0)
        | Inr n \<Rightarrow> Inr (node_size F n, num_len_loop 1 (node_size F n))))"

definition listed :: "string \<times> node \<Rightarrow> bool" where
  "listed obj =
    (case obj of
       (d_name, n) \<Rightarrow>
         (case n of File _ \<Rightarrow> True | Dir \<Rightarrow> True | _ \<Rightarrow> False) \<and>
         d_name \<noteq> ''.'' \<and> d_name \<noteq> ''..'' \<and> d_name \<noteq> DB_DIR \<and> d_name \<noteq> DB_HASH \<and> d_name \<noteq> DB_NAME)"

text \<open>The line \<^verbatim>\<open>[F]:size:name\<close> that \<^verbatim>\<open>sprintf\<close> writes.\<close>

definition list_line :: "node \<Rightarrow> nat \<Rightarrow> string \<Rightarrow> string" where
  "list_line n file_size d_name =
    (case n of File _ \<Rightarrow> ''[F]:'' | _ \<Rightarrow> ''[D]:'') @ dec_nat file_size @ '':'' @ d_name @ [CHR 0x0A]"

text \<open>
  The loop over the entries: \<open>buf\<close> is the text written so far, its length is \<^verbatim>\<open>offset\<close>, and
  \<open>buff_size\<close> is the size of the allocation, which \<^verbatim>\<open>realloc_buff\<close> doubles. The text and its
  terminator must fit.
\<close>

definition realloc_buff :: "nat \<Rightarrow> nat" where
  "realloc_buff old_size = old_size * 2"

fun list_loop :: "fs \<Rightarrow> verified_path_t \<Rightarrow> (string \<times> node) list \<Rightarrow> nat \<Rightarrow> string \<Rightarrow> string run" where
  "list_loop F p [] buff_size buf = Inr buf"
| "list_loop F p ((d_name, n) # objs) buff_size buf =
    (if listed (d_name, n) then
       rbind (get_file_size F p d_name) (\<lambda>(file_size, num_length).
         let offset = length buf;
             buff_size =
               (if length d_name + offset + unat num_length + 4 \<ge> buff_size
                then realloc_buff buff_size else buff_size);
             buf = buf @ list_line n file_size d_name
         in if buff_size < length buf + 1 then Inl Heap_overflow
            else list_loop F p objs buff_size buf)
     else list_loop F p objs buff_size buf)"

definition f_list_dir ::
  "(bytes \<Rightarrow> bytes) \<Rightarrow> fs \<Rightarrow> verified_path_t option \<Rightarrow> (file_content_t option \<times> ret_codes_t) run" where
  "f_list_dir sha F pp =
    (case pp of
       None \<Rightarrow> Inr (None, OP_IO_ERROR)
     | Some p \<Rightarrow>
         (case stat F (p_path p) of
            Inl e \<Rightarrow> Inr (None, OP_IO_ERROR)
          | Inr Dir \<Rightarrow>
              (case opendir F (p_path p) of
                 Inl e \<Rightarrow> Inr (None, OP_IO_ERROR)
               | Inr objs \<Rightarrow>
                   rbind (list_loop F p objs 1024 []) (\<lambda>p_buffer.
                     let p_buff = str_bytes (takeWhile (\<lambda>c. c \<noteq> CHR 0x00) p_buffer) in
                     case hash_byte_array sha (Some p_buff) of
                       None \<Rightarrow> Inr (None, OP_FAILURE)
                     | Some p_hash \<Rightarrow>
                         Inr (Some \<lparr>fc_hash = p_hash, fc_stream = p_buff,
                                fc_stream_size = length p_buff, fc_path = p_path p\<rparr>,
                              OP_SUCCESS)))
          | Inr _ \<Rightarrow> Inr (None, OP_PATH_NOT_DIR)))"

section \<open>Joining and resolving\<close>

text \<open>What joining a whole root and a whole child gives; the test of the root's last byte reads its NUL.\<close>

definition joined :: "string \<Rightarrow> string \<Rightarrow> string" where
  "joined root child = root @ (if is_abs child then [] else ''/'') @ child"

lemma str_at_length [simp]: "str_at s (length s) = Inr (CHR 0x00)"
  by (simp add: str_at_def)

lemma str_at_0: "str_at s 0 = Inr (if s = [] then CHR 0x00 else hd s)"
  by (simp add: str_at_def hd_conv_nth)

lemma join_paths_full:
  "join_paths (Some root) (length root) (Some child) (length child) =
    (if PATH_MAX \<le> length (joined root child) then Inl Stack_overflow
     else Inr (Some (joined root child)))"
  by (simp add: join_paths_def str_at_0 joined_def is_abs_def Let_def)

lemma joined_slash: "\<exists>t. joined root child = root @ CHR ''/'' # t \<and>
    (child = CHR ''/'' # t \<or> child = t)"
  by (cases child) (auto simp: joined_def is_abs_def)

lemma plain_joined:
  assumes "plain child" and "joined root child = root @ CHR ''/'' # t"
  shows "plain t"
  using assms by (cases child) (auto simp: joined_def is_abs_def plain_def split: if_splits)

lemma length_joined: "length (joined root child) \<le> length root + length child + 1"
  by (simp add: joined_def)

lemma join_and_resolve_full:
  "join_and_resolve_paths F (Some root) (length root) (Some child) (length child) =
    (if PATH_MAX \<le> length (joined root child) then Inl Stack_overflow
     else Inr (case realpath F (joined root child) of Inl e \<Rightarrow> None | Inr p \<Rightarrow> Some p))"
  by (simp add: join_and_resolve_paths_def join_paths_full)

lemma strncmp_eq_prefix:
  assumes "nul_free h"
  shows "strncmp_eq h r (length h) \<longleftrightarrow> prefix h r"
proof
  assume eq: "strncmp_eq h r (length h)"
  then have h: "h = take (length h) (r @ [CHR 0x00])" by (simp add: strncmp_eq_def)
  show "prefix h r"
  proof (cases "length h \<le> length r")
    case True
    with h have "h = take (length h) r" by simp
    then show ?thesis by (metis take_is_prefix)
  next
    case False
    with h have "CHR 0x00 \<in> set h" by (metis in_set_conv_decomp not_less_eq_eq take_all length_append_singleton)
    with assms show ?thesis by (simp add: nul_free_def)
  qed
qed (auto simp: strncmp_eq_def prefix_def)

text \<open>The two resolvers, written out.\<close>

lemma f_path_resolve_eq:
  assumes "nul_free h"
  shows "f_path_resolve F (Some h) (Some c) =
    Inr (if PATH_MAX < length h + length c + SLASH_PLUS_NULL then None
         else (case realpath F (joined h c) of
                 Inl e \<Rightarrow> None
               | Inr r \<Rightarrow> if prefix h r then Some \<lparr>p_path = r\<rparr> else None))"
proof -
  have "\<not> PATH_MAX \<le> length (joined h c)"
    if "\<not> PATH_MAX < length h + length c + SLASH_PLUS_NULL"
    using that length_joined [of h c] by (simp add: SLASH_PLUS_NULL_def)
  then show ?thesis
    by (simp add: f_path_resolve_def Let_def join_and_resolve_full strncmp_eq_prefix [OF assms]
        split: sum.split)
qed

lemma f_valid_resolve_eq:
  assumes "nul_free h"
  shows "f_valid_resolve F (Some h) (Some c) =
    (if PATH_MAX \<le> length (joined h (dirname c)) then Inl Stack_overflow
     else
       (case realpath F (joined h (dirname c)) of
          Inl e \<Rightarrow> Inr None
        | Inr d \<Rightarrow>
            if length (basename c) = 1 \<and> hd (basename c) = CHR ''.'' then Inr None
            else if PATH_MAX \<le> length (joined d (basename c)) then Inl Stack_overflow
            else Inr (if prefix h (joined d (basename c))
                      then Some \<lparr>p_path = joined d (basename c)\<rparr> else None)))"
  unfolding f_valid_resolve_def Let_def option.case prod.case join_and_resolve_full join_paths_full
    strncmp_eq_prefix [OF assms]
  by (cases "realpath F (joined h (dirname c))") simp_all

section \<open>\<open>dirname\<close> and \<open>basename\<close>\<close>

text \<open>They produce components of the path they split, or one of the names \<^verbatim>\<open>.\<close> and \<^verbatim>\<open>/\<close>.\<close>

lemma split_slash_suffix:
  "set (split_slash s) \<subseteq> set (split_slash (s @ CHR ''/'' # t))"
  "set (split_slash t) \<subseteq> set (split_slash (s @ CHR ''/'' # t))"
  by (simp_all add: split_slash_append_slash)

lemma plain_sep: "plain (s @ CHR ''/'' # t) \<longleftrightarrow> plain s \<and> plain t"
  by (auto simp: plain_def split_slash_append_slash)

lemma plain_strip:
  "plain (rev s) \<Longrightarrow> plain (rev (dropWhile (\<lambda>c. c = CHR ''/'') s))"
  by (induction s) (auto simp: plain_sep)

lemma name_split:
  assumes "dropWhile (\<lambda>c. c \<noteq> CHR ''/'') s \<noteq> []"
  obtains y where "dropWhile (\<lambda>c. c \<noteq> CHR ''/'') s = CHR ''/'' # y"
    and "rev s = rev y @ CHR ''/'' # rev (takeWhile (\<lambda>c. c \<noteq> CHR ''/'') s)"
proof -
  let ?d = "dropWhile (\<lambda>c. c \<noteq> CHR ''/'') s" and ?w = "takeWhile (\<lambda>c. c \<noteq> CHR ''/'') s"
  have "hd ?d = CHR ''/''" using hd_dropWhile [OF assms] by simp
  then obtain y where y: "?d = CHR ''/'' # y" using assms by (metis list.collapse)
  have "rev (?w @ ?d) = rev y @ CHR ''/'' # rev ?w" unfolding y by simp
  then have "rev s = rev y @ CHR ''/'' # rev ?w" by (simp only: takeWhile_dropWhile_id)
  with y show thesis by (rule that)
qed

lemma plain_strip_name:
  assumes "plain (rev s)" and "dropWhile (\<lambda>c. c \<noteq> CHR ''/'') s \<noteq> []"
  shows "plain (rev (dropWhile (\<lambda>c. c \<noteq> CHR ''/'') s))"
    and "plain (rev (takeWhile (\<lambda>c. c \<noteq> CHR ''/'') s))"
proof -
  obtain y where y: "dropWhile (\<lambda>c. c \<noteq> CHR ''/'') s = CHR ''/'' # y"
      "rev s = rev y @ CHR ''/'' # rev (takeWhile (\<lambda>c. c \<noteq> CHR ''/'') s)"
    by (rule name_split [OF assms(2)])
  have p: "plain (rev y)" "plain (rev (takeWhile (\<lambda>c. c \<noteq> CHR ''/'') s))"
    using assms(1) unfolding y(2) plain_sep by blast+
  show "plain (rev (takeWhile (\<lambda>c. c \<noteq> CHR ''/'') s))" by (rule p(2))
  have "plain (rev y @ CHR ''/'' # [])" unfolding plain_sep using p(1) by (simp add: plain_def)
  then show "plain (rev (dropWhile (\<lambda>c. c \<noteq> CHR ''/'') s))" unfolding y(1) by simp
qed

lemma plain_consts [simp]: "plain []" "plain ''.''" "plain ''/''"
  by (simp_all add: plain_def)

lemma plain_dirname: "plain s \<Longrightarrow> plain (dirname s)"
proof -
  assume s: "plain s"
  define r where "r = dropWhile (\<lambda>c. c = CHR ''/'') (rev s)"
  define d where "d = dropWhile (\<lambda>c. c \<noteq> CHR ''/'') r"
  define e where "e = dropWhile (\<lambda>c. c = CHR ''/'') d"
  have "plain (rev r)" unfolding r_def by (rule plain_strip) (simp add: s)
  then have "plain (rev d)" if "d \<noteq> []"
    using that unfolding d_def by (rule plain_strip_name(1))
  then have "plain (rev e)" if "d \<noteq> []"
    using that unfolding e_def by (intro plain_strip)
  then show ?thesis
    unfolding dirname_def Let_def r_def [symmetric] d_def [symmetric] e_def [symmetric] by simp
qed

lemma plain_basename: "plain s \<Longrightarrow> plain (basename s)"
proof -
  assume s: "plain s"
  define r where "r = dropWhile (\<lambda>c. c = CHR ''/'') (rev s)"
  have r: "plain (rev r)" unfolding r_def by (rule plain_strip) (simp add: s)
  have "plain (rev (takeWhile (\<lambda>c. c \<noteq> CHR ''/'') r))"
  proof (cases "dropWhile (\<lambda>c. c \<noteq> CHR ''/'') r = []")
    case True
    then have "takeWhile (\<lambda>c. c \<noteq> CHR ''/'') r = r"
      by (metis append_Nil2 takeWhile_dropWhile_id)
    with r show ?thesis by (simp only:)
  next
    case False
    then show ?thesis by (rule plain_strip_name(2) [OF r])
  qed
  then show ?thesis unfolding basename_def Let_def r_def [symmetric] by simp
qed

lemma basename_shape: "basename s = ''/'' \<or> basename s = ''.'' \<or>
    CHR ''/'' \<notin> set (basename s) \<and> basename s \<noteq> [] \<and> set (basename s) \<subseteq> set s"
proof -
  define r where "r = dropWhile (\<lambda>c. c = CHR ''/'') (rev s)"
  define w where "w = takeWhile (\<lambda>c. c \<noteq> CHR ''/'') r"
  have "hd r \<noteq> CHR ''/''" if "r \<noteq> []" using that unfolding r_def by (rule hd_dropWhile)
  then have "w \<noteq> []" if "r \<noteq> []" using that unfolding w_def by (cases r) auto
  moreover have "set r \<subseteq> set s" unfolding r_def by (auto dest: set_dropWhileD)
  then have "set w \<subseteq> set s" unfolding w_def by (auto dest: set_takeWhileD)
  moreover have "CHR ''/'' \<notin> set w" unfolding w_def by (auto dest: set_takeWhileD)
  ultimately show ?thesis
    unfolding basename_def Let_def r_def [symmetric] w_def [symmetric] by (cases "r = []") auto
qed

lemma set_dropWhile_subset: "set xs \<subseteq> A \<Longrightarrow> set (dropWhile P xs) \<subseteq> A"
  by (auto dest: set_dropWhileD)

lemma set_dirname: "set (dirname s) \<subseteq> set s \<union> set ''./''"
proof -
  define r where "r = dropWhile (\<lambda>c. c = CHR ''/'') (rev s)"
  define d where "d = dropWhile (\<lambda>c. c \<noteq> CHR ''/'') r"
  define e where "e = dropWhile (\<lambda>c. c = CHR ''/'') d"
  have "set e \<subseteq> set s" unfolding e_def d_def r_def by (intro set_dropWhile_subset) simp
  then show ?thesis
    unfolding dirname_def Let_def r_def [symmetric] d_def [symmetric] e_def [symmetric] by auto
qed

lemma nul_free_dirname: "nul_free s \<Longrightarrow> nul_free (dirname s)"
  using set_dirname [of s] by (auto simp: nul_free_def)

lemma nul_free_basename: "nul_free s \<Longrightarrow> nul_free (basename s)"
  using basename_shape [of s] by (auto simp: nul_free_def)

lemma nul_free_joined: "nul_free h \<Longrightarrow> nul_free c \<Longrightarrow> nul_free (joined h c)"
  by (auto simp: joined_def)

section \<open>What a verified path guarantees\<close>

text \<open>
  \<open>in_home\<close> places a verified path: it is the canonical name of something in the home directory, or a
  new name in a directory that is. \<open>agree_outside\<close> compares two states of the file system off the
  home directory.
\<close>

definition in_home :: "fs \<Rightarrow> path \<Rightarrow> string \<Rightarrow> bool" where
  "in_home F hp r \<longleftrightarrow>
    (\<exists>p n. r = render p \<and> prefix hp p \<and> lookup F p = Some n \<and> length r < PATH_MAX) \<or>
    (\<exists>d n b. r = render d @ CHR ''/'' # b \<and> prefix hp d \<and> lookup F d = Some n \<and> plain b)"

definition agree_outside :: "path \<Rightarrow> fs \<Rightarrow> fs \<Rightarrow> bool" where
  "agree_outside hp F F' \<longleftrightarrow> (\<forall>q. \<not> prefix hp q \<longrightarrow> lookup F' q = lookup F q)"

lemma agree_outside_refl [simp]: "agree_outside hp F F"
  by (simp add: agree_outside_def)

lemma agree_outside_trans: "agree_outside hp F G \<Longrightarrow> agree_outside hp G H \<Longrightarrow> agree_outside hp F H"
  by (simp add: agree_outside_def)

lemma agree_outside_put: "prefix hp p \<Longrightarrow> p \<noteq> [] \<Longrightarrow> agree_outside hp F (put_node p n F)"
  by (auto simp: agree_outside_def)

lemma agree_outside_del: "prefix hp p \<Longrightarrow> p \<noteq> [] \<Longrightarrow> agree_outside hp F (del_node p F)"
  by (auto simp: agree_outside_def)

text \<open>The state the server keeps its files in: a home directory that is not the root.\<close>

definition home_ok :: "fs \<Rightarrow> path \<Rightarrow> bool" where
  "home_ok F hp \<longleftrightarrow> wf_fs F \<and> link_free F \<and> is_dir F hp \<and> hp \<noteq> []"

lemma home_okD:
  assumes "home_ok F hp"
  shows "wf_fs F" and "link_free F" and "is_dir F hp" and "hp \<noteq> []" and "nul_free (render hp)"
proof -
  show "wf_fs F" "link_free F" "is_dir F hp" "hp \<noteq> []" using assms by (simp_all add: home_ok_def)
  then have "list_all valid_name hp" by (auto simp: is_dir_def dest: wf_fs_lookup(1))
  then show "nul_free (render hp)" by (intro nul_free_render valid_names_nul_free)
qed

lemma in_home_namei:
  assumes "home_ok F hp" and "in_home F hp r" and "namei F mk r = Inr p"
  shows "prefix hp p"
proof -
  note F = home_okD [OF assms(1)]
  from assms(2) consider q n where "r = render q" "prefix hp q" "lookup F q = Some n" "length r < PATH_MAX"
    | d n b where "r = render d @ CHR ''/'' # b" "prefix hp d" "lookup F d = Some n" "plain b"
    unfolding in_home_def by blast
  then show ?thesis
  proof cases
    case 1
    then have "namei F mk r = Inr q"
      using namei_canonical [OF F(1)] link_free_lookup [OF F(2)] by simp
    with 1 assms(3) show ?thesis by simp
  next
    case 2
    then have "d \<noteq> []" using F(4) by auto
    then have "prefix d p" using namei_below [OF F(1, 2)] 2 assms(3) by blast
    with 2 show ?thesis by auto
  qed
qed

text \<open>The directory entry that creating and removing act on.\<close>

lemma butlast_strip:
  "set (butlast (rev (dropWhile P (rev cs)))) \<subseteq> set cs"
  by (metis in_set_butlastD set_dropWhileD set_rev subsetI)

lemma namei_parent_InrD:
  assumes "namei_parent F s = Inr (d, c)" and "is_abs s"
    and "rev (dropWhile (\<lambda>c. c = []) (rev (split_slash s))) = cs" and "cs \<noteq> []"
  shows "resolve F False SYMLOOP_MAX [] (butlast cs) = Inr d" and "c = last cs"
  using assms(1, 2, 4) unfolding namei_parent_def Let_def assms(3)
  by (simp_all split: if_splits sum.splits)

lemma resolve_butlast_below:
  assumes "home_ok F hp" and "in_home F hp r" and "namei_parent F r = Inr (d, c)"
    and "\<not> (c = [] \<or> c = ''.'' \<or> c = ''..'')"
  shows "prefix hp (d @ [c])"
proof -
  note F = home_okD [OF assms(1)]
  from assms(2) consider q n where "r = render q" "prefix hp q" "lookup F q = Some n" "length r < PATH_MAX"
    | e n b where "r = render e @ CHR ''/'' # b" "prefix hp e" "lookup F e = Some n" "plain b"
    unfolding in_home_def by blast
  then show ?thesis
  proof cases
    case 1
    then have q: "q \<noteq> []" "is_dir F (butlast q)" "list_all valid_name q"
      using F(1, 4) wf_fs_lookup [OF F(1)] by auto
    then have "namei_parent F (render (butlast q @ [last q])) = Inr (butlast q, last q)"
      using 1 by (intro namei_parent_canonical [OF F(1)]) (simp_all add: list_all_iff)
    then have "butlast q = d" "last q = c" using 1 q(1) assms(3) by simp_all
    then have "q = d @ [c]" using q(1) by (metis append_butlast_last_id)
    then show ?thesis using 1(2) by simp
  next
    case 2
    then have e: "e \<noteq> []" "list_all valid_name e" "not_link n"
      using F(1, 2, 4) by (auto dest: wf_fs_lookup(1) link_free_lookup)
    define strip where "strip = (\<lambda>cs :: string list. rev (dropWhile (\<lambda>c. c = []) (rev cs)))"
    have sp: "split_slash r = [] # e @ split_slash b"
      using 2(1) e by (simp add: split_slash_append_slash split_render)
    have st: "strip ([] # e @ cs) = [] # e @ strip cs" for cs
    proof (cases "\<forall>c \<in> set cs. c = []")
      case True
      have "last e \<noteq> []" using e by (simp add: list_all_iff valid_name_def)
      then have "dropWhile (\<lambda>c. c = []) (rev e @ [[]]) = rev e @ [[]]"
        using e(1) by (cases e rule: rev_cases) simp_all
      moreover have "dropWhile (\<lambda>c. c = []) (rev cs) = []" using True by simp
      moreover have "dropWhile (\<lambda>c. c = []) (rev cs @ rev e @ [[]]) = dropWhile (\<lambda>c. c = []) (rev e @ [[]])"
        using True by (intro dropWhile_append2) simp
      ultimately show ?thesis by (simp add: strip_def del: dropWhile_eq_Nil_conv)
    next
      case False
      then show ?thesis by (auto simp: strip_def dropWhile_append1)
    qed
    have st': "rev (dropWhile (\<lambda>c. c = []) (rev (split_slash r))) = [] # e @ strip (split_slash b)"
      using st [of "split_slash b"] unfolding sp strip_def .
    show ?thesis
    proof (cases "strip (split_slash b) = []")
      case True
      then have "d @ [c] = e"
      proof -
        have ee: "is_dir F (butlast e)" "valid_name (last e)"
          using wf_fs_lookup(2) [OF F(1)] 2(3) e by (auto simp: list_all_iff)
        have "resolve F False SYMLOOP_MAX [] ([] # butlast e) = Inr (butlast e)"
          using resolve_down [OF F(1), of "[]" "butlast e" Dir] ee(1)
          by (simp add: resolve.simps(2) is_dir_def)
        moreover have "resolve F False SYMLOOP_MAX [] (butlast ([] # e)) = Inr d" "c = last ([] # e)"
          using namei_parent_InrD [OF assms(3) _ st' [unfolded True append_Nil2]] 2(1) by simp_all
        ultimately have "d = butlast e" "c = last e" using e(1) by simp_all
        with e(1) show ?thesis by simp
      qed
      with 2 show ?thesis by simp
    next
      case False
      let ?w = "strip (split_slash b)"
      have bl: "butlast ([] # e @ ?w) = [] # e @ butlast ?w" using False by (simp add: butlast_append)
      have "resolve F False SYMLOOP_MAX [] ([] # e @ butlast ?w) = Inr d"
        using namei_parent_InrD(1) [OF assms(3) _ st'] 2(1) by (simp only: bl) simp
      then have "resolve F False SYMLOOP_MAX e (butlast ?w) = Inr d"
        using resolve_append [OF F(1), of "[]" e n False SYMLOOP_MAX "butlast ?w"] 2(3) e(3)
        by (simp add: resolve.simps(2))
      moreover have "''..'' \<notin> set (butlast ?w)"
        using 2(4) butlast_strip [of "\<lambda>c. c = []" "split_slash b"] by (auto simp: plain_def strip_def)
      ultimately have "prefix e d" by (rule resolve_plain [OF _ F(2)]) simp
      then have "prefix hp d" by (rule prefix_order.trans [OF 2(2)])
      then show ?thesis by simp
    qed
  qed
qed

text \<open>Operations on a verified path below the home directory leave everything else alone.\<close>

lemma f_create_dir_outside:
  assumes "home_ok F hp" and "in_home F hp (p_path v)"
  shows "agree_outside hp F (snd (f_create_dir F (Some v)))"
  using resolve_butlast_below [OF assms]
  by (auto simp: f_create_dir_def mkdir_def intro!: agree_outside_put
      split: sum.splits option.splits errno.splits)

lemma unlink_outside:
  assumes "home_ok F hp" and "in_home F hp s"
  shows "agree_outside hp F (snd (unlink F s))"
  using resolve_butlast_below [OF assms]
  by (auto simp: unlink_def intro!: agree_outside_del split: sum.splits option.splits node.splits)

lemma rmdir_outside:
  assumes "home_ok F hp" and "in_home F hp s"
  shows "agree_outside hp F (snd (rmdir F s))"
  using resolve_butlast_below [OF assms]
  by (auto simp: rmdir_def intro!: agree_outside_del split: sum.splits option.splits node.splits)

lemma f_del_file_cases:
  assumes "f_del_file F (Some v) = Inr (rc, F')"
  shows "F' = F \<or> F' = snd (unlink F (p_path v)) \<or> F' = snd (rmdir F (p_path v))"
  using assms by (auto simp: f_del_file_def split: sum.splits node.splits prod.splits option.splits if_splits)

lemma f_del_file_outside:
  assumes "home_ok F hp" and "in_home F hp (p_path v)" and "f_del_file F (Some v) = Inr (rc, F')"
  shows "agree_outside hp F F'"
  using f_del_file_cases [OF assms(3)] unlink_outside [OF assms(1, 2)] rmdir_outside [OF assms(1, 2)]
  by auto

lemma fopen_w_outside:
  assumes "home_ok F hp" and "in_home F hp s"
  shows "agree_outside hp F (snd (fopen_w F s))"
  using in_home_namei [OF assms, of True] home_okD(4) [OF assms(1)]
  by (auto simp: fopen_w_def intro!: agree_outside_put split: sum.splits option.splits node.splits)

lemma fwrite_outside:
  assumes "prefix hp p" and "hp \<noteq> []"
  shows "agree_outside hp F (snd (fwrite_all F p bs))"
  using assms by (auto simp: fwrite_all_def intro!: agree_outside_put split: option.splits node.splits)

lemma f_open_w_handle:
  assumes "f_open_file F (Some v) Mode_w = (rc, Some h, F')"
  shows "namei F True (p_path v) = Inr h" and "F' = snd (fopen_w F (p_path v))"
  using assms
  by (auto simp: f_open_file_def fopen_w_def
      split: sum.splits prod.splits errno.splits option.splits node.splits if_splits)

lemma f_open_w_state:
  "snd (snd (f_open_file F (Some v) Mode_w)) = snd (fopen_w F (p_path v))"
  by (auto simp: f_open_file_def split: prod.splits sum.splits errno.splits)

lemma f_write_file_outside:
  assumes "home_ok F hp" and "in_home F hp (p_path v)"
  shows "agree_outside hp F (snd (f_write_file F (Some v) (Some bs)))"
proof -
  obtain rc h F1 where o: "f_open_file F (Some v) Mode_w = (rc, h, F1)" by (metis prod_cases3)
  then have F1: "F1 = snd (fopen_w F (p_path v))" using f_open_w_state [of F v] by simp
  then have a: "agree_outside hp F F1" using fopen_w_outside [OF assms] by simp
  show ?thesis
  proof (cases h)
    case None
    then show ?thesis using a o by (simp add: f_write_file_def)
  next
    case (Some p)
    then have "prefix hp p" using f_open_w_handle(1) [of F v rc p F1] o in_home_namei [OF assms] by blast
    then have "agree_outside hp F1 (snd (fwrite_all F1 p bs))"
      using home_okD(4) [OF assms(1)] by (rule fwrite_outside)
    then show ?thesis using a o Some
      by (auto simp: f_write_file_def Let_def split: prod.splits intro: agree_outside_trans)
  qed
qed

text \<open>The invariants of the file system survive the operations.\<close>

lemma wf_f_create_dir: "wf_fs F \<Longrightarrow> nul_free (p_path v) \<Longrightarrow> wf_fs (snd (f_create_dir F (Some v)))"
  using wf_mkdir [of F "p_path v"]
  by (auto simp: f_create_dir_def split: prod.splits option.splits errno.splits)

lemma wf_f_del_file: "wf_fs F \<Longrightarrow> f_del_file F (Some v) = Inr (rc, F') \<Longrightarrow> wf_fs F'"
  using f_del_file_cases [of F v rc F'] wf_unlink [of F "p_path v"] wf_rmdir [of F "p_path v"] by auto

lemma wf_f_write_file:
  assumes "wf_fs F" and "nul_free (p_path v)"
  shows "wf_fs (snd (f_write_file F (Some v) (Some bs)))"
proof -
  obtain rc h F1 where o: "f_open_file F (Some v) Mode_w = (rc, h, F1)" by (metis prod_cases3)
  then have "wf_fs F1" using f_open_w_state [of F v] wf_fopen_w [OF assms] by simp
  then show ?thesis using o wf_fwrite_all [of F1 _ bs]
    by (cases h) (auto simp: f_write_file_def Let_def case_prod_beta)
qed

section \<open>The resolver interface\<close>

text \<open>
  What the handlers expect of a resolver: the path it returns starts with the text of the home
  directory; and, without links and without \<^verbatim>\<open>..\<close> in the request, it lies in the home directory.
\<close>

locale path_resolver =
  fixes res :: "fs \<Rightarrow> string option \<Rightarrow> string option \<Rightarrow> verified_path_t option run"
  assumes res_prefix:
      "nul_free h \<Longrightarrow> res F (Some h) (Some c) = Inr (Some v) \<Longrightarrow> prefix h (p_path v)"
    and res_nul_free: "wf_fs F \<Longrightarrow> nul_free h \<Longrightarrow> nul_free c \<Longrightarrow> res F (Some h) (Some c) = Inr (Some v) \<Longrightarrow>
      nul_free (p_path v)"
    and res_in_home: "home_ok F hp \<Longrightarrow> nul_free c \<Longrightarrow> plain c \<Longrightarrow>
      res F (Some (render hp)) (Some c) = Inr (Some v) \<Longrightarrow> in_home F hp (p_path v)"
    and res_None: "res F None q = Inr None" "res F q None = Inr None"
begin

lemma create_confined:
  assumes "home_ok F hp" and "nul_free c" and "plain c"
    and "res F (Some (render hp)) (Some c) = Inr v"
  shows "agree_outside hp F (snd (f_create_dir F v))"
  using assms res_in_home f_create_dir_outside by (cases v) (auto simp: f_create_dir_def)

lemma del_confined:
  assumes "home_ok F hp" and "nul_free c" and "plain c"
    and "res F (Some (render hp)) (Some c) = Inr v" and "f_del_file F v = Inr (rc, F')"
  shows "agree_outside hp F F'"
proof (cases v)
  case None
  then show ?thesis using assms(5) by (simp add: f_del_file_def)
next
  case (Some w)
  then show ?thesis using assms res_in_home f_del_file_outside by blast
qed

lemma write_confined:
  assumes "home_ok F hp" and "nul_free c" and "plain c"
    and "res F (Some (render hp)) (Some c) = Inr v"
  shows "agree_outside hp F (snd (f_write_file F v bs))"
proof (cases "v = None \<or> bs = None")
  case True
  then show ?thesis by (cases v) (auto simp: f_write_file_def)
next
  case False
  then show ?thesis using assms res_in_home f_write_file_outside by auto
qed

end

lemma realpath_below:
  assumes "home_ok F hp" and "nul_free c" and "plain c" and "realpath F (joined (render hp) c) = Inr r"
  obtains p n where "r = render p" and "prefix hp p" and "lookup F p = Some n" and "length r < PATH_MAX"
proof -
  note F = home_okD [OF assms(1)]
  have nf: "nul_free (joined (render hp) c)" using F(5) assms(2) by (rule nul_free_joined)
  obtain t where t: "joined (render hp) c = render hp @ CHR ''/'' # t" using joined_slash by blast
  then have pt: "plain t" using assms(3) plain_joined by blast
  obtain p where p: "namei F False (joined (render hp) c) = Inr p" "r = render p" "length r < PATH_MAX"
    using assms(4) by (auto simp: realpath_def split: sum.splits if_splits)
  have "prefix hp p" using namei_below [OF F(1, 2) _ F(4) pt] p(1) t F(3) by (simp add: is_dir_def)
  moreover obtain n where "lookup F p = Some n" using namei_sound [OF F(1) p(1) nf] by blast
  ultimately show thesis using that p by blast
qed

lemma f_path_resolve_Some:
  assumes "nul_free h" and "f_path_resolve F (Some h) (Some c) = Inr (Some v)"
  shows "realpath F (joined h c) = Inr (p_path v)" and "prefix h (p_path v)"
  using assms by (auto simp: f_path_resolve_eq split: if_splits sum.splits)

lemma f_valid_resolve_Some:
  assumes "nul_free h" and "f_valid_resolve F (Some h) (Some c) = Inr (Some v)"
  obtains d where "realpath F (joined h (dirname c)) = Inr d" and "p_path v = joined d (basename c)"
    and "prefix h (p_path v)" and "basename c \<noteq> ''.''" and "length (p_path v) < PATH_MAX"
proof (cases "realpath F (joined h (dirname c))")
  case (Inl e)
  then show ?thesis using assms by (simp add: f_valid_resolve_eq split: if_splits)
next
  case (Inr d)
  then have p: "\<not> (length (basename c) = 1 \<and> hd (basename c) = CHR ''.'')"
    "length (joined d (basename c)) < PATH_MAX" "prefix h (joined d (basename c))"
    "p_path v = joined d (basename c)"
    using assms by (auto simp: f_valid_resolve_eq simp del: One_nat_def split: if_splits)
  from p(1) have "basename c \<noteq> ''.''" by auto
  then show ?thesis using that [OF Inr p(4)] p by simp
qed

interpretation pr: path_resolver f_path_resolve
proof
  fix F h c v
  assume h: "nul_free h" and r: "f_path_resolve F (Some h) (Some c) = Inr (Some v)"
  show "prefix h (p_path v)" by (rule f_path_resolve_Some(2) [OF h r])
  assume "wf_fs F" "nul_free c"
  then show "nul_free (p_path v)"
    using realpath_sound [OF _ f_path_resolve_Some(1) [OF h r]] nul_free_joined [OF h]
    by (metis nul_free_render valid_names_nul_free)
next
  fix F hp c v
  assume h: "home_ok F hp" and c: "nul_free c" "plain c"
    and r: "f_path_resolve F (Some (render hp)) (Some c) = Inr (Some v)"
  from realpath_below [OF h c f_path_resolve_Some(1) [OF home_okD(5) [OF h] r]]
  show "in_home F hp (p_path v)" unfolding in_home_def by metis
qed (simp_all add: f_path_resolve_def split: option.splits)

interpretation vr: path_resolver f_valid_resolve
proof
  fix F h c v
  assume h: "nul_free h" and r: "f_valid_resolve F (Some h) (Some c) = Inr (Some v)"
  obtain d where d: "realpath F (joined h (dirname c)) = Inr d" "p_path v = joined d (basename c)"
      "prefix h (p_path v)"
    by (rule f_valid_resolve_Some [OF h r])
  show "prefix h (p_path v)" by (rule d(3))
  assume F: "wf_fs F" and c: "nul_free c"
  have "nul_free d"
    using realpath_sound [OF F d(1)] nul_free_joined [OF h nul_free_dirname [OF c]]
    by (metis nul_free_render valid_names_nul_free)
  then show "nul_free (p_path v)" unfolding d(2) by (rule nul_free_joined [OF _ nul_free_basename [OF c]])
next
  fix F hp c v
  assume h: "home_ok F hp" and c: "nul_free c" "plain c"
    and r: "f_valid_resolve F (Some (render hp)) (Some c) = Inr (Some v)"
  obtain d where d: "realpath F (joined (render hp) (dirname c)) = Inr d"
      "p_path v = joined d (basename c)" "length (p_path v) < PATH_MAX"
    by (rule f_valid_resolve_Some [OF home_okD(5) [OF h] r])
  obtain p n where p: "d = render p" "prefix hp p" "lookup F p = Some n"
    by (rule realpath_below [OF h nul_free_dirname [OF c(1)] plain_dirname [OF c(2)] d(1)])
  obtain t where t: "p_path v = render p @ CHR ''/'' # t" "plain t"
    using joined_slash [of d "basename c"] plain_joined [OF plain_basename [OF c(2)]] d(2) p(1) by metis
  then show "in_home F hp (p_path v)" using p unfolding in_home_def by blast
qed (simp_all add: f_valid_resolve_def split: option.splits)

section \<open>Functional behaviour of the operations\<close>

lemma last_render: "list_all valid_name p \<Longrightarrow> p \<noteq> [] \<Longrightarrow> last (render p) \<noteq> CHR ''/''"
proof (induction p rule: rev_induct)
  case (snoc c p)
  then have "c \<noteq> []" "CHR ''/'' \<notin> set c" by (simp_all add: valid_name_def)
  then show ?case by (simp add: render_def) (metis last_in_set)
qed simp

lemma f_create_dir_canonical:
  assumes "wf_fs F" and "is_dir F d" and "valid_name c" and "length (render (d @ [c])) < PATH_MAX"
  shows "f_create_dir F (Some \<lparr>p_path = render (d @ [c])\<rparr>) =
    (if lookup F (d @ [c]) \<noteq> None then (OP_DIR_EXISTS, F)
     else if d \<in> set (fs_denied F) then (OP_FAILURE, F)
     else (OP_SUCCESS, put_node (d @ [c]) Dir F))"
  using namei_parent_canonical [OF assms] assms(3)
  by (simp add: f_create_dir_def mkdir_def valid_name_def)

lemma count_entries_eq: "k \<le> 4 \<Longrightarrow> count_entries k objs = min 4 (k + length objs)"
  by (induction objs arbitrary: k) auto

lemma valid_last:
  assumes "wf_fs F" and "lookup F p = Some n" and "p \<noteq> []"
  shows "valid_name (last p)" and "is_dir F (butlast p)" and "list_all valid_name p"
  using assms wf_fs_lookup [OF assms(1, 2)] by (simp_all add: list_all_iff)

lemma f_del_file_canonical:
  assumes "wf_fs F" and "lookup F p = Some n" and "not_link n" and "p \<noteq> []"
    and "length (render p) < PATH_MAX"
  shows "f_del_file F (Some \<lparr>p_path = render p\<rparr>) =
    (case n of
       File bs \<Rightarrow>
         Inr (if butlast p \<in> set (fs_denied F) then (OP_FAILURE, F) else (OP_SUCCESS, del_node p F))
     | Dir \<Rightarrow>
         if p \<in> set (fs_denied F) then Inl Null_deref
         else if children F p \<noteq> [] then Inr (OP_DIR_NOT_EMPTY, F)
         else if butlast p \<in> set (fs_denied F) then Inr (OP_FAILURE, F)
         else Inr (OP_SUCCESS, del_node p F)
     | _ \<Rightarrow> Inr (OP_FAILURE, F))"
proof -
  note v = valid_last [OF assms(1, 2, 4)]
  have np: "namei_parent F (render p) = Inr (butlast p, last p)"
    using namei_parent_canonical [OF assms(1) v(2, 1)] assms(4, 5) by simp
  have nm: "namei F False (render p) = Inr p" by (rule namei_canonical [OF assms(1-3, 5)])
  have st: "stat F (render p) = Inr n" by (rule stat_canonical [OF assms(1-3, 5)])
  have nd: "last p \<noteq> []" "last p \<noteq> ''.''" "last p \<noteq> ''..''" using v(1) by (simp_all add: valid_name_def)
  show ?thesis
  proof (cases n)
    case (File bs)
    then show ?thesis using st np nd assms(2, 4) last_render [OF v(3) assms(4)]
      by (simp add: f_del_file_def unlink_def)
  next
    case Dir
    then have "is_dir F p" using assms(2) by (simp add: is_dir_def)
    then have "opendir F (render p) = (if p \<in> set (fs_denied F) then Inl EACCES
        else Inr ((''.'', Dir) # (''..'', Dir) # children F p))"
      using nm by (simp add: opendir_def)
    moreover have "count_entries 0 ((''.'', Dir) # (''..'', Dir) # children F p) > 2 \<longleftrightarrow> children F p \<noteq> []"
      by (subst count_entries_eq) auto
    ultimately show ?thesis using Dir st np nd assms(2, 4)
      by (simp add: f_del_file_def rmdir_def del: count_entries.simps)
  qed (use st assms(3) in \<open>simp_all add: f_del_file_def\<close>)
qed

text \<open>Writing a file and reading it back, through whatever links its name passes.\<close>

lemma update_update: "AList.update k w (AList.update k v xs) = AList.update k w xs"
  by (induction xs) auto

lemma put_node_put_node [simp]: "put_node p n (put_node p m F) = put_node p n F"
  by (simp add: put_node_def update_update)

lemma fopen_w_cases:
  assumes "fopen_w F s = (Inr p, F')" and "wf_fs F" and "nul_free s"
  shows "namei F True s = Inr p" and "p \<noteq> []" and "\<not> is_dir F p"
    and "F' = put_node p (File []) F \<or> F' = F \<and> lookup F p = Some Special"
    and "\<And>n. lookup F p = Some n \<Longrightarrow> not_link n"
proof -
  obtain q where q: "namei F True s = Inr q" using assms(1) by (auto simp: fopen_w_def split: sum.splits)
  note snd = namei_sound [OF assms(2) q assms(3)]
  show "namei F True s = Inr p"
    using assms(1) q by (auto simp: fopen_w_def split: option.splits node.splits if_splits)
  then have qp: "q = p" using q by simp
  have nl: "not_link n" if "lookup F p = Some n" for n using snd qp that by auto
  show "p \<noteq> []" "\<not> is_dir F p"
    using assms(1) q qp by (auto simp: fopen_w_def is_dir_def split: option.splits node.splits if_splits)
  show "F' = put_node p (File []) F \<or> F' = F \<and> lookup F p = Some Special"
    using assms(1) q qp nl by (cases "lookup F p") (auto simp: fopen_w_def split: node.splits if_splits)
  show "not_link n" if "lookup F p = Some n" for n using nl that .
qed

lemma f_write_file_effect:
  assumes "f_write_file F (Some v) (Some bs) = (OP_SUCCESS, F')" and "wf_fs F" and "nul_free (p_path v)"
  obtains p where "namei F True (p_path v) = Inr p" and "p \<noteq> []" and "\<not> is_dir F p"
    and "\<And>n. lookup F p = Some n \<Longrightarrow> not_link n" and "bs = [] \<or> p \<notin> set (fs_ioerr F)"
    and "F' = put_node p (File bs) F \<or> lookup F p = Some Special"
proof -
  obtain x F1 where o: "fopen_w F (p_path v) = (x, F1)" by (metis surj_pair)
  then obtain p where x: "x = Inr p" using assms(1)
    by (cases x) (auto simp: f_write_file_def f_open_file_def split: errno.splits)
  note c = fopen_w_cases [OF o [unfolded x] assms(2, 3)]
  have w: "fwrite_all F1 p bs = (length bs, F')"
    using assms(1) o x
    by (auto simp: f_write_file_def f_open_file_def Let_def split: prod.splits if_splits)
  have io: "fs_ioerr F1 = fs_ioerr F" using c(4) by auto
  have "bs = [] \<or> p \<notin> set (fs_ioerr F)" using w io by (auto simp: fwrite_all_def split: if_splits)
  moreover have "F' = put_node p (File bs) F \<or> lookup F p = Some Special"
    using c(2, 4) w by (auto simp: fwrite_all_def split: if_splits)
  ultimately show thesis using that c(1-3, 5) by blast
qed

text \<open>A small file system on which the theorems are evaluated.\<close>

definition sample_fs :: fs where
  "sample_fs =
    \<lparr>fs_nodes =
       [([''srv''], Dir), ([''srv'', ''home''], Dir), ([''srv'', ''home'', ''a''], File [104, 105]),
        ([''srv'', ''home'', ''docs''], Dir), ([''srv'', ''home2''], Dir),
        ([''srv'', ''home2'', ''k''], File [1])],
     fs_cwd = [], fs_denied = [], fs_ioerr = [], fs_dirsize = 4096\<rparr>"

definition sample_home :: path where
  "sample_home = [''srv'', ''home'']"

lemma sample_home_ok: "home_ok sample_fs sample_home"
  by (simp add: home_ok_def sample_fs_def sample_home_def wf_fs_def is_dir_def lookup_def
      valid_name_def NAME_MAX_def node_ok_def link_free_def)

lemma render_sample_home: "render sample_home = ''/srv/home''"
  by (simp add: sample_home_def render_def)



text \<open>Property C22: deleting.\<close>

theorem f_del_file_spec:
  assumes "wf_fs F" and "lookup F p = Some n" and "not_link n" and "p \<noteq> []"
    and "length (render p) < PATH_MAX" and "fs_denied F = []"
  shows "f_del_file F (Some \<lparr>p_path = render p\<rparr>) =
    Inr (if n = Special then (OP_FAILURE, F)
         else if n = Dir \<and> children F p \<noteq> [] then (OP_DIR_NOT_EMPTY, F)
         else (OP_SUCCESS, del_node p F))"
  using assms by (cases n) (simp_all add: f_del_file_canonical)

theorem f_del_file_spec_witness:
  "f_del_file sample_fs (Some \<lparr>p_path = ''/srv/home''\<rparr>) = Inr (OP_DIR_NOT_EMPTY, sample_fs)"
proof -
  have a: "lookup sample_fs [''srv'', ''home''] = Some Dir" "fs_denied sample_fs = []"
    "render [''srv'', ''home''] = ''/srv/home''" "children sample_fs [''srv'', ''home''] \<noteq> []"
    by (simp_all add: sample_fs_def lookup_def render_def children_def)
  show ?thesis
    using f_del_file_spec [OF home_okD(1) [OF sample_home_ok] a(1) _ _ _ a(2)] a(3, 4)
    by (simp add: PATH_MAX_def)
qed

text \<open>Creating a directory.\<close>

theorem f_create_dir_spec:
  assumes "wf_fs F" and "is_dir F d" and "valid_name c" and "length (render (d @ [c])) < PATH_MAX"
    and "fs_denied F = []"
  shows "f_create_dir F (Some \<lparr>p_path = render (d @ [c])\<rparr>) =
      (if lookup F (d @ [c]) = None then (OP_SUCCESS, put_node (d @ [c]) Dir F) else (OP_DIR_EXISTS, F)) \<and>
    wf_fs (snd (f_create_dir F (Some \<lparr>p_path = render (d @ [c])\<rparr>)))"
proof
  show "f_create_dir F (Some \<lparr>p_path = render (d @ [c])\<rparr>) =
      (if lookup F (d @ [c]) = None then (OP_SUCCESS, put_node (d @ [c]) Dir F) else (OP_DIR_EXISTS, F))"
    using assms by (simp add: f_create_dir_canonical)
  have "list_all valid_name (d @ [c])"
    using assms(1-3) by (auto simp: is_dir_def dest: wf_fs_lookup(1))
  then have "nul_free (render (d @ [c]))" by (intro nul_free_render valid_names_nul_free)
  then show "wf_fs (snd (f_create_dir F (Some \<lparr>p_path = render (d @ [c])\<rparr>)))"
    by (intro wf_f_create_dir [OF assms(1)]) simp
qed

theorem f_create_dir_spec_witness:
  "fst (f_create_dir sample_fs (Some \<lparr>p_path = ''/srv/home/a''\<rparr>)) = OP_DIR_EXISTS"
proof -
  have a: "is_dir sample_fs [''srv'', ''home'']" "valid_name ''a''" "fs_denied sample_fs = []"
    "render ([''srv'', ''home''] @ [''a'']) = ''/srv/home/a''"
    "lookup sample_fs ([''srv'', ''home''] @ [''a'']) \<noteq> None"
    by (simp_all add: sample_fs_def lookup_def render_def is_dir_def valid_name_def NAME_MAX_def)
  show ?thesis
    using f_create_dir_spec [OF home_okD(1) [OF sample_home_ok] a(1, 2) _ a(3)] a(4, 5)
    by (simp add: PATH_MAX_def)
qed

text \<open>Property C16: resolving a request.\<close>

theorem f_path_resolve_spec:
  assumes "wf_fs F" and "nul_free h" and "nul_free c"
  shows "\<exists>r. f_path_resolve F (Some h) (Some c) = Inr r \<and>
    (case r of
       None \<Rightarrow> True
     | Some v \<Rightarrow> prefix h (p_path v) \<and> realpath F (joined h c) = Inr (p_path v) \<and>
         (\<exists>p n. p_path v = render p \<and> lookup F p = Some n \<and> not_link n \<and> length (p_path v) < PATH_MAX))"
proof -
  obtain r where r: "f_path_resolve F (Some h) (Some c) = Inr r" using assms(2) by (simp add: f_path_resolve_eq)
  show ?thesis
  proof (cases r)
    case None
    with r show ?thesis by simp
  next
    case (Some v)
    note f = f_path_resolve_Some [OF assms(2) r [unfolded Some]]
    obtain p n where "p_path v = render p" "lookup F p = Some n" "not_link n" "length (p_path v) < PATH_MAX"
      by (rule realpath_sound [OF assms(1) f(1) nul_free_joined [OF assms(2, 3)]])
    with r Some f show ?thesis by auto
  qed
qed

theorem f_path_resolve_spec_witness:
  "\<exists>r. f_path_resolve sample_fs (Some ''/srv/home'') (Some ''docs/../a'') = Inr r"
proof -
  have b: "nul_free ''/srv/home''" "nul_free ''docs/../a''" by simp_all
  show ?thesis using f_path_resolve_spec [OF home_okD(1) [OF sample_home_ok] b] by blast
qed

text \<open>Confinement of well-formed requests.\<close>

theorem requests_confined:
  assumes "home_ok F hp" and "nul_free c" and "plain c"
  shows "(f_path_resolve F (Some (render hp)) (Some c) = Inr v \<longrightarrow> f_del_file F v = Inr (rc, F') \<longrightarrow>
      agree_outside hp F F') \<and>
    (f_valid_resolve F (Some (render hp)) (Some c) = Inr v \<longrightarrow>
      agree_outside hp F (snd (f_create_dir F v)) \<and> agree_outside hp F (snd (f_write_file F v bs)))"
  using pr.del_confined [OF assms] vr.create_confined [OF assms] vr.write_confined [OF assms] by blast

theorem requests_confined_witness:
  "agree_outside sample_home sample_fs
     (snd (f_write_file sample_fs (Some \<lparr>p_path = ''/srv/home/docs/n''\<rparr>) (Some [7])))"
proof -
  have r: "f_valid_resolve sample_fs (Some (render sample_home)) (Some ''docs/n'') =
      Inr (Some \<lparr>p_path = ''/srv/home/docs/n''\<rparr>)"
    by code_simp
  have c: "nul_free ''docs/n''" "plain ''docs/n''" by (simp_all add: plain_def)
  show ?thesis using requests_confined [OF sample_home_ok c] r by blast
qed

text \<open>A directory next to the home directory whose name continues its name is reachable.\<close>

theorem sibling_escape:
  assumes "wf_fs F" and "is_dir F (d @ [b])" and "d \<noteq> []"
    and "lookup F (d @ [b @ s]) = Some n" and "not_link n"
    and "length (render (d @ [b])) + length b + length s + 5 \<le> PATH_MAX"
  shows "f_path_resolve F (Some (render (d @ [b]))) (Some (''../'' @ b @ s)) =
    Inr (Some \<lparr>p_path = render (d @ [b @ s])\<rparr>)"
proof -
  have v: "list_all valid_name (d @ [b])" "list_all valid_name (d @ [b @ s])"
    using assms(1, 2, 4) by (auto simp: is_dir_def dest: wf_fs_lookup(1))
  have nf: "nul_free (render (d @ [b]))" by (intro nul_free_render valid_names_nul_free v(1))
  have dd: "is_dir F d" using wf_fs_prefix_dir [of F d "[b]" Dir] assms(1, 2) by (simp add: is_dir_def)
  define J where "J = joined (render (d @ [b])) (''../'' @ b @ s)"
  have j: "J = render (d @ [b]) @ CHR ''/'' # ''../'' @ b @ s"
    by (simp add: J_def joined_def is_abs_def)
  have "length J < PATH_MAX" "J \<noteq> []" using assms(6) by (simp_all add: j)
  moreover have "is_abs J" unfolding j by (rule is_abs_append)
  moreover have "resolve F False SYMLOOP_MAX [] (split_slash J) = Inr (d @ [b @ s])"
  proof -
    have sp: "split_slash (''../'' @ b @ s) = [''..'', b @ s]"
      using split_slash_append [of "''..''" "b @ s"] v(2) by (simp add: valid_name_def)
    have "resolve F False SYMLOOP_MAX [] (split_slash J) =
        resolve F False SYMLOOP_MAX (d @ [b]) [''..'', b @ s]"
      unfolding j using resolve_from [OF assms(1), of "d @ [b]" Dir] assms(2) sp by (simp add: is_dir_def)
    also have "\<dots> = resolve F False SYMLOOP_MAX d [b @ s]"
      using assms(2) by (simp add: resolve.simps(2) [of _ _ _ "d @ [b]"])
    also have "\<dots> = Inr (d @ [b @ s])" by (rule resolve_down [OF assms(1, 4, 5)])
    finally show ?thesis .
  qed
  ultimately have "namei F False J = Inr (d @ [b @ s])" by (simp add: namei_def)
  moreover have len: "length (render (d @ [b @ s])) < PATH_MAX"
    using assms(3, 6) by (simp add: render_snoc)
  ultimately have "realpath F J = Inr (render (d @ [b @ s]))"
    by (simp add: realpath_def)
  moreover have "prefix (render (d @ [b])) (render (d @ [b @ s]))"
    using assms(3) by (simp add: render_snoc)
  ultimately show ?thesis using assms(6)
    unfolding f_path_resolve_eq [OF nf] J_def [symmetric] by (simp add: SLASH_PLUS_NULL_def)
qed

theorem sibling_escape_witness:
  "f_path_resolve sample_fs (Some ''/srv/home'') (Some ''../home2'') = Inr (Some \<lparr>p_path = ''/srv/home2''\<rparr>)"
proof -
  have l: "lookup sample_fs ([''srv''] @ [''home'' @ ''2'']) = Some Dir"
    by (simp add: sample_fs_def lookup_def)
  have r: "render ([''srv''] @ [''home'']) = ''/srv/home''" "render ([''srv''] @ [''home'' @ ''2'']) = ''/srv/home2''"
    by (simp_all add: render_def)
  have d: "is_dir sample_fs ([''srv''] @ [''home''])" by (simp add: sample_fs_def lookup_def is_dir_def)
  show ?thesis
    using sibling_escape [OF home_okD(1) [OF sample_home_ok] d _ l] unfolding r by (simp add: PATH_MAX_def)
qed

section \<open>Listing\<close>

text \<open>The text of a listing: one line for each child shown, in directory order.\<close>

definition listing :: "fs \<Rightarrow> (string \<times> node) list \<Rightarrow> string" where
  "listing F objs = concat (map (\<lambda>(nm, n). list_line n (node_size F n) nm) (filter listed objs))"

lemma listing_simps [simp]:
  "listing F [] = []"
  "listing F ((nm, n) # objs) =
    (if listed (nm, n) then list_line n (node_size F n) nm @ listing F objs else listing F objs)"
  by (simp_all add: listing_def)

lemma num_len_loop_1 [simp]: "num_len_loop 1 s = 1"
  by (subst num_len_loop.simps) simp

lemma length_list_line: "length (list_line n k nm) = length nm + length (dec_nat k) + 6"
  by (cases n) (simp_all add: list_line_def)

lemma dec_nat_length_pos: "0 < length (dec_nat k)"
  by simp

text \<open>When every entry can be examined, the loop only appends lines.\<close>

lemma list_loop_small:
  assumes "\<forall>(nm, n) \<in> set objs. listed (nm, n) \<longrightarrow> get_file_size F p nm = Inr (node_size F n, 1)"
    and "length buf + length (listing F objs) < buff_size"
  shows "list_loop F p objs buff_size buf = Inr (buf @ listing F objs)"
  using assms
proof (induction objs arbitrary: buf)
  case (Cons obj objs)
  obtain nm n where obj: "obj = (nm, n)" by (cases obj)
  show ?case
  proof (cases "listed (nm, n)")
    case True
    let ?l = "list_line n (node_size F n) nm"
    have size: "get_file_size F p nm = Inr (node_size F n, 1)" using Cons.prems(1) True obj by auto
    have fit: "length buf + length ?l + length (listing F objs) < buff_size"
      using Cons.prems(2) True obj by simp
    then have "\<not> buff_size \<le> length nm + length buf + unat (1 :: u16) + 4"
      using dec_nat_length_pos [of "node_size F n"] unfolding length_list_line by simp
    then have "list_loop F p (obj # objs) buff_size buf = list_loop F p objs buff_size (buf @ ?l)"
      using True size fit by (simp add: obj Let_def)
    also have "\<dots> = Inr ((buf @ ?l) @ listing F objs)"
      using Cons.prems(1) fit by (intro Cons.IH) auto
    finally show ?thesis using True by (simp add: obj)
  next
    case False
    then show ?thesis using Cons obj by auto
  qed
qed simp

lemma digit_char_nul: "d < 10 \<Longrightarrow> digit_char d \<noteq> CHR 0x00"
proof
  assume "d < 10" "digit_char d = CHR 0x00"
  then have "digit_val (CHR 0x00) = Some d" by (metis digit_val_digit_char)
  then show False by (simp add: digit_val_def)
qed

lemma nul_free_dec_nat: "nul_free (dec_nat k)"
proof -
  obtain ds where "dec_nat k = map digit_char ds" "\<forall>d \<in> set ds. d < 10"
    using dec_nat_digits by blast
  then show ?thesis using digit_char_nul unfolding nul_free_def set_map by fastforce
qed

lemma nul_free_listing:
  "\<forall>(nm, n) \<in> set objs. nul_free nm \<Longrightarrow> nul_free (listing F objs)"
proof (induction objs)
  case (Cons obj objs)
  obtain nm n where obj: "obj = (nm, n)" by (cases obj)
  have "nul_free (list_line n (node_size F n) nm)"
    using Cons.prems nul_free_dec_nat obj by (cases n) (simp_all add: list_line_def)
  then show ?case using Cons obj by auto
qed simp

lemma children_lookup:
  assumes "wf_fs F" and "(nm, n) \<in> set (children F d)"
  shows "lookup F (d @ [nm]) = Some n" and "valid_name nm"
proof -
  obtain p where p: "(p, n) \<in> set (fs_nodes F)" "p \<noteq> []" "butlast p = d" "last p = nm"
    using assms(2) by (auto simp: children_def)
  then have "p = d @ [nm]" using append_butlast_last_id [of p] by simp
  moreover have "map_of (fs_nodes F) p = Some n"
    using assms(1) p(1) by (intro map_of_is_SomeI) (simp_all add: wf_fs_def)
  ultimately show "lookup F (d @ [nm]) = Some n" by (simp add: lookup_def)
  then show "valid_name nm" using wf_fs_lookup(1) [OF assms(1)] by fastforce
qed

lemma get_file_size_child:
  assumes "wf_fs F" and "d \<noteq> []" and "(nm, n) \<in> set (children F d)" and "listed (nm, n)"
    and "length (render (d @ [nm])) < PATH_MAX"
  shows "get_file_size F \<lparr>p_path = render d\<rparr> nm = Inr (node_size F n, 1)"
proof -
  have "not_link n" using assms(4) by (auto simp: listed_def split: node.splits)
  then have "stat F (render (d @ [nm])) = Inr n"
    using stat_canonical [OF assms(1) children_lookup(1) [OF assms(1, 3)]] assms(5) by simp
  then show ?thesis using assms(2, 5) by (simp add: get_file_size_def render_snoc Let_def)
qed

lemma f_list_dir_small:
  assumes "wf_fs F" and "is_dir F d" and "d \<noteq> []" and "fs_denied F = []"
    and "length (render d) + NAME_MAX + 1 < PATH_MAX"
    and "length (listing F (children F d)) < 1024"
  shows "f_list_dir sha F (Some \<lparr>p_path = render d\<rparr>) =
    (let text = str_bytes (listing F (children F d)) in
     Inr (Some \<lparr>fc_hash = \<lparr>h_size = SHA256_DIGEST_LENGTH, h_array = take SHA256_DIGEST_LENGTH (sha text)\<rparr>,
            fc_stream = text, fc_stream_size = length text, fc_path = render d\<rparr>, OP_SUCCESS))"
proof -
  let ?cs = "children F d"
  have can: "namei F False (render d) = Inr d" "stat F (render d) = Inr Dir"
    using namei_canonical [OF assms(1), of d Dir] stat_canonical [OF assms(1), of d Dir] assms(2, 5)
    by (simp_all add: is_dir_def)
  have valid: "valid_name nm" if "(nm, n) \<in> set ?cs" for nm n
    by (rule children_lookup(2) [OF assms(1) that])
  have "\<forall>(nm, n) \<in> set ?cs. listed (nm, n) \<longrightarrow>
      get_file_size F \<lparr>p_path = render d\<rparr> nm = Inr (node_size F n, 1)"
  proof (clarify)
    fix nm n assume c: "(nm, n) \<in> set ?cs" "listed (nm, n)"
    have "length (render (d @ [nm])) < PATH_MAX"
      using valid [OF c(1)] assms(3, 5) by (simp add: render_snoc valid_name_def)
    then show "get_file_size F \<lparr>p_path = render d\<rparr> nm = Inr (node_size F n, 1)"
      by (rule get_file_size_child [OF assms(1, 3) c])
  qed
  then have "list_loop F \<lparr>p_path = render d\<rparr> ((''.'', Dir) # (''..'', Dir) # ?cs) 1024 [] =
      Inr (listing F ?cs)"
    using list_loop_small [of ?cs F "\<lparr>p_path = render d\<rparr>" "[]" 1024] assms(6) by (simp add: listed_def)
  moreover have "nul_free (listing F ?cs)"
    by (intro nul_free_listing) (auto dest: valid simp: valid_name_def)
  then have "takeWhile (\<lambda>c. c \<noteq> CHR 0x00) (listing F ?cs) = listing F ?cs"
    by (intro takeWhile_eq_all_conv [THEN iffD2]) (auto simp: nul_free_def)
  ultimately show ?thesis using can assms(2, 4)
    by (simp add: f_list_dir_def opendir_def hash_byte_array_def Let_def
        del: list_loop.simps takeWhile_eq_all_conv)
qed


lemma sample_listing:
  shows "listing sample_fs (children sample_fs [''srv'', ''home'']) =
      ''[F]:2:a'' @ [CHR 0x0A] @ ''[D]:4096:docs'' @ [CHR 0x0A]"
    and "is_dir sample_fs [''srv'', ''home'']" and "fs_denied sample_fs = []" and "render [''srv'', ''home''] = ''/srv/home''"
proof -
  have two: "dec_nat (Suc (Suc 0)) = ''2''" by code_simp
  show "listing sample_fs (children sample_fs [''srv'', ''home'']) =
      ''[F]:2:a'' @ [CHR 0x0A] @ ''[D]:4096:docs'' @ [CHR 0x0A]"
    by (simp add: two children_def sample_fs_def listed_def list_line_def node_size_def
        dec_nat.simps [of "numeral k" for k] DB_DIR_def DB_HASH_def DB_NAME_def)
  show "is_dir sample_fs [''srv'', ''home'']" "fs_denied sample_fs = []" "render [''srv'', ''home''] = ''/srv/home''"
    by (simp_all add: sample_fs_def lookup_def is_dir_def render_def)
qed


text \<open>An entry whose line does not fit, although its name and one digit do, overruns the
  buffer.
\<close>

theorem list_dir_overflow:
  assumes "listed (d_name, n)" and "get_file_size F p d_name = Inr (file_size, num_len)"
    and "num_len \<le> 1"
    and "length buf + length d_name + unat num_len + 4 < buff_size"
    and "buff_size < length buf + length d_name + length (dec_nat file_size) + 7"
  shows "list_loop F p ((d_name, n) # objs) buff_size buf = Inl Heap_overflow"
  using assms by (simp add: length_list_line Let_def add.commute add.left_commute)

theorem list_dir_overflow_witness:
  "list_loop sample_fs \<lparr>p_path = ''/srv/home''\<rparr> [(''docs'', Dir)] 1024 (replicate 1014 (CHR ''x'')) =
     Inl Heap_overflow"
proof -
  have l: "listed (''docs'', Dir)" "length (dec_nat 4096) = 4"
    by (simp_all add: listed_def DB_DIR_def DB_HASH_def DB_NAME_def dec_nat.simps)
  have "(''docs'', Dir) \<in> set (children sample_fs [''srv'', ''home''])"
    by (simp add: children_def sample_fs_def)
  then have g: "get_file_size sample_fs \<lparr>p_path = ''/srv/home''\<rparr> ''docs'' = Inr (4096, 1)"
    using get_file_size_child [OF home_okD(1) [OF sample_home_ok], of "[''srv'', ''home'']" "''docs''" Dir] l(1)
    by (simp add: sample_fs_def render_def PATH_MAX_def node_size_def)
  define xs where "xs = replicate 1014 (CHR ''x'')"
  have "length xs = 1014" unfolding xs_def by (rule length_replicate)
  then show ?thesis
    unfolding xs_def [symmetric] using list_dir_overflow [OF l(1) g, of xs 1024] l(2) by simp
qed

text \<open>A long request overruns the stack buffer of \<^verbatim>\<open>join_paths\<close>.\<close>

theorem valid_resolve_overflow:
  assumes "CHR ''/'' \<notin> set b" and "b \<noteq> []" and "a \<noteq> []" and "CHR ''/'' \<notin> set a"
    and "PATH_MAX \<le> length h + 1 + length a"
  shows "f_valid_resolve F (Some h) (Some (a @ CHR ''/'' # b)) = Inl Stack_overflow"
proof -
  have "dropWhile (\<lambda>c. c = CHR ''/'') (rev (a @ CHR ''/'' # b)) = rev b @ CHR ''/'' # rev a"
    using assms(1, 2) by (cases b rule: rev_cases) auto
  moreover have "dropWhile (\<lambda>c. c \<noteq> CHR ''/'') (rev b @ CHR ''/'' # rev a) = CHR ''/'' # rev a"
    using assms(1) by (intro dropWhile_neq_append) simp
  moreover have "dropWhile (\<lambda>c. c = CHR ''/'') (CHR ''/'' # rev a) = rev a"
    using assms(3, 4) by (cases a rule: rev_cases) auto
  ultimately have "dirname (a @ CHR ''/'' # b) = a" using assms(3) by (simp add: dirname_def Let_def)
  moreover have "PATH_MAX \<le> length (joined h a)"
    using assms(3-5) by (cases a) (auto simp: joined_def is_abs_def)
  ultimately show ?thesis
    by (simp add: f_valid_resolve_def Let_def join_and_resolve_full)
qed

theorem valid_resolve_overflow_witness:
  "f_valid_resolve sample_fs (Some ''/srv/home'') (Some (replicate 4100 (CHR ''a'') @ ''/b'')) =
     Inl Stack_overflow"
proof -
  define xs where "xs = replicate 4100 (CHR ''a'')"
  have "length xs = 4100" unfolding xs_def by (rule length_replicate)
  moreover have "CHR ''/'' \<notin> set xs" unfolding xs_def set_replicate_conv_if by simp
  ultimately show ?thesis
    unfolding xs_def [symmetric] using valid_resolve_overflow [of "''b''" xs "''/srv/home''" sample_fs]
    by (cases xs) (simp_all add: PATH_MAX_def)
qed

end
