(* ===== verification/Htable.thy ===== *)
theory Htable
  imports Prelude
begin

text \<open>
  The hash table belongs to another project (\<^verbatim>\<open>c_dsa\<close>, fetched by the build): its operations are a
  record of functions that the models of the database and of the sessions take as an argument.
  \<open>htable_laws\<close> is what the code relies on: a table created with an equality as its compare callback
  behaves as a finite map, and the iterator visits every entry once.
\<close>

record ('k, 'v, 't) htable =
  ht_create :: "('k \<Rightarrow> u64) \<Rightarrow> ('k \<Rightarrow> 'k \<Rightarrow> bool) \<Rightarrow> 't"
  ht_get :: "'t \<Rightarrow> 'k \<Rightarrow> 'v option"
  ht_key_exists :: "'t \<Rightarrow> 'k \<Rightarrow> bool"
  ht_set :: "'t \<Rightarrow> 'k \<Rightarrow> 'v \<Rightarrow> 't"
  ht_del :: "'t \<Rightarrow> 'k \<Rightarrow> 'v option \<times> 't"
  ht_entries :: "'t \<Rightarrow> ('k \<times> 'v) list"
  ht_valid :: "'t \<Rightarrow> bool"

text \<open>\<open>ht_valid\<close> singles out the tables the operations build; no definition of the model reads it.\<close>

definition htable_laws :: "('k, 'v, 't) htable \<Rightarrow> bool" where
  "htable_laws T \<longleftrightarrow>
    (\<forall>h. ht_valid T (ht_create T h (=)) \<and> ht_get T (ht_create T h (=)) = Map.empty) \<and>
    (\<forall>t k v. ht_valid T t \<longrightarrow> ht_valid T (ht_set T t k v) \<and>
       ht_get T (ht_set T t k v) = (ht_get T t)(k \<mapsto> v)) \<and>
    (\<forall>t k. ht_valid T t \<longrightarrow> ht_valid T (snd (ht_del T t k)) \<and> fst (ht_del T t k) = ht_get T t k \<and>
       ht_get T (snd (ht_del T t k)) = (ht_get T t)(k := None)) \<and>
    (\<forall>t k. ht_valid T t \<longrightarrow> ht_key_exists T t k = (ht_get T t k \<noteq> None)) \<and>
    (\<forall>t. ht_valid T t \<longrightarrow> distinct (map fst (ht_entries T t)) \<and> map_of (ht_entries T t) = ht_get T t)"

lemma htable_lawsD:
  assumes "htable_laws T"
  shows "ht_valid T (ht_create T h (=))" and "ht_get T (ht_create T h (=)) = Map.empty"
    and "ht_valid T t \<Longrightarrow> ht_valid T (ht_set T t k v)"
    and "ht_valid T t \<Longrightarrow> ht_get T (ht_set T t k v) = (ht_get T t)(k \<mapsto> v)"
    and "ht_valid T t \<Longrightarrow> ht_valid T (snd (ht_del T t k))"
    and "ht_valid T t \<Longrightarrow> fst (ht_del T t k) = ht_get T t k"
    and "ht_valid T t \<Longrightarrow> ht_get T (snd (ht_del T t k)) = (ht_get T t)(k := None)"
    and "ht_valid T t \<Longrightarrow> ht_key_exists T t k = (ht_get T t k \<noteq> None)"
    and "ht_valid T t \<Longrightarrow> distinct (map fst (ht_entries T t))"
    and "ht_valid T t \<Longrightarrow> map_of (ht_entries T t) = ht_get T t"
  using assms unfolding htable_laws_def by blast+

lemma ht_entries_get:
  assumes "htable_laws T" and "ht_valid T t" and "(k, v) \<in> set (ht_entries T t)"
  shows "ht_get T t k = Some v"
  using htable_lawsD(9, 10) [OF assms(1, 2)] assms(3) by (metis map_of_is_SomeI)

text \<open>An association list satisfies the laws; it instantiates the parameter in the witnesses.\<close>

definition alist_htable :: "('k, 'v, ('k \<times> 'v) list) htable" where
  "alist_htable =
    \<lparr>ht_create = (\<lambda>h c. []),
     ht_get = map_of,
     ht_key_exists = (\<lambda>t k. map_of t k \<noteq> None),
     ht_set = (\<lambda>t k v. AList.update k v t),
     ht_del = (\<lambda>t k. (map_of t k, AList.delete k t)),
     ht_entries = (\<lambda>t. t),
     ht_valid = (\<lambda>t. distinct (map fst t))\<rparr>"

lemma alist_htable_laws: "htable_laws alist_htable"
  by (simp add: htable_laws_def alist_htable_def update_conv' delete_conv' distinct_update distinct_delete)

end
