(* ===== verification/Db.thy ===== *)
theory Db
  imports FileApi Utils Htable
begin

text \<open>
  \<^verbatim>\<open>src/server/server_db.c\<close>: the user table, its text form in \<^verbatim>\<open>.cape/.cape.db\<close>, the stored digest in
  \<^verbatim>\<open>.cape/.cape.hash\<close>, and the operations on users. The hash table library and SHA-256 are the
  parameter \<open>L\<close>.
\<close>

section \<open>Data\<close>

record user_account_t =
  ua_username :: string
  ua_permission :: u32
  ua_hash :: hash_t

type_synonym 'u user_table = "(string, user_account_t, 'u) htable"
type_synonym 's sesh_table = "(u32, int, 's) htable"

text \<open>Sessions map an identifier to the time of the last request.\<close>

record ('u, 's) lib =
  lib_users :: "'u user_table"
  lib_sesh :: "'s sesh_table"
  lib_sha256 :: "bytes \<Rightarrow> bytes"
  lib_init_hash :: u64
  lib_hash_key :: "u64 \<Rightarrow> bytes \<Rightarrow> u64"

text \<open>What the code relies on: the tables are maps, and a SHA-256 digest has 32 bytes.\<close>

definition lib_ok :: "('u, 's) lib \<Rightarrow> bool" where
  "lib_ok L \<longleftrightarrow> htable_laws (lib_users L) \<and> htable_laws (lib_sesh L) \<and>
     (\<forall>bs. length (lib_sha256 L bs) = SHA256_DIGEST_LENGTH)"

record ('u, 's) db_t =
  users_htable :: 'u
  sesh_htable :: 's
  p_home_dir :: "verified_path_t option"
  db_debug :: bool

definition MAX_USERNAME_LEN :: nat where "MAX_USERNAME_LEN = 20"
definition MIN_USERNAME_LEN :: nat where "MIN_USERNAME_LEN = 3"
definition MAX_PASSWD_LEN :: nat where "MAX_PASSWD_LEN = 32"
definition MIN_PASSWD_LEN :: nat where "MIN_PASSWD_LEN = 6"
definition SHA256_DIGEST_LEN :: nat where "SHA256_DIGEST_LEN = 64"

definition perm_READ :: u32 where "perm_READ = 1"
definition perm_READ_WRITE :: u32 where "perm_READ_WRITE = 2"
definition perm_ADMIN :: u32 where "perm_ADMIN = 3"

definition DEFAULT_USER :: string where
  "DEFAULT_USER = ''admin''"

definition DEFAULT_HASH :: string where
  "DEFAULT_HASH = ''5e884898da28047151d0e56f8dc6292773603d0d6aabbdd62a11ef721d1542d8''"

text \<open>The four magic bytes as a little-endian machine stores them.\<close>

definition MAGIC_BYTES :: bytes where
  "MAGIC_BYTES = mem_of True 4 (0xFFAAFABA :: u32)"

section \<open>Callbacks of the tables\<close>

definition db_hash_callback :: "('u, 's) lib \<Rightarrow> string \<Rightarrow> u64" where
  "db_hash_callback L key = lib_hash_key L (lib_init_hash L) (str_bytes key)"

definition sesh_hash_callback :: "('u, 's) lib \<Rightarrow> u32 \<Rightarrow> u64" where
  "sesh_hash_callback L key = lib_hash_key L (lib_init_hash L) (mem_of True 4 key)"

definition db_compare_callback :: "string \<Rightarrow> string \<Rightarrow> bool" where
  "db_compare_callback left_key right_key \<longleftrightarrow> left_key = right_key"

definition sesh_compare_callback :: "u32 \<Rightarrow> u32 \<Rightarrow> bool" where
  "sesh_compare_callback left_key right_key \<longleftrightarrow> left_key = right_key"

section \<open>Magic bytes\<close>

definition verify_magic :: "file_content_t option \<Rightarrow> bool" where
  "verify_magic p_content =
    (case p_content of
       None \<Rightarrow> False
     | Some c \<Rightarrow>
         if fc_stream_size c < length MAGIC_BYTES then False
         else take (length MAGIC_BYTES) (fc_stream c) = MAGIC_BYTES)"

text \<open>The two readers return whether they succeeded and the content with the magic bytes removed.\<close>

definition get_stored_data :: "file_content_t \<Rightarrow> bool \<times> file_content_t" where
  "get_stored_data c =
    (if \<not> verify_magic (Some c) then (False, c)
     else
       (let magic_size = length MAGIC_BYTES; data_size = fc_stream_size c - magic_size in
        (True, c\<lparr>fc_stream := take data_size (drop magic_size (fc_stream c)), fc_stream_size := data_size\<rparr>)))"

definition get_stored_hash :: "file_content_t \<Rightarrow> bool \<times> file_content_t" where
  "get_stored_hash c =
    (if \<not> verify_magic (Some c) then (False, c)
     else if fc_stream_size c \<noteq> SHA256_DIGEST_LENGTH + length MAGIC_BYTES then (False, c)
     else get_stored_data c)"

section \<open>Reading the table\<close>

text \<open>
  \<^verbatim>\<open>sscanf(segment, "%20[^:]:%hhu:%64[^\n]", \<dots>)\<close>, scanning on demand. The segment is a part of a buffer
  that has no terminator of its own, so a scan that needs a character beyond it reads out of bounds.
\<close>

fun scan_set :: "nat option \<Rightarrow> (char \<Rightarrow> bool) \<Rightarrow> bytes \<Rightarrow> (string \<times> bytes) run" where
  "scan_set w P [] = (if w = Some 0 then Inr ([], []) else Inl Oob_read)"
| "scan_set w P (b # bs) =
    (if w = Some 0 then Inr ([], b # bs)
     else if b \<noteq> 0 \<and> P (chr_of b) then
       rbind (scan_set (map_option (\<lambda>n. n - 1) w) P bs) (\<lambda>(s, r). Inr (chr_of b # s, r))
     else Inr ([], b # bs))"

definition scan_lit :: "char \<Rightarrow> bytes \<Rightarrow> bytes option run" where
  "scan_lit c bs =
    (case bs of [] \<Rightarrow> Inl Oob_read | b # r \<Rightarrow> Inr (if b = byte_of c then Some r else None))"

definition is_digit :: "char \<Rightarrow> bool" where
  "is_digit c \<longleftrightarrow> digit_val c \<noteq> None"

definition dec_value :: "string \<Rightarrow> nat" where
  "dec_value s = num_of_digits 0 (map (\<lambda>c. the (digit_val c)) s)"

text \<open>\<^verbatim>\<open>%hhu\<close>: white space, a sign, digits; the number is converted to an unsigned char.\<close>

definition scan_hhu :: "bytes \<Rightarrow> (u8 \<times> bytes) option run" where
  "scan_hhu bs =
    rbind (scan_set None is_space bs) (\<lambda>(_, bs).
    rbind (scan_set (Some 1) (\<lambda>c. c = CHR ''+'' \<or> c = CHR ''-'') bs) (\<lambda>(sign, bs).
    rbind (scan_set None is_digit bs) (\<lambda>(ds, bs).
      Inr (if ds = [] then None
           else
             (let v = word_of_nat (min (dec_value ds) (2 ^ 64 - 1)) in
              Some (if sign = ''-'' then - v else v, bs))))))"

definition db_scan :: "bytes \<Rightarrow> (string \<times> u8 \<times> string) scan run" where
  "db_scan seg =
    (case seg of
       [] \<Rightarrow> Inl Oob_read
     | b # _ \<Rightarrow>
         if b = 0 then Inr Scan_eof
         else
           rbind (scan_set (Some MAX_USERNAME_LEN) (\<lambda>c. c \<noteq> CHR '':'') seg) (\<lambda>(username, r).
             if username = [] then Inr Scan_fail
             else rbind (scan_lit (CHR '':'') r) (\<lambda>r.
               case r of
                 None \<Rightarrow> Inr Scan_fail
               | Some r \<Rightarrow> rbind (scan_hhu r) (\<lambda>n.
                   case n of
                     None \<Rightarrow> Inr Scan_fail
                   | Some (perm, r) \<Rightarrow> rbind (scan_lit (CHR '':'') r) (\<lambda>r.
                       case r of
                         None \<Rightarrow> Inr Scan_fail
                       | Some r \<Rightarrow>
                           rbind (scan_set (Some SHA256_DIGEST_LEN) (\<lambda>c. c \<noteq> CHR 0x0A) r)
                             (\<lambda>(pw_hash, _).
                               Inr (if pw_hash = [] then Scan_fail
                                    else Scan_ok (username, perm, pw_hash))))))))"

text \<open>
  \<^verbatim>\<open>memchr(segment, '\n', n)\<close> and the step over the newline. Without a newline in \<open>n\<close> bytes the result
  is the pointer \<^verbatim>\<open>NULL + 1\<close>, here \<open>None\<close>; when the buffer ends before \<open>n\<close> bytes the search leaves it.
\<close>

definition next_segment :: "bytes \<Rightarrow> nat \<Rightarrow> bytes option run" where
  "next_segment seg n =
    (let nl = byte_of (CHR 0x0A) in
     if nl \<in> set (take n seg) then Inr (Some (tl (dropWhile (\<lambda>b. b \<noteq> nl) seg)))
     else if n \<le> length seg then Inr None
     else Inl Oob_read)"

lemma next_segment_shorter: "next_segment seg n = Inr (Some r) \<Longrightarrow> length r < length seg"
proof -
  assume "next_segment seg n = Inr (Some r)"
  then have "byte_of (CHR 0x0A) \<in> set seg" and r: "r = tl (dropWhile (\<lambda>b. b \<noteq> byte_of (CHR 0x0A)) seg)"
    by (auto simp: next_segment_def Let_def split: if_splits dest: in_set_takeD)
  then have "seg \<noteq> []" by auto
  then show ?thesis using length_dropWhile_le [of "\<lambda>b. b \<noteq> byte_of (CHR 0x0A)" seg] r
    by (cases "dropWhile (\<lambda>b. b \<noteq> byte_of (CHR 0x0A)) seg") auto
qed

text \<open>The loop returns the C result and the table it has filled so far.\<close>

function populate_loop ::
  "('u, 's) lib \<Rightarrow> 'u \<Rightarrow> bytes option \<Rightarrow> nat \<Rightarrow> nat \<Rightarrow> (int \<times> 'u) run" where
  "populate_loop L t segment total_read stream_size =
    (if total_read < stream_size then
       (case segment of
          None \<Rightarrow> Inl Null_deref
        | Some seg \<Rightarrow>
            rbind (db_scan seg) (\<lambda>res.
              case res of
                Scan_eof \<Rightarrow> Inr (0, t)
              | Scan_fail \<Rightarrow> Inr (- 1, t)
              | Scan_ok (username, perm, pw_hash) \<Rightarrow>
                  rbind (hex_char_to_byte_array (Some pw_hash) (length pw_hash)) (\<lambda>p_hash.
                    case p_hash of
                      None \<Rightarrow> Inr (- 1, t)
                    | Some h \<Rightarrow>
                        rbind (next_segment seg stream_size) (\<lambda>segment'.
                          populate_loop L
                            (ht_set (lib_users L) t username
                               \<lparr>ua_username = username, ua_permission = ucast perm, ua_hash = h\<rparr>)
                            segment'
                            (total_read + 4 + length username + length pw_hash)
                            stream_size))))
     else Inr (0, t))"
  by pat_completeness auto
termination
  by (relation "measure (\<lambda>(L, t, s, r, n). case s of None \<Rightarrow> 0 | Some seg \<Rightarrow> Suc (length seg))")
    (auto dest: next_segment_shorter split: option.splits)

declare populate_loop.simps [simp del]

definition populate_htable :: "('u, 's) lib \<Rightarrow> 'u \<Rightarrow> file_content_t \<Rightarrow> (int \<times> 'u) run" where
  "populate_htable L p_htable p_contents =
    populate_loop L p_htable (Some (fc_stream p_contents)) 0 (fc_stream_size p_contents)"

section \<open>Writing the table\<close>

text \<open>
  \<open>hash_text\<close> is the inner loop of \<^verbatim>\<open>db_update_db\<close>: it prints the digest into a stack buffer of 65
  bytes.
\<close>

definition hash_text :: "hash_t \<Rightarrow> string run" where
  "hash_text h =
    (if length (h_array h) < h_size h then Inl Oob_read
     else if SHA256_DIGEST_LEN < 2 * h_size h then Inl Stack_overflow
     else Inr (hex_string (take (h_size h) (h_array h))))"

definition db_line :: "user_account_t \<Rightarrow> string \<Rightarrow> string" where
  "db_line p_acct pw_hash =
    ua_username p_acct @ '':'' @ dec_nat (unat (ucast (ua_permission p_acct) :: u8)) @ '':'' @ pw_hash @
    [CHR 0x0A]"

text \<open>The first loop sizes the buffer: per account its name, its digest in hexadecimal, and 5 bytes.\<close>

definition db_char_count :: "user_account_t list \<Rightarrow> nat" where
  "db_char_count accts =
    4 + sum_list (map (\<lambda>a. length (ua_username a) + h_size (ua_hash a) * 2 + 5) accts)"

text \<open>The second loop fills it; a line and the terminator of \<^verbatim>\<open>sprintf\<close> must fit.\<close>

fun db_fill :: "nat \<Rightarrow> bytes \<Rightarrow> user_account_t list \<Rightarrow> bytes run" where
  "db_fill char_count buf [] = Inr buf"
| "db_fill char_count buf (p_acct # accts) =
    rbind (hash_text (ua_hash p_acct)) (\<lambda>pw_hash.
      let line = str_bytes (db_line p_acct pw_hash) in
      if char_count < length buf + length line + 1 then Inl Heap_overflow
      else db_fill char_count (buf @ line) accts)"

text \<open>Every failure after the first stream was closed closes it once more.\<close>

definition update_db_hash ::
  "('u, 's) lib \<Rightarrow> fs \<Rightarrow> verified_path_t option \<Rightarrow> verified_path_t option \<Rightarrow> (verified_path_t option \<times> fs) run"
where
  "update_db_hash L F p_home p_db_file =
    (case f_open_file F p_db_file Mode_r of
       (_, None, _) \<Rightarrow> Inr (None, F)
     | (_, Some h_db_file, _) \<Rightarrow>
         (let file_size = length (file_bytes F h_db_file); p_byte_array = fread_all F h_db_file in
          if length p_byte_array \<noteq> file_size then Inl Double_fclose
          else
            (case hash_byte_array (lib_sha256 L) (Some p_byte_array) of
               None \<Rightarrow> Inl Double_fclose
             | Some p_hash \<Rightarrow>
                 rbind (f_ver_valid_resolve F p_home (Some DB_HASH)) (\<lambda>p_hash_file.
                   case p_hash_file of
                     None \<Rightarrow> Inl Double_fclose
                   | Some hf \<Rightarrow>
                       (case f_open_file F (Some hf) Mode_w of
                          (_, None, _) \<Rightarrow> Inl Double_fclose
                        | (_, Some h_hash_file, F') \<Rightarrow>
                            Inr (Some hf,
                              snd (fwrite_all F' h_hash_file
                                     (MAGIC_BYTES @ take (h_size p_hash) (h_array p_hash)))))))))"

definition db_update_db :: "('u, 's) lib \<Rightarrow> fs \<Rightarrow> ('u, 's) db_t option \<Rightarrow> fs run" where
  "db_update_db L F p_db =
    (case p_db of
       None \<Rightarrow> Inr F
     | Some db \<Rightarrow>
         if db_debug db then Inr F
         else
           (let accts = map snd (ht_entries (lib_users L) (users_htable db));
                char_count = db_char_count accts;
                accounts = length accts
            in rbind (db_fill char_count MAGIC_BYTES accts) (\<lambda>text.
               rbind (f_ver_valid_resolve F (p_home_dir db) (Some DB_NAME)) (\<lambda>p_db_path.
                 case p_db_path of
                   None \<Rightarrow> Inr F
                 | Some path \<Rightarrow>
                     (let p_buffer = text @ replicate (char_count - length text) 0;
                          (status, F') = f_write_file F (Some path) (Some (take (char_count - accounts) p_buffer))
                      in if status = OP_FAILURE then Inr F'
                         else rbind (update_db_hash L F' (p_home_dir db) (Some path))
                                (\<lambda>(_, F''). Inr F''))))))"

section \<open>Creating the files\<close>

definition init_db_file ::
  "fs \<Rightarrow> verified_path_t option \<Rightarrow> (verified_path_t option \<times> fs) run" where
  "init_db_file F p_home =
    rbind (f_ver_valid_resolve F p_home (Some DB_NAME)) (\<lambda>p_db.
      case p_db of
        None \<Rightarrow> Inr (None, F)
      | Some path \<Rightarrow>
          (let array_size = length MAGIC_BYTES + length DEFAULT_USER + 1 + length DEFAULT_HASH + 4;
               line = DEFAULT_USER @ '':'' @ dec_nat (unat perm_ADMIN) @ '':'' @ DEFAULT_HASH @ [CHR 0x0A];
               write_bytes = length line
           in if array_size < 4 + write_bytes + 1 then Inl Heap_overflow
              else if array_size - 4 \<noteq> write_bytes + 1 then Inr (None, F)
              else
                (let p_buffer = MAGIC_BYTES @ str_bytes line @ replicate (array_size - 4 - write_bytes) 0;
                     (status, F') = f_write_file F (Some path) (Some (take (array_size - 1) p_buffer))
                 in if status = OP_FAILURE then Inr (None, F') else Inr (Some path, F'))))"

definition init_db_dir ::
  "fs \<Rightarrow> verified_path_t option \<Rightarrow> (verified_path_t option \<times> fs) run" where
  "init_db_dir F p_home =
    rbind (f_ver_valid_resolve F p_home (Some DB_DIR)) (\<lambda>p_db_dir.
      case p_db_dir of
        None \<Rightarrow> Inr (None, F)
      | Some path \<Rightarrow>
          (let (status, F') = f_create_dir F (Some path) in
           if status = OP_FAILURE then Inr (None, F') else Inr (Some path, F')))"

section \<open>Starting the database\<close>

text \<open>The second half of \<^verbatim>\<open>db_init\<close>: reading and checking the two files.\<close>

definition db_load ::
  "('u, 's) lib \<Rightarrow> fs \<Rightarrow> verified_path_t option \<Rightarrow> verified_path_t option \<Rightarrow> verified_path_t option \<Rightarrow>
     ('u, 's) db_t option run" where
  "db_load L F p_home p_hash_file p_db_file =
    rbind (f_read_file (lib_sha256 L) F p_db_file) (\<lambda>(p_db_contents, _).
    case p_db_contents of
      None \<Rightarrow> Inr None
    | Some dbc \<Rightarrow>
        rbind (f_read_file (lib_sha256 L) F p_hash_file) (\<lambda>(p_hash_contents, _).
        case p_hash_contents of
          None \<Rightarrow> Inr None
        | Some hc \<Rightarrow>
            (let (stored, hc) = get_stored_hash hc in
             if \<not> stored then Inr None
             else
               rbind (hash_bytes_match (Some (fc_hash dbc)) (Some (fc_stream hc))) (\<lambda>same.
                 if \<not> same then Inr None
                 else
                   (let (stored, dbc) = get_stored_data dbc in
                    if \<not> stored then Inr None
                    else
                      rbind (populate_htable L
                               (ht_create (lib_users L) (db_hash_callback L) db_compare_callback) dbc)
                        (\<lambda>(res, htable).
                          Inr (if res = - 1 then None
                               else Some \<lparr>users_htable = htable,
                                      sesh_htable =
                                        ht_create (lib_sesh L) (sesh_hash_callback L) sesh_compare_callback,
                                      p_home_dir = p_home, db_debug = False\<rparr>)))))))"

definition db_init ::
  "('u, 's) lib \<Rightarrow> fs \<Rightarrow> verified_path_t option \<Rightarrow> (('u, 's) db_t option \<times> fs) run" where
  "db_init L F p_home =
    rbind (f_ver_path_resolve F p_home (Some DB_DIR)) (\<lambda>p_db_dir.
    rbind (if p_db_dir = None then init_db_dir F p_home else Inr (p_db_dir, F)) (\<lambda>(p_db_dir, F).
    if p_db_dir = None then Inr (None, F)
    else
      rbind (f_ver_path_resolve F p_home (Some DB_HASH)) (\<lambda>p_hash_file.
      rbind (f_ver_path_resolve F p_home (Some DB_NAME)) (\<lambda>p_db_file.
        if p_hash_file = None \<and> p_db_file = None then
          rbind (init_db_file F p_home) (\<lambda>(p_db_file, F).
            if p_db_file = None then Inr (None, F)
            else
              rbind (update_db_hash L F p_home p_db_file) (\<lambda>(p_hash_file, F).
                if p_hash_file = None then Inr (None, F)
                else rbind (db_load L F p_home p_hash_file p_db_file) (\<lambda>db. Inr (db, F))))
        else if p_hash_file = None \<or> p_db_file = None then Inr (None, F)
        else rbind (db_load L F p_home p_hash_file p_db_file) (\<lambda>db. Inr (db, F))))))"

section \<open>Operations on users\<close>

definition db_remove_user ::
  "('u, 's) lib \<Rightarrow> fs \<Rightarrow> ('u, 's) db_t option \<Rightarrow> string option \<Rightarrow>
     (ret_codes_t \<times> ('u, 's) db_t option \<times> fs) run" where
  "db_remove_user L F p_db username =
    (case (p_db, username) of
       (Some db, Some name) \<Rightarrow>
         (case ht_del (lib_users L) (users_htable db) name of
            (None, t) \<Rightarrow> Inr (OP_USER_NO_EXIST, Some (db\<lparr>users_htable := t\<rparr>), F)
          | (Some p_user, t) \<Rightarrow>
              (let db' = db\<lparr>users_htable := t\<rparr> in
               rbind (db_update_db L F (Some db')) (\<lambda>F'. Inr (OP_SUCCESS, Some db', F'))))
     | _ \<Rightarrow> Inr (OP_FAILURE, p_db, F))"

definition db_create_user ::
  "('u, 's) lib \<Rightarrow> fs \<Rightarrow> ('u, 's) db_t option \<Rightarrow> string option \<Rightarrow> string option \<Rightarrow> u32 \<Rightarrow>
     (ret_codes_t \<times> ('u, 's) db_t option \<times> fs) run" where
  "db_create_user L F p_db username passwd permission =
    (case (p_db, username, passwd) of
       (Some db, Some name, Some pw) \<Rightarrow>
         if length pw > MAX_PASSWD_LEN \<or> length pw < MIN_PASSWD_LEN \<or>
            length name > MAX_USERNAME_LEN \<or> length name < MIN_USERNAME_LEN
         then Inr (OP_CRED_RULE_ERROR, p_db, F)
         else if ht_key_exists (lib_users L) (users_htable db) name then Inr (OP_USER_EXISTS, p_db, F)
         else
           (case hash_byte_array (lib_sha256 L) (Some (str_bytes pw)) of
              None \<Rightarrow> Inr (OP_FAILURE, p_db, F)
            | Some p_hash \<Rightarrow>
                (let p_acct = \<lparr>ua_username = name, ua_permission = permission, ua_hash = p_hash\<rparr>;
                     db' = db\<lparr>users_htable := ht_set (lib_users L) (users_htable db) name p_acct\<rparr>
                 in rbind (db_update_db L F (Some db')) (\<lambda>F'. Inr (OP_SUCCESS, Some db', F'))))
     | _ \<Rightarrow> Inr (OP_FAILURE, p_db, F))"

text \<open>The second component is what \<^verbatim>\<open>*pp_user\<close> holds after the call, which starts as NULL.\<close>

definition db_authenticate_user ::
  "('u, 's) lib \<Rightarrow> ('u, 's) db_t option \<Rightarrow> string option \<Rightarrow> string option \<Rightarrow>
     (ret_codes_t \<times> user_account_t option) run" where
  "db_authenticate_user L p_db username passwd =
    (case (p_db, username) of
       (Some db, Some name) \<Rightarrow>
         (case passwd of
            None \<Rightarrow> Inr (OP_USER_AUTH, None)
          | Some pw \<Rightarrow>
              (case ht_get (lib_users L) (users_htable db) name of
                 None \<Rightarrow> Inr (OP_USER_AUTH, None)
               | Some user \<Rightarrow>
                   (case hash_byte_array (lib_sha256 L) (Some (str_bytes pw)) of
                      None \<Rightarrow> Inr (OP_FAILURE, Some user)
                    | Some p_pw_hash \<Rightarrow>
                        rbind (hash_hash_t_match (Some (ua_hash user)) (Some p_pw_hash)) (\<lambda>auth.
                          Inr (if auth then (OP_SUCCESS, Some user) else (OP_USER_AUTH, None))))))
     | _ \<Rightarrow> Inr (OP_FAILURE, None))"

text \<open>Shutting down writes the table a last time; the rest releases memory.\<close>

definition db_shutdown :: "('u, 's) lib \<Rightarrow> fs \<Rightarrow> ('u, 's) db_t option \<Rightarrow> (('u, 's) db_t option \<times> fs) run" where
  "db_shutdown L F pp_db =
    (case pp_db of
       None \<Rightarrow> Inr (None, F)
     | Some db \<Rightarrow> rbind (db_update_db L F (Some db)) (\<lambda>F'. Inr (None, F')))"

section \<open>Scanning one line\<close>

text \<open>
  \<open>user_fmt\<close>: the account prints in the space reserved for it. \<open>user_ok\<close>: the line can be read back.
\<close>

definition user_fmt :: "user_account_t \<Rightarrow> bool" where
  "user_fmt a \<longleftrightarrow>
    unat (ua_permission a) < 10 \<and> hash_ok (ua_hash a) \<and> h_size (ua_hash a) = SHA256_DIGEST_LENGTH"

definition user_ok :: "user_account_t \<Rightarrow> bool" where
  "user_ok a \<longleftrightarrow>
    ua_username a \<noteq> [] \<and> length (ua_username a) \<le> MAX_USERNAME_LEN \<and>
    (\<forall>c \<in> set (ua_username a). c \<noteq> CHR '':'' \<and> c \<noteq> CHR 0x0A \<and> c \<noteq> CHR 0x00) \<and> user_fmt a"

lemma user_ok_fmt: "user_ok a \<Longrightarrow> user_fmt a"
  by (simp add: user_ok_def)

lemma users_ok_fmt: "list_all user_ok as \<Longrightarrow> list_all user_fmt as"
  by (auto simp: list_all_iff user_ok_fmt)

lemma scan_set_all:
  assumes "\<forall>c \<in> set s. P c \<and> c \<noteq> CHR 0x00"
    and "case w of None \<Rightarrow> True | Some n \<Rightarrow> length s \<le> n"
    and "w = Some (length s) \<or> b = 0 \<or> \<not> P (chr_of b)"
  shows "scan_set w P (str_bytes s @ b # r) = Inr (s, b # r)"
  using assms
proof (induction s arbitrary: w)
  case Nil
  then have "w = Some 0 \<or> b = 0 \<or> \<not> P (chr_of b)" by simp
  then show ?case by (elim disjE) (simp_all add: str_bytes_def)
next
  case (Cons c s)
  have "w \<noteq> Some 0" using Cons.prems(2) by auto
  moreover have "scan_set (map_option (\<lambda>n. n - 1) w) P (str_bytes s @ b # r) = Inr (s, b # r)"
  proof (rule Cons.IH)
    show "\<forall>c \<in> set s. P c \<and> c \<noteq> CHR 0x00" using Cons.prems(1) by simp
    show "case map_option (\<lambda>n. n - 1) w of None \<Rightarrow> True | Some n \<Rightarrow> length s \<le> n"
      using Cons.prems(2) by (cases w) simp_all
    show "map_option (\<lambda>n. n - 1) w = Some (length s) \<or> b = 0 \<or> \<not> P (chr_of b)"
      using Cons.prems(3) by (cases w) auto
  qed
  ultimately show ?case using Cons.prems(1) by (simp add: str_bytes_def byte_of_eq_0_iff)
qed

lemma str_bytes_Cons: "str_bytes (c # s) = byte_of c # str_bytes s"
  by (simp add: str_bytes_def)

lemma str_bytes_Nil [simp]: "str_bytes [] = []"
  by (simp add: str_bytes_def)

lemma digit_char_chars:
  "list_all (\<lambda>d. \<not> is_space (digit_char d) \<and> digit_char d \<noteq> CHR ''+'' \<and> digit_char d \<noteq> CHR ''-'' \<and>
     digit_char d \<noteq> CHR 0x00 \<and> digit_char d \<noteq> CHR 0x0A \<and> digit_char d \<noteq> CHR '':'') [0..<10]"
  by code_simp

lemma digit_char_simps [simp]:
  assumes "d < 10"
  shows "\<not> is_space (digit_char d)" "digit_char d \<noteq> CHR ''+''" "digit_char d \<noteq> CHR ''-''"
    "digit_char d \<noteq> CHR 0x00" "digit_char d \<noteq> CHR 0x0A" "digit_char d \<noteq> CHR '':''"
  using digit_char_chars assms by (auto simp: list_all_iff)

lemma byte_of_inject [simp]: "byte_of c = byte_of d \<longleftrightarrow> c = d"
  by (metis chr_of_byte_of)

lemma is_digit_colon: "\<not> is_digit (CHR '':'')"
  by (simp add: is_digit_def digit_val_def)

lemma is_space_colon: "\<not> is_space (CHR '':'')"
  by (simp add: is_space_def)

lemma scan_hhu_digit:
  assumes "d < 10"
  shows "scan_hhu (byte_of (digit_char d) # byte_of (CHR '':'') # r) =
    Inr (Some (word_of_nat d, byte_of (CHR '':'') # r))"
proof -
  have nz: "byte_of (digit_char d) \<noteq> 0" "byte_of (CHR '':'') \<noteq> 0"
    using assms by (simp_all add: byte_of_eq_0_iff)
  have dig: "is_digit (digit_char d)" using assms by (simp add: is_digit_def)
  have "dec_value [digit_char d] = d" using assms by (simp add: dec_value_def)
  then show ?thesis
    using assms nz dig by (simp add: scan_hhu_def is_digit_colon)
qed

lemma db_line_eq:
  assumes "user_fmt a"
  shows "db_line a (hex_string (h_array (ua_hash a))) =
    ua_username a @ CHR '':'' # digit_char (unat (ua_permission a)) # CHR '':'' #
      hex_string (h_array (ua_hash a)) @ [CHR 0x0A]"
proof -
  have p: "unat (ua_permission a) < 10" using assms by (simp add: user_fmt_def)
  then have "unat (ucast (ua_permission a) :: u8) = unat (ua_permission a)"
    by (simp add: unsigned_ucast_eq take_bit_nat_eq_self)
  with p show ?thesis by (simp add: db_line_def dec_nat_small)
qed

lemma db_scan_line:
  assumes "user_ok a"
  shows "db_scan (str_bytes (db_line a (hex_string (h_array (ua_hash a)))) @ rest) =
    Inr (Scan_ok (ua_username a, ucast (ua_permission a), hex_string (h_array (ua_hash a))))"
proof -
  let ?u = "ua_username a" and ?d = "unat (ua_permission a)" and ?x = "hex_string (h_array (ua_hash a))"
  let ?r3 = "str_bytes ?x @ byte_of (CHR 0x0A) # rest"
  let ?r2 = "byte_of (digit_char ?d) # byte_of (CHR '':'') # ?r3"
  have u: "?u \<noteq> []" "length ?u \<le> MAX_USERNAME_LEN" "\<forall>c \<in> set ?u. c \<noteq> CHR '':'' \<and> c \<noteq> CHR 0x0A \<and> c \<noteq> CHR 0x00"
    and d: "?d < 10" and h: "length (h_array (ua_hash a)) = SHA256_DIGEST_LENGTH"
    using assms by (simp_all add: user_ok_def user_fmt_def hash_ok_def)
  have bytes: "str_bytes (db_line a ?x) @ rest = str_bytes ?u @ byte_of (CHR '':'') # ?r2"
    by (simp add: db_line_eq [OF user_ok_fmt [OF assms]] str_bytes_Cons)
  have s1: "scan_set (Some MAX_USERNAME_LEN) (\<lambda>c. c \<noteq> CHR '':'') (str_bytes ?u @ byte_of (CHR '':'') # ?r2) =
      Inr (?u, byte_of (CHR '':'') # ?r2)"
    by (rule scan_set_all) (use u in auto)
  have s2: "scan_hhu ?r2 = Inr (Some (word_of_nat ?d, byte_of (CHR '':'') # ?r3))"
    by (rule scan_hhu_digit [OF d])
  have s3: "scan_set (Some SHA256_DIGEST_LEN) (\<lambda>c. c \<noteq> CHR 0x0A) ?r3 = Inr (?x, byte_of (CHR 0x0A) # rest)"
    by (rule scan_set_all)
      (use h in \<open>auto simp: SHA256_DIGEST_LEN_def SHA256_DIGEST_LENGTH_def dest: hex_string_chars\<close>)
  have x: "?x \<noteq> []"
  proof
    assume "?x = []"
    then have "length ?x = 0" by simp
    with h show False by (simp add: SHA256_DIGEST_LENGTH_def)
  qed
  have hd: "str_bytes ?u @ byte_of (CHR '':'') # ?r2 = byte_of (hd ?u) # tl (str_bytes ?u) @ byte_of (CHR '':'') # ?r2"
    using u(1) by (cases ?u) (simp_all add: str_bytes_Cons)
  have nz: "byte_of (hd ?u) \<noteq> 0" using u by (simp add: byte_of_eq_0_iff)
  have w: "word_of_nat ?d = (ucast (ua_permission a) :: u8)" by simp
  have "db_scan (str_bytes ?u @ byte_of (CHR '':'') # ?r2) =
      Inr (Scan_ok (?u, word_of_nat ?d, ?x))"
    unfolding db_scan_def s1 using nz u(1) x
    by (subst hd) (simp add: scan_lit_def s2 s3)
  then show ?thesis unfolding bytes w .
qed

lemma next_segment_line:
  assumes "user_fmt a" and "CHR 0x0A \<notin> set (ua_username a)" and "length (db_line a (hex_string (h_array (ua_hash a)))) \<le> n"
  shows "next_segment (str_bytes (db_line a (hex_string (h_array (ua_hash a)))) @ rest) n = Inr (Some rest)"
proof -
  let ?l = "db_line a (hex_string (h_array (ua_hash a)))" and ?nl = "byte_of (CHR 0x0A)"
  obtain s where s: "?l = s @ [CHR 0x0A]" "CHR 0x0A \<notin> set s"
  proof (rule that)
    show "?l = (ua_username a @ CHR '':'' # digit_char (unat (ua_permission a)) # CHR '':'' #
        hex_string (h_array (ua_hash a))) @ [CHR 0x0A]"
      by (simp add: db_line_eq [OF assms(1)])
    show "CHR 0x0A \<notin> set (ua_username a @ CHR '':'' # digit_char (unat (ua_permission a)) # CHR '':'' #
        hex_string (h_array (ua_hash a)))"
    proof -
      have "CHR 0x0A \<notin> set (hex_string (h_array (ua_hash a)))" using hex_string_chars by blast
      moreover have "unat (ua_permission a) < 10" using assms(1) by (simp add: user_fmt_def)
      moreover note assms(2)
      ultimately show ?thesis
        using digit_char_simps(5) [of "unat (ua_permission a)", THEN not_sym] by simp
    qed
  qed
  have b: "str_bytes ?l @ rest = str_bytes s @ ?nl # rest"
    by (simp add: s(1) str_bytes_Cons)
  have nin: "?nl \<notin> set (str_bytes s)" using s(2) by (auto simp: str_bytes_def)
  have "Suc (length s) \<le> n" using assms(3) s(1) by simp
  then have "set (take (Suc (length s)) (str_bytes s @ ?nl # rest)) \<subseteq> set (take n (str_bytes s @ ?nl # rest))"
    by (rule set_take_subset_set_take)
  moreover have "take (Suc (length s)) (str_bytes s @ ?nl # rest) = str_bytes s @ [?nl]" by simp
  ultimately have "set (str_bytes s @ [?nl]) \<subseteq> set (take n (str_bytes s @ ?nl # rest))"
    by (simp only:)
  then have "?nl \<in> set (take n (str_bytes s @ ?nl # rest))" by simp
  then show ?thesis unfolding b next_segment_def Let_def dropWhile_neq_append [OF nin]
    by (simp only: if_True list.sel)
qed

section \<open>Reading back what was written\<close>

definition db_lines :: "user_account_t list \<Rightarrow> string" where
  "db_lines accts = concat (map (\<lambda>a. db_line a (hex_string (h_array (ua_hash a)))) accts)"

lemma db_lines_simps [simp]:
  "db_lines [] = []"
  "db_lines (a # as) = db_line a (hex_string (h_array (ua_hash a))) @ db_lines as"
  by (simp_all add: db_lines_def)

definition set_users :: "('u, 's) lib \<Rightarrow> user_account_t list \<Rightarrow> 'u \<Rightarrow> 'u" where
  "set_users L accts t = fold (\<lambda>a t. ht_set (lib_users L) t (ua_username a) a) accts t"

lemma length_db_line:
  assumes "user_fmt a"
  shows "length (db_line a (hex_string (h_array (ua_hash a)))) =
    4 + length (ua_username a) + length (hex_string (h_array (ua_hash a)))"
  by (simp add: db_line_eq [OF assms])

lemma hex_read_user:
  assumes "user_ok a"
  shows "hex_char_to_byte_array (Some (hex_string (h_array (ua_hash a))))
    (length (hex_string (h_array (ua_hash a)))) = Inr (Some (ua_hash a))"
proof -
  have "h_size (ua_hash a) = length (h_array (ua_hash a))" and n: "h_size (ua_hash a) = 32"
    using assms by (simp_all add: user_ok_def user_fmt_def hash_ok_def SHA256_DIGEST_LENGTH_def)
  then obtain bs where h: "ua_hash a = \<lparr>h_size = length bs, h_array = bs\<rparr>"
    by (metis hash_t.surjective old.unit.exhaust)
  with n have "bs \<noteq> []" by auto
  from hex_read_back [OF this] show ?thesis unfolding h by simp
qed

lemma populate_loop_prefix:
  assumes "list_all user_ok accts" and "total_read + length (db_lines accts) \<le> stream_size"
  shows "populate_loop L t (Some (str_bytes (db_lines accts) @ rest)) total_read stream_size =
    populate_loop L (set_users L accts t) (Some rest) (total_read + length (db_lines accts)) stream_size"
  using assms
proof (induction accts arbitrary: t total_read)
  case Nil
  then show ?case by (simp add: set_users_def)
next
  case (Cons a as)
  let ?x = "hex_string (h_array (ua_hash a))"
  have a: "user_ok a" using Cons.prems by simp
  then have nl: "CHR 0x0A \<notin> set (ua_username a)" by (auto simp: user_ok_def)
  have len: "length (db_line a ?x) = 4 + length (ua_username a) + length ?x"
    by (rule length_db_line [OF user_ok_fmt [OF a]])
  have acct: "\<lparr>ua_username = ua_username a, ua_permission = ucast (ucast (ua_permission a) :: u8),
      ua_hash = ua_hash a\<rparr> = a"
  proof -
    have "unat (ua_permission a) < 10" using a by (simp add: user_ok_def user_fmt_def)
    then have "ucast (ucast (ua_permission a) :: u8) = ua_permission a"
      by (intro word_unat_eq_iff [THEN iffD2])
        (simp add: unsigned_ucast_eq unsigned_take_bit_eq take_bit_nat_eq_self)
    then show ?thesis by simp
  qed
  have "populate_loop L t (Some (str_bytes (db_lines (a # as)) @ rest)) total_read stream_size =
      populate_loop L (ht_set (lib_users L) t (ua_username a) a) (Some (str_bytes (db_lines as) @ rest))
        (total_read + 4 + length (ua_username a) + length ?x) stream_size"
    using Cons.prems(2) len acct
    by (subst populate_loop.simps)
      (simp add: db_scan_line [OF a] hex_read_user [OF a, simplified] next_segment_line [OF user_ok_fmt [OF a] nl])
  also have "\<dots> = populate_loop L (set_users L as (ht_set (lib_users L) t (ua_username a) a)) (Some rest)
      (total_read + 4 + length (ua_username a) + length ?x + length (db_lines as)) stream_size"
    using Cons.prems len by (intro Cons.IH) simp_all
  finally show ?case using len by (simp add: set_users_def add.assoc)
qed

lemma populate_loop_lines:
  assumes "list_all user_ok accts"
  shows "populate_loop L t (Some (str_bytes (db_lines accts))) 0 (length (db_lines accts)) =
    Inr (0, set_users L accts t)"
  using populate_loop_prefix [OF assms, of 0 "length (db_lines accts)" L t "[]"]
  by (simp add: populate_loop.simps)

lemma set_users_valid:
  assumes "htable_laws (lib_users L)" and "ht_valid (lib_users L) t"
  shows "ht_valid (lib_users L) (set_users L accts t)"
  using assms(2)
proof (induction accts arbitrary: t)
  case (Cons a as)
  then have "ht_valid (lib_users L) (ht_set (lib_users L) t (ua_username a) a)"
    by (intro htable_lawsD(3) [OF assms(1)])
  from Cons.IH [OF this] show ?case by (simp add: set_users_def)
qed (simp add: set_users_def)

lemma set_users_get:
  assumes "htable_laws (lib_users L)" and "ht_valid (lib_users L) t"
  shows "ht_get (lib_users L) (set_users L accts t) =
    ht_get (lib_users L) t ++ map_of (rev (map (\<lambda>a. (ua_username a, a)) accts))"
  using assms(2)
proof (induction accts arbitrary: t)
  case (Cons a as)
  then have "ht_valid (lib_users L) (ht_set (lib_users L) t (ua_username a) a)"
    by (intro htable_lawsD(3) [OF assms(1)])
  from Cons.IH [OF this]
  have "ht_get (lib_users L) (set_users L as (ht_set (lib_users L) t (ua_username a) a)) =
      (ht_get (lib_users L) t)(ua_username a \<mapsto> a) ++ map_of (rev (map (\<lambda>a. (ua_username a, a)) as))"
    unfolding htable_lawsD(4) [OF assms(1) Cons.prems] .
  then show ?case by (simp add: set_users_def)
qed (simp add: set_users_def)

section \<open>Writing\<close>

lemma hash_text_ok: "user_fmt a \<Longrightarrow> hash_text (ua_hash a) = Inr (hex_string (h_array (ua_hash a)))"
  by (simp add: hash_text_def user_fmt_def hash_ok_def SHA256_DIGEST_LENGTH_def SHA256_DIGEST_LEN_def)

lemma db_fill_ok:
  assumes "list_all user_fmt accts" and "length buf + length (db_lines accts) < char_count \<or> accts = []"
  shows "db_fill char_count buf accts = Inr (buf @ str_bytes (db_lines accts))"
  using assms
proof (induction accts arbitrary: buf)
  case (Cons a as)
  then show ?case by (auto simp: hash_text_ok Let_def)
qed simp

lemma db_char_count_eq:
  assumes "list_all user_fmt accts"
  shows "db_char_count accts = 4 + length (db_lines accts) + length accts"
  using assms
  by (induction accts)
    (auto simp: db_char_count_def length_db_line user_fmt_def hash_ok_def SHA256_DIGEST_LENGTH_def)

section \<open>Files with canonical names\<close>

text \<open>What the file API does on a path below existing directories, without failures.\<close>

definition plain_file :: "fs \<Rightarrow> path \<Rightarrow> bool" where
  "plain_file F p \<longleftrightarrow> (case lookup F p of None \<Rightarrow> True | Some (File _) \<Rightarrow> True | _ \<Rightarrow> False)"

definition no_failures :: "fs \<Rightarrow> bool" where
  "no_failures F \<longleftrightarrow> fs_denied F = [] \<and> fs_ioerr F = []"

lemma namei_missing:
  assumes "wf_fs F" and "is_dir F d" and "valid_name c" and "lookup F (d @ [c]) = None"
  shows "namei F False (render (d @ [c])) = Inl (if length (render (d @ [c])) < PATH_MAX then ENOENT else ENAMETOOLONG)"
proof -
  have vd: "list_all valid_name d" using assms(1, 2) by (auto simp: is_dir_def dest: wf_fs_lookup(1))
  then have sp: "split_slash (render (d @ [c])) = [] # d @ [c]"
    using assms(3) by (simp add: split_render)
  have "resolve F False SYMLOOP_MAX [] ([] # d @ [c]) = resolve F False SYMLOOP_MAX d [c]"
    using resolve_append [OF assms(1), of "[]" d Dir] assms(2) by (simp add: is_dir_def resolve.simps(2))
  also have "\<dots> = Inl ENOENT" using assms(2-4) by (simp add: resolve.simps(2) valid_name_def)
  finally show ?thesis by (simp add: namei_def sp)
qed

lemma namei_plain_file:
  assumes "wf_fs F" and "is_dir F d" and "valid_name c" and "length (render (d @ [c])) < PATH_MAX"
    and "plain_file F (d @ [c])"
  shows "namei F True (render (d @ [c])) = Inr (d @ [c])"
proof (cases "lookup F (d @ [c])")
  case None
  then show ?thesis by (rule namei_new [OF assms(1-4)])
next
  case (Some n)
  then show ?thesis using assms(5) namei_canonical [OF assms(1) Some _ assms(4)]
    by (auto simp: plain_file_def split: node.splits)
qed

lemma fopen_w_plain:
  assumes "wf_fs F" and "is_dir F d" and "valid_name c" and "length (render (d @ [c])) < PATH_MAX"
    and "plain_file F (d @ [c])" and "no_failures F"
  shows "fopen_w F (render (d @ [c])) = (Inr (d @ [c]), put_node (d @ [c]) (File []) F)"
  using namei_plain_file [OF assms(1-5)] assms(5, 6)
  by (auto simp: fopen_w_def plain_file_def no_failures_def split: option.splits node.splits)

lemma f_write_file_plain:
  assumes "wf_fs F" and "is_dir F d" and "valid_name c" and "length (render (d @ [c])) < PATH_MAX"
    and "plain_file F (d @ [c])" and "no_failures F"
  shows "f_write_file F (Some \<lparr>p_path = render (d @ [c])\<rparr>) (Some bs) = (OP_SUCCESS, put_node (d @ [c]) (File bs) F)"
  using fopen_w_plain [OF assms] assms(6)
  by (simp add: f_write_file_def f_open_file_def fwrite_all_def no_failures_def)

lemma fopen_r_plain:
  assumes "wf_fs F" and "lookup F p = Some (File bs)" and "length (render p) < PATH_MAX" and "no_failures F"
  shows "f_open_file F (Some \<lparr>p_path = render p\<rparr>) Mode_r = (OP_SUCCESS, Some p, F)"
    and "file_bytes F p = bs" and "fread_all F p = bs"
  using namei_canonical [OF assms(1, 2) _ assms(3)] assms(2, 4)
  by (simp_all add: f_open_file_def fopen_r_def no_failures_def file_bytes_def fread_all_def)

lemma f_read_file_plain:
  assumes "wf_fs F" and "lookup F p = Some (File bs)" and "length (render p) < PATH_MAX" and "no_failures F"
  shows "f_read_file sha F (Some \<lparr>p_path = render p\<rparr>) =
    Inr (Some \<lparr>fc_hash = \<lparr>h_size = SHA256_DIGEST_LENGTH, h_array = take SHA256_DIGEST_LENGTH (sha bs)\<rparr>,
           fc_stream = bs, fc_stream_size = length bs, fc_path = render p\<rparr>, OP_SUCCESS)"
  using fopen_r_plain [OF assms] stat_canonical [OF assms(1, 2) _ assms(3)]
  by (simp add: f_read_file_def hash_byte_array_def)

section \<open>Where the database lives\<close>

definition db_dir :: "path \<Rightarrow> path" where "db_dir hp = hp @ [''.cape'']"
definition db_path :: "path \<Rightarrow> path" where "db_path hp = hp @ [''.cape''] @ [''.cape.db'']"
definition hash_path :: "path \<Rightarrow> path" where "hash_path hp = hp @ [''.cape''] @ [''.cape.hash'']"

lemma db_path_snoc:
  "db_path hp = db_dir hp @ [''.cape.db'']" "hash_path hp = db_dir hp @ [''.cape.hash'']"
  by (simp_all add: db_dir_def db_path_def hash_path_def)

lemma db_paths_distinct [simp]:
  "db_path hp \<noteq> hash_path hp" "hash_path hp \<noteq> db_path hp" "db_dir hp \<noteq> []" "db_path hp \<noteq> []"
  "hash_path hp \<noteq> []" "db_dir hp \<noteq> db_path hp" "db_dir hp \<noteq> hash_path hp" "db_path hp \<noteq> db_dir hp"
  "hash_path hp \<noteq> db_dir hp" "db_path hp \<noteq> hp" "hash_path hp \<noteq> hp" "db_dir hp \<noteq> hp" "hp \<noteq> db_path hp"
  "hp \<noteq> hash_path hp" "hp \<noteq> db_dir hp"
  by (auto simp: db_dir_def db_path_def hash_path_def)

lemma valid_db_names [simp]:
  "valid_name ''.cape''" "valid_name ''.cape.db''" "valid_name ''.cape.hash''"
  by (simp_all add: valid_name_def NAME_MAX_def)

definition room :: "path \<Rightarrow> bool" where
  "room hp \<longleftrightarrow> length (render hp) + 32 \<le> PATH_MAX"

definition storage_ok :: "fs \<Rightarrow> path \<Rightarrow> bool" where
  "storage_ok F hp \<longleftrightarrow> home_ok F hp \<and> room hp \<and> no_failures F \<and> is_dir F (db_dir hp) \<and>
     plain_file F (db_path hp) \<and> plain_file F (hash_path hp)"

lemma render_db:
  assumes "hp \<noteq> []"
  shows "render (db_dir hp) = render hp @ ''/.cape''"
    and "render (db_path hp) = render hp @ ''/.cape/.cape.db''"
    and "render (hash_path hp) = render hp @ ''/.cape/.cape.hash''"
  using assms by (simp_all add: db_dir_def db_path_def hash_path_def render_append)
    (simp_all add: render_def)

lemma room_lengths:
  assumes "room hp" and "hp \<noteq> []"
  shows "length (render hp) < PATH_MAX" and "length (render (db_dir hp)) < PATH_MAX"
    and "length (render (db_path hp)) < PATH_MAX" and "length (render (hash_path hp)) < PATH_MAX"
  using assms by (simp_all add: render_db room_def)

lemma joined_db:
  assumes "hp \<noteq> []"
  shows "joined (render hp) DB_DIR = render (db_dir hp)"
    and "joined (render hp) DB_NAME = render (db_path hp)"
    and "joined (render hp) DB_HASH = render (hash_path hp)"
  using assms by (simp_all add: joined_def is_abs_def render_db DB_DIR_def DB_NAME_def DB_HASH_def)

lemma dirname_db:
  "dirname DB_DIR = ''.''" "basename DB_DIR = ''.cape''"
  "dirname DB_NAME = ''.cape''" "basename DB_NAME = ''.cape.db''"
  "dirname DB_HASH = ''.cape''" "basename DB_HASH = ''.cape.hash''"
  by code_simp+

lemma resolve_db_path:
  assumes "home_ok F hp" and "room hp" and "joined (render hp) c = render (d @ [x])"
    and "length c \<le> 16" and "is_dir F d" and "valid_name x" and "prefix hp (d @ [x])"
    and "length (render (d @ [x])) < PATH_MAX" and "prefix (render hp) (render (d @ [x]))"
  shows "f_ver_path_resolve F (Some \<lparr>p_path = render hp\<rparr>) (Some c) =
    Inr (if lookup F (d @ [x]) = None then None else Some \<lparr>p_path = render (d @ [x])\<rparr>)"
proof -
  note F = home_okD [OF assms(1)]
  have size: "\<not> PATH_MAX < length (render hp) + length c + SLASH_PLUS_NULL"
    using assms(2, 4) by (simp add: room_def SLASH_PLUS_NULL_def)
  show ?thesis
  proof (cases "lookup F (d @ [x])")
    case None
    then have "realpath F (render (d @ [x])) = Inl ENOENT"
      using namei_missing [OF F(1) assms(5, 6) None] assms(8) by (simp add: realpath_def)
    then show ?thesis using None size
      by (simp add: f_ver_path_resolve_def f_path_resolve_eq [OF F(5)] assms(3))
  next
    case (Some n)
    then have "realpath F (render (d @ [x])) = Inr (render (d @ [x]))"
      using realpath_canonical [OF F(1) Some link_free_lookup [OF F(2) Some] assms(8)] by simp
    then show ?thesis using Some size assms(9)
      by (simp add: f_ver_path_resolve_def f_path_resolve_eq [OF F(5)] assms(3))
  qed
qed

lemma resolve_db:
  assumes "home_ok F hp" and "room hp"
  shows "f_ver_path_resolve F (Some \<lparr>p_path = render hp\<rparr>) (Some DB_DIR) =
      Inr (if lookup F (db_dir hp) = None then None else Some \<lparr>p_path = render (db_dir hp)\<rparr>)"
    and "is_dir F (db_dir hp) \<Longrightarrow> f_ver_path_resolve F (Some \<lparr>p_path = render hp\<rparr>) (Some DB_NAME) =
      Inr (if lookup F (db_path hp) = None then None else Some \<lparr>p_path = render (db_path hp)\<rparr>)"
    and "is_dir F (db_dir hp) \<Longrightarrow> f_ver_path_resolve F (Some \<lparr>p_path = render hp\<rparr>) (Some DB_HASH) =
      Inr (if lookup F (hash_path hp) = None then None else Some \<lparr>p_path = render (hash_path hp)\<rparr>)"
proof -
  note F = home_okD [OF assms(1)]
  note j = joined_db [OF F(4)] and r = render_db [OF F(4)] and l = room_lengths [OF assms(2) F(4)]
  show "f_ver_path_resolve F (Some \<lparr>p_path = render hp\<rparr>) (Some DB_DIR) =
      Inr (if lookup F (db_dir hp) = None then None else Some \<lparr>p_path = render (db_dir hp)\<rparr>)"
    using resolve_db_path [OF assms, of DB_DIR hp "''.cape''"] F(3) j(1) r(1) l(2)
    by (simp add: db_dir_def DB_DIR_def)
  show "f_ver_path_resolve F (Some \<lparr>p_path = render hp\<rparr>) (Some DB_NAME) =
      Inr (if lookup F (db_path hp) = None then None else Some \<lparr>p_path = render (db_path hp)\<rparr>)"
    if "is_dir F (db_dir hp)"
    using resolve_db_path [OF assms, of DB_NAME "db_dir hp" "''.cape.db''"] that j(2) r(2) l(3)
    by (simp add: db_path_snoc(1) DB_NAME_def) (simp add: db_dir_def)
  show "f_ver_path_resolve F (Some \<lparr>p_path = render hp\<rparr>) (Some DB_HASH) =
      Inr (if lookup F (hash_path hp) = None then None else Some \<lparr>p_path = render (hash_path hp)\<rparr>)"
    if "is_dir F (db_dir hp)"
    using resolve_db_path [OF assms, of DB_HASH "db_dir hp" "''.cape.hash''"] that j(3) r(3) l(4)
    by (simp add: db_path_snoc(2) DB_HASH_def) (simp add: db_dir_def)
qed

lemma valid_db:
  assumes "home_ok F hp" and "room hp"
  shows "f_ver_valid_resolve F (Some \<lparr>p_path = render hp\<rparr>) (Some DB_DIR) = Inr (Some \<lparr>p_path = render (db_dir hp)\<rparr>)"
    and "is_dir F (db_dir hp) \<Longrightarrow> f_ver_valid_resolve F (Some \<lparr>p_path = render hp\<rparr>) (Some DB_NAME) =
      Inr (Some \<lparr>p_path = render (db_path hp)\<rparr>)"
    and "is_dir F (db_dir hp) \<Longrightarrow> f_ver_valid_resolve F (Some \<lparr>p_path = render hp\<rparr>) (Some DB_HASH) =
      Inr (Some \<lparr>p_path = render (hash_path hp)\<rparr>)"
proof -
  note F = home_okD [OF assms(1)]
  note r = render_db [OF F(4)] and l = room_lengths [OF assms(2) F(4)]
  have dot: "realpath F (joined (render hp) ''.'') = Inr (render hp)"
  proof -
    have "resolve F False SYMLOOP_MAX [] (split_slash (render hp @ CHR ''/'' # ''.'')) = Inr hp"
      using resolve_from [OF F(1), of hp Dir] F(3, 4) by (simp add: is_dir_def resolve.simps(2))
    moreover have "joined (render hp) ''.'' = render hp @ CHR ''/'' # ''.''"
      by (simp add: joined_def is_abs_def)
    ultimately show ?thesis using l(1) assms(2) by (simp add: realpath_def namei_def room_def)
  qed
  have dir: "realpath F (joined (render hp) ''.cape'') = Inr (render (db_dir hp))" if "is_dir F (db_dir hp)"
    using realpath_canonical [OF F(1), of "db_dir hp" Dir] that l(2) joined_db(1) [OF F(4)]
    by (simp add: is_dir_def DB_DIR_def)
  have len: "\<not> PATH_MAX \<le> length (joined (render hp) ''.'')" "\<not> PATH_MAX \<le> length (joined (render hp) ''.cape'')"
    using assms(2) by (simp_all add: joined_def is_abs_def room_def)
  have j: "joined (render hp) ''.cape'' = render (db_dir hp)"
    "joined (render (db_dir hp)) ''.cape.db'' = render (db_path hp)"
    "joined (render (db_dir hp)) ''.cape.hash'' = render (hash_path hp)"
    using r by (simp_all add: joined_def is_abs_def)
  have p: "prefix (render hp) (render (db_dir hp))" "prefix (render hp) (render (db_path hp))"
    "prefix (render hp) (render (hash_path hp))"
    using r by simp_all
  show "f_ver_valid_resolve F (Some \<lparr>p_path = render hp\<rparr>) (Some DB_DIR) = Inr (Some \<lparr>p_path = render (db_dir hp)\<rparr>)"
    using dot len(1) l(2) p(1) by (simp add: f_ver_valid_resolve_def f_valid_resolve_eq [OF F(5)] dirname_db j)
  show "f_ver_valid_resolve F (Some \<lparr>p_path = render hp\<rparr>) (Some DB_NAME) = Inr (Some \<lparr>p_path = render (db_path hp)\<rparr>)"
    if "is_dir F (db_dir hp)"
    using dir [OF that] len(2) l(3) p(2)
    by (simp add: f_ver_valid_resolve_def f_valid_resolve_eq [OF F(5)] dirname_db j)
  show "f_ver_valid_resolve F (Some \<lparr>p_path = render hp\<rparr>) (Some DB_HASH) = Inr (Some \<lparr>p_path = render (hash_path hp)\<rparr>)"
    if "is_dir F (db_dir hp)"
    using dir [OF that] len(2) l(4) p(3)
    by (simp add: f_ver_valid_resolve_def f_valid_resolve_eq [OF F(5)] dirname_db j)
qed


section \<open>Saving and loading\<close>

definition digest :: "('u, 's) lib \<Rightarrow> bytes \<Rightarrow> bytes" where
  "digest L bs = take SHA256_DIGEST_LENGTH (lib_sha256 L bs)"

definition db_text :: "user_account_t list \<Rightarrow> bytes" where
  "db_text accts = MAGIC_BYTES @ str_bytes (db_lines accts)"

definition store_hash :: "('u, 's) lib \<Rightarrow> path \<Rightarrow> bytes \<Rightarrow> fs \<Rightarrow> fs" where
  "store_hash L hp bs F = put_node (hash_path hp) (File (MAGIC_BYTES @ digest L bs)) F"

definition store_files :: "('u, 's) lib \<Rightarrow> path \<Rightarrow> bytes \<Rightarrow> fs \<Rightarrow> fs" where
  "store_files L hp bs F = store_hash L hp bs (put_node (db_path hp) (File bs) F)"

lemma length_MAGIC_BYTES [simp]: "length MAGIC_BYTES = 4"
  by (simp add: MAGIC_BYTES_def)

lemma length_digest: "lib_ok L \<Longrightarrow> length (digest L bs) = SHA256_DIGEST_LENGTH"
  by (simp add: digest_def lib_ok_def)

lemma storage_okD:
  assumes "storage_ok F hp"
  shows "home_ok F hp" and "room hp" and "no_failures F" and "is_dir F (db_dir hp)"
    and "plain_file F (db_path hp)" and "plain_file F (hash_path hp)" and "wf_fs F" and "hp \<noteq> []"
  using assms by (simp_all add: storage_ok_def home_ok_def)

lemma home_ok_put_file:
  assumes "home_ok F hp" and "is_dir F d" and "valid_name c" and "plain_file F (d @ [c])"
    and "d @ [c] \<noteq> hp"
  shows "home_ok (put_node (d @ [c]) (File bs) F) hp"
proof -
  note F = home_okD [OF assms(1)]
  have "wf_fs (put_node (d @ [c]) (File bs) F)"
    by (rule wf_put_node [OF F(1)]) (use assms in \<open>auto simp: node_ok_def plain_file_def\<close>)
  moreover have "link_free (put_node (d @ [c]) (File bs) F)"
    by (rule link_free_put_node [OF F(2)]) simp
  ultimately show ?thesis using F(3, 4) assms(5) by (simp add: home_ok_def is_dir_def)
qed

lemma storage_put:
  assumes "storage_ok F hp"
  shows "storage_ok (put_node (db_path hp) (File bs) F) hp"
    and "storage_ok (put_node (hash_path hp) (File bs) F) hp"
proof -
  note s = storage_okD [OF assms]
  have "home_ok (put_node (db_path hp) (File bs) F) hp"
    using home_ok_put_file [OF s(1, 4), of "''.cape.db''"] s(5) db_paths_distinct(10) [of hp] unfolding db_path_snoc by simp
  then show "storage_ok (put_node (db_path hp) (File bs) F) hp"
    using s by (auto simp: storage_ok_def no_failures_def is_dir_def plain_file_def)
  have "home_ok (put_node (hash_path hp) (File bs) F) hp"
    using home_ok_put_file [OF s(1, 4), of "''.cape.hash''"] s(6) db_paths_distinct(11) [of hp] unfolding db_path_snoc by simp
  then show "storage_ok (put_node (hash_path hp) (File bs) F) hp"
    using s by (auto simp: storage_ok_def no_failures_def is_dir_def plain_file_def)
qed

lemma storage_store: "storage_ok F hp \<Longrightarrow> storage_ok (store_files L hp bs F) hp"
  unfolding store_files_def store_hash_def by (intro storage_put)

lemma store_files_lookup:
  "lookup (store_files L hp bs F) (db_path hp) = Some (File bs)"
  "lookup (store_files L hp bs F) (hash_path hp) = Some (File (MAGIC_BYTES @ digest L bs))"
  "q \<noteq> db_path hp \<Longrightarrow> q \<noteq> hash_path hp \<Longrightarrow> lookup (store_files L hp bs F) q = lookup F q"
  by (simp_all add: store_files_def store_hash_def)

lemma update_db_hash_ok:
  assumes "storage_ok F hp" and "lookup F (db_path hp) = Some (File bs)" and "lib_ok L"
  shows "update_db_hash L F (Some \<lparr>p_path = render hp\<rparr>) (Some \<lparr>p_path = render (db_path hp)\<rparr>) =
    Inr (Some \<lparr>p_path = render (hash_path hp)\<rparr>, store_hash L hp bs F)"
proof -
  note s = storage_okD [OF assms(1)] and l = room_lengths [OF storage_okD(2, 8) [OF assms(1)]]
  note r = fopen_r_plain [OF s(7) assms(2) l(3) s(3)]
  have w: "fopen_w F (render (hash_path hp)) = (Inr (hash_path hp), put_node (hash_path hp) (File []) F)"
    using fopen_w_plain [OF s(7, 4), of "''.cape.hash''"] s(3, 6) l(4) unfolding db_path_snoc by simp
  have len: "length (take SHA256_DIGEST_LENGTH (lib_sha256 L bs)) = SHA256_DIGEST_LENGTH"
    using assms(3) by (simp add: lib_ok_def)
  have io: "fs_ioerr F = []" using s(3) by (simp add: no_failures_def)
  show ?thesis
    using r valid_db(3) [OF s(1, 2, 4)] len io
    by (simp add: update_db_hash_def hash_byte_array_def f_open_file_def [of _ _ Mode_w] w
        fwrite_all_def store_hash_def digest_def)
qed

text \<open>The accounts of a running database and the state it needs on disk.\<close>

definition db_users :: "('u, 's) lib \<Rightarrow> ('u, 's) db_t \<Rightarrow> string \<Rightarrow> user_account_t option" where
  "db_users L db = ht_get (lib_users L) (users_htable db)"

definition db_accts :: "('u, 's) lib \<Rightarrow> ('u, 's) db_t \<Rightarrow> user_account_t list" where
  "db_accts L db = map snd (ht_entries (lib_users L) (users_htable db))"

definition db_ok :: "('u, 's) lib \<Rightarrow> path \<Rightarrow> ('u, 's) db_t \<Rightarrow> bool" where
  "db_ok L hp db \<longleftrightarrow> ht_valid (lib_users L) (users_htable db) \<and> ht_valid (lib_sesh L) (sesh_htable db) \<and>
     p_home_dir db = Some \<lparr>p_path = render hp\<rparr> \<and> \<not> db_debug db \<and>
     (\<forall>k a. db_users L db k = Some a \<longrightarrow> user_ok a \<and> ua_username a = k)"

text \<open>The part of it that does not depend on the characters of the names; every request keeps it.\<close>

definition db_inv :: "('u, 's) lib \<Rightarrow> ('u, 's) db_t \<Rightarrow> bool" where
  "db_inv L db \<longleftrightarrow> ht_valid (lib_users L) (users_htable db) \<and> ht_valid (lib_sesh L) (sesh_htable db) \<and>
     (\<forall>k a. db_users L db k = Some a \<longrightarrow> user_fmt a \<and> ua_username a = k)"

lemma db_ok_inv: "db_ok L hp db \<Longrightarrow> db_inv L db"
  by (simp add: db_ok_def db_inv_def user_ok_fmt)

lemma db_inv_laws:
  assumes "lib_ok L" and "db_inv L db"
  shows "htable_laws (lib_users L)" and "htable_laws (lib_sesh L)"
    and "ht_valid (lib_users L) (users_htable db)" and "ht_valid (lib_sesh L) (sesh_htable db)"
  using assms by (simp_all add: lib_ok_def db_inv_def)

lemma db_inv_accts:
  assumes "lib_ok L" and "db_inv L db"
  shows "list_all user_fmt (db_accts L db)"
proof -
  have "user_fmt a" if "(k, a) \<in> set (ht_entries (lib_users L) (users_htable db))" for k a
    using assms(2) ht_entries_get [OF db_inv_laws(1, 3) [OF assms] that]
    unfolding db_inv_def db_users_def by blast
  then show ?thesis by (auto simp: db_accts_def list_all_iff)
qed

lemma db_ok_accts:
  assumes "lib_ok L" and "db_ok L hp db"
  shows "list_all user_ok (db_accts L db)"
    and "map_of (rev (map (\<lambda>a. (ua_username a, a)) (db_accts L db))) = db_users L db"
proof -
  have laws: "htable_laws (lib_users L)" using assms(1) by (simp add: lib_ok_def)
  have v: "ht_valid (lib_users L) (users_htable db)" using assms(2) by (simp add: db_ok_def)
  let ?es = "ht_entries (lib_users L) (users_htable db)"
  have e: "user_ok a \<and> ua_username a = k" if "(k, a) \<in> set ?es" for k a
    using assms(2) ht_entries_get [OF laws v that] by (simp add: db_ok_def db_users_def)
  show "list_all user_ok (db_accts L db)"
    using e by (auto simp: db_accts_def list_all_iff)
  have "map (\<lambda>a. (ua_username a, a)) (db_accts L db) = ?es"
    using e by (auto simp: db_accts_def o_def intro: map_idI)
  moreover have "map_of (rev ?es) = map_of ?es"
    using htable_lawsD(9) [OF laws v] by (intro map_of_inject_set [THEN iffD2]) (auto simp: rev_map [symmetric])
  ultimately show "map_of (rev (map (\<lambda>a. (ua_username a, a)) (db_accts L db))) = db_users L db"
    using htable_lawsD(10) [OF laws v] by (simp add: db_users_def)
qed

lemma db_update_db_fmt:
  assumes "lib_ok L" and "storage_ok F hp" and "list_all user_fmt (db_accts L db)"
    and h: "p_home_dir db = Some \<lparr>p_path = render hp\<rparr>" "\<not> db_debug db"
  shows "db_update_db L F (Some db) = Inr (store_files L hp (db_text (db_accts L db)) F)"
proof -
  note s = storage_okD [OF assms(2)]
  let ?as = "db_accts L db"
  note ok = assms(3)
  have cc: "db_char_count ?as = 4 + length (db_lines ?as) + length ?as"
    by (rule db_char_count_eq [OF ok])
  have fill: "db_fill (db_char_count ?as) MAGIC_BYTES ?as = Inr (db_text ?as)"
    unfolding db_text_def by (rule db_fill_ok [OF ok]) (simp add: cc)
  have written: "db_char_count ?as - length ?as = length (db_text ?as)"
    "db_char_count ?as - (length ?as + length (db_text ?as)) = 0"
    by (simp_all add: cc db_text_def)
  have w: "f_write_file F (Some \<lparr>p_path = render (db_path hp)\<rparr>) (Some bs) =
      (OP_SUCCESS, put_node (db_path hp) (File bs) F)" for bs
    using f_write_file_plain [OF s(7, 4), of "''.cape.db''"] s(3, 5) room_lengths(3) [OF s(2, 8)]
    unfolding db_path_snoc by simp
  have up: "update_db_hash L (put_node (db_path hp) (File bs) F) (Some \<lparr>p_path = render hp\<rparr>)
      (Some \<lparr>p_path = render (db_path hp)\<rparr>) =
      Inr (Some \<lparr>p_path = render (hash_path hp)\<rparr>, store_files L hp bs F)" for bs
    unfolding store_files_def
    by (rule update_db_hash_ok [OF storage_put(1) [OF assms(2)] _ assms(1)]) simp
  show ?thesis
    unfolding db_update_db_def option.case Let_def db_accts_def [symmetric]
    using h fill valid_db(2) [OF s(1, 2, 4)] w up by (simp add: written)
qed

lemma db_update_db_ok:
  assumes "lib_ok L" and "storage_ok F hp" and "db_ok L hp db"
  shows "db_update_db L F (Some db) = Inr (store_files L hp (db_text (db_accts L db)) F)"
  by (rule db_update_db_fmt [OF assms(1, 2)])
    (use users_ok_fmt [OF db_ok_accts(1) [OF assms(1, 3)]] assms(3) in \<open>simp_all add: db_ok_def\<close>)


lemma db_compare_eq: "db_compare_callback = (=)" "sesh_compare_callback = (=)"
  by (auto simp: fun_eq_iff db_compare_callback_def sesh_compare_callback_def)

text \<open>The database that loading a list of accounts gives.\<close>

definition loaded_db :: "('u, 's) lib \<Rightarrow> path \<Rightarrow> user_account_t list \<Rightarrow> ('u, 's) db_t" where
  "loaded_db L hp accts =
    \<lparr>users_htable = set_users L accts (ht_create (lib_users L) (db_hash_callback L) db_compare_callback),
     sesh_htable = ht_create (lib_sesh L) (sesh_hash_callback L) sesh_compare_callback,
     p_home_dir = Some \<lparr>p_path = render hp\<rparr>, db_debug = False\<rparr>"

lemma loaded_db_users:
  assumes "lib_ok L"
  shows "db_users L (loaded_db L hp accts) = map_of (rev (map (\<lambda>a. (ua_username a, a)) accts))"
    and "list_all user_ok accts \<Longrightarrow> db_ok L hp (loaded_db L hp accts)"
proof -
  have l: "htable_laws (lib_users L)" "htable_laws (lib_sesh L)" using assms by (simp_all add: lib_ok_def)
  note c = htable_lawsD(1, 2) [OF l(1), of "db_hash_callback L"]
  show u: "db_users L (loaded_db L hp accts) = map_of (rev (map (\<lambda>a. (ua_username a, a)) accts))"
    using set_users_get [OF l(1) c(1), of accts] c(2)
    by (simp add: db_users_def loaded_db_def db_compare_eq)
  assume ok: "list_all user_ok accts"
  have "user_ok a \<and> ua_username a = k" if "db_users L (loaded_db L hp accts) k = Some a" for k a
    using that ok unfolding u by (auto dest!: map_of_SomeD simp: list_all_iff)
  then show "db_ok L hp (loaded_db L hp accts)"
    using set_users_valid [OF l(1) c(1), of accts] htable_lawsD(1) [OF l(2), of "sesh_hash_callback L"]
    by (simp add: db_ok_def) (simp add: loaded_db_def db_compare_eq)
qed

lemma get_stored:
  "fc_stream c = MAGIC_BYTES @ bs \<Longrightarrow> fc_stream_size c = length (MAGIC_BYTES @ bs) \<Longrightarrow>
    get_stored_data c = (True, c\<lparr>fc_stream := bs, fc_stream_size := length bs\<rparr>)"
  by (simp add: get_stored_data_def verify_magic_def)

lemma db_load_body:
  assumes "lib_ok L" and "storage_ok F hp"
    and "lookup F (db_path hp) = Some (File (MAGIC_BYTES @ body))"
    and "lookup F (hash_path hp) = Some (File (MAGIC_BYTES @ digest L (MAGIC_BYTES @ body)))"
  shows "db_load L F (Some \<lparr>p_path = render hp\<rparr>) (Some \<lparr>p_path = render (hash_path hp)\<rparr>)
      (Some \<lparr>p_path = render (db_path hp)\<rparr>) =
    rbind (populate_loop L (ht_create (lib_users L) (db_hash_callback L) db_compare_callback)
             (Some body) 0 (length body)) (\<lambda>(res, t).
      Inr (if res = - 1 then None else Some (loaded_db L hp [] \<lparr>users_htable := t\<rparr>)))"
proof -
  note s = storage_okD [OF assms(2)] and l = room_lengths [OF storage_okD(2, 8) [OF assms(2)]]
  let ?text = "MAGIC_BYTES @ body" and ?sha = "lib_sha256 L"
  let ?dbc = "\<lparr>fc_hash = \<lparr>h_size = SHA256_DIGEST_LENGTH, h_array = digest L ?text\<rparr>, fc_stream = ?text,
    fc_stream_size = length ?text, fc_path = render (db_path hp)\<rparr>"
  have r1: "f_read_file ?sha F (Some \<lparr>p_path = render (db_path hp)\<rparr>) = Inr (Some ?dbc, OP_SUCCESS)"
    using f_read_file_plain [OF s(7) assms(3) l(3) s(3), of ?sha] by (simp add: digest_def)
  obtain hc where r2: "f_read_file ?sha F (Some \<lparr>p_path = render (hash_path hp)\<rparr>) = Inr (Some hc, OP_SUCCESS)"
    and hc: "fc_stream hc = MAGIC_BYTES @ digest L ?text" "fc_stream_size hc = length (MAGIC_BYTES @ digest L ?text)"
    using f_read_file_plain [OF s(7) assms(4) l(4) s(3), of ?sha] by simp
  have dl: "length (digest L ?text) = SHA256_DIGEST_LENGTH" by (rule length_digest [OF assms(1)])
  have magic: "verify_magic (Some hc)" using hc by (simp add: verify_magic_def)
  have g: "get_stored_hash hc =
      (True, hc\<lparr>fc_stream := digest L ?text, fc_stream_size := length (digest L ?text)\<rparr>)"
    using magic hc dl get_stored [OF hc] by (simp add: get_stored_hash_def)
  have m: "hash_bytes_match (Some (fc_hash ?dbc)) (Some (digest L ?text)) = Inr True"
    using dl by (simp add: hash_bytes_match_def hash_compare_eq)
  have d: "get_stored_data ?dbc = (True, ?dbc\<lparr>fc_stream := body, fc_stream_size := length body\<rparr>)"
    by (rule get_stored) simp_all
  show ?thesis
    unfolding db_load_def r1 r2 using g m d
    by (simp add: populate_htable_def loaded_db_def set_users_def case_prod_beta cong: if_cong)
qed

lemma db_load_ok:
  assumes "lib_ok L" and "storage_ok F hp" and "list_all user_ok accts"
    and "lookup F (db_path hp) = Some (File (db_text accts))"
    and "lookup F (hash_path hp) = Some (File (MAGIC_BYTES @ digest L (db_text accts)))"
  shows "db_load L F (Some \<lparr>p_path = render hp\<rparr>) (Some \<lparr>p_path = render (hash_path hp)\<rparr>)
      (Some \<lparr>p_path = render (db_path hp)\<rparr>) = Inr (Some (loaded_db L hp accts))"
  using db_load_body [OF assms(1, 2) assms(4, 5) [unfolded db_text_def]]
    populate_loop_lines [OF assms(3), of L "ht_create (lib_users L) (db_hash_callback L) db_compare_callback"]
  by (simp add: loaded_db_def set_users_def)

text \<open>What is on disk after an update is what a restart reads.\<close>

lemma db_init_saved:
  assumes "lib_ok L" and "storage_ok F hp" and "list_all user_ok accts"
    and "lookup F (db_path hp) = Some (File (db_text accts))"
    and "lookup F (hash_path hp) = Some (File (MAGIC_BYTES @ digest L (db_text accts)))"
  shows "db_init L F (Some \<lparr>p_path = render hp\<rparr>) = Inr (Some (loaded_db L hp accts), F)"
proof -
  note s = storage_okD [OF assms(2)]
  have "lookup F (db_dir hp) = Some Dir" using s(4) by (simp add: is_dir_def)
  then show ?thesis
    using resolve_db(1) [OF s(1, 2)] resolve_db(2, 3) [OF s(1, 2, 4)] assms(4, 5) db_load_ok [OF assms]
    by (simp add: db_init_def)
qed

section \<open>Names that break the text form\<close>

lemma scan_set_split:
  "scan_set w P bs = Inr (s, r) \<Longrightarrow> bs = str_bytes s @ r \<and> list_all P s \<and> (\<forall>n. w = Some n \<longrightarrow> length s \<le> n)"
proof (induction w P bs arbitrary: s r rule: scan_set.induct)
  case (2 w P b bs)
  show ?case
  proof (cases "w \<noteq> Some 0 \<and> b \<noteq> 0 \<and> P (chr_of b)")
    case True
    then obtain s' where s': "scan_set (map_option (\<lambda>n. n - 1) w) P bs = Inr (s', r)" "s = chr_of b # s'"
      using "2.prems" by (auto simp: rbind_eq_Inr_iff)
    then show ?thesis using True "2.IH" [OF _ _ s'(1)] by (cases w) (auto simp: str_bytes_Cons)
  qed (use 2 in \<open>auto split: if_splits\<close>)
qed (simp split: if_splits)

text \<open>The scan of a line counts no more bytes than the line has, and fewer when its name has a colon.\<close>

lemma db_scan_counts:
  assumes "user_fmt a"
    and "db_scan (str_bytes (db_line a (hex_string (h_array (ua_hash a)))) @ rest) = Inr (Scan_ok (u, p, x))"
  shows "length x \<le> 64" and "length u \<le> length (ua_username a)"
    and "CHR '':'' \<in> set (ua_username a) \<Longrightarrow> length u < length (ua_username a)"
proof -
  let ?n = "ua_username a"
  obtain tail where b: "str_bytes (db_line a (hex_string (h_array (ua_hash a)))) @ rest =
      str_bytes (?n @ [CHR '':'']) @ tail"
    by (simp add: db_line_eq [OF assms(1)] str_bytes_Cons)
  obtain r where u: "scan_set (Some MAX_USERNAME_LEN) (\<lambda>c. c \<noteq> CHR '':'') (str_bytes (?n @ [CHR '':'']) @ tail) = Inr (u, r)"
    and x: "\<exists>seg r'. scan_set (Some SHA256_DIGEST_LEN) (\<lambda>c. c \<noteq> CHR 0x0A) seg = Inr (x, r')"
    using assms(2) unfolding b
    by (auto simp: db_scan_def rbind_eq_Inr_iff split: list.splits option.splits if_splits)
  show "length x \<le> 64" using x scan_set_split by (fastforce simp: SHA256_DIGEST_LEN_def)
  note s = scan_set_split [OF u]
  have short: "length u \<le> i" if "i < length (?n @ [CHR '':''])" "(?n @ [CHR '':'']) ! i = CHR '':''" for i
  proof (rule ccontr)
    assume i: "\<not> length u \<le> i"
    have "(str_bytes (?n @ [CHR '':'']) @ tail) ! i = byte_of (CHR '':'')"
      using that by (simp add: nth_append str_bytes_def split: if_splits)
    moreover have "(str_bytes u @ r) ! i = byte_of (u ! i)" using i by (simp add: nth_append str_bytes_def)
    ultimately have "u ! i = CHR '':''" using s by simp
    then show False using s i by (simp add: list_all_length)
  qed
  from short [of "length ?n"] show "length u \<le> length ?n" by simp
  assume "CHR '':'' \<in> set ?n"
  then obtain i where "i < length ?n" "?n ! i = CHR '':''" by (auto simp: in_set_conv_nth)
  then show "length u < length ?n" using short [of i] by (simp add: nth_append)
qed

lemma db_scan_eof: "db_scan (b # bs) = Inr Scan_eof \<Longrightarrow> b = 0"
  by (auto simp: db_scan_def rbind_eq_Inr_iff split: option.splits if_splits)

definition one_line :: "user_account_t \<Rightarrow> bool" where
  "one_line a \<longleftrightarrow> user_fmt a \<and> CHR 0x0A \<notin> set (ua_username a) \<and> CHR 0x00 \<notin> set (ua_username a)"

lemma one_lineD: "one_line a \<Longrightarrow> user_fmt a" "one_line a \<Longrightarrow> CHR 0x0A \<notin> set (ua_username a)"
  "one_line a \<Longrightarrow> CHR 0x00 \<notin> set (ua_username a)"
  by (simp_all add: one_line_def)

text \<open>
  Once a name has a colon, the count of the loop falls behind the lines; after the last line it goes on
  reading where there is nothing.
\<close>

lemma populate_loop_undercounts:
  assumes "list_all one_line accts" and "r + length (db_lines accts) \<le> n"
    and "r + length (db_lines accts) < n \<or> list_ex (\<lambda>a. CHR '':'' \<in> set (ua_username a)) accts"
    and "populate_loop L t (Some (str_bytes (db_lines accts))) r n = Inr (res, t')"
  shows "res = - 1"
  using assms
proof (induction accts arbitrary: t r)
  case Nil
  then show ?case by (subst (asm) populate_loop.simps) (simp add: db_scan_def)
next
  case (Cons a as)
  let ?x = "hex_string (h_array (ua_hash a))" and ?line = "str_bytes (db_line a (hex_string (h_array (ua_hash a))))"
  have a: "one_line a" using Cons.prems(1) by simp
  have h: "length ?x = 64" using one_lineD(1) [OF a] by (simp add: user_fmt_def hash_ok_def SHA256_DIGEST_LENGTH_def)
  have len: "length (db_line a ?x) = 68 + length (ua_username a)"
    using length_db_line [OF one_lineD(1) [OF a]] h by simp
  have seg: "str_bytes (db_lines (a # as)) = ?line @ str_bytes (db_lines as)" by simp
  have r: "r < n" using Cons.prems(2) len by simp
  have "length (db_line a ?x) \<le> n" using Cons.prems(2) by simp
  note next_seg = next_segment_line [OF one_lineD(1, 2) [OF a] this]
  have no_eof: "db_scan (?line @ str_bytes (db_lines as)) \<noteq> Inr Scan_eof"
  proof -
    obtain b bs where b: "?line @ str_bytes (db_lines as) = b # bs" "b \<noteq> 0"
      using one_lineD(3) [OF a]
      by (cases "ua_username a") (auto simp: db_line_def str_bytes_Cons byte_of_eq_0_iff)
    then show ?thesis using db_scan_eof by metis
  qed
  show ?case
  proof (cases "\<exists>u p x. db_scan (?line @ str_bytes (db_lines as)) = Inr (Scan_ok (u, p, x))")
    case False
    then have "db_scan (?line @ str_bytes (db_lines as)) = Inr Scan_fail \<or>
        (\<exists>e. db_scan (?line @ str_bytes (db_lines as)) = Inl e)"
      using no_eof by (metis scan.exhaust old.prod.exhaust old.sum.exhaust)
    then show ?thesis using Cons.prems(4) r unfolding seg
      by (subst (asm) populate_loop.simps) auto
  next
    case True
    then obtain u p x where scan: "db_scan (?line @ str_bytes (db_lines as)) = Inr (Scan_ok (u, p, x))" by blast
    note c = db_scan_counts [OF one_lineD(1) [OF a] scan]
    from Cons.prems(4) r scan next_seg have "res = - 1 \<or> (\<exists>t2.
        populate_loop L t2 (Some (str_bytes (db_lines as))) (r + 4 + length u + length x) n = Inr (res, t'))"
      unfolding seg by (subst (asm) populate_loop.simps) (auto simp: rbind_eq_Inr_iff split: option.splits)
    then show ?thesis
    proof
      assume "\<exists>t2. populate_loop L t2 (Some (str_bytes (db_lines as))) (r + 4 + length u + length x) n = Inr (res, t')"
      then obtain t2 where p: "populate_loop L t2 (Some (str_bytes (db_lines as))) (r + 4 + length u + length x) n = Inr (res, t')" ..
      show ?thesis
      proof (rule Cons.IH [OF _ _ _ p])
        show "r + 4 + length u + length x + length (db_lines as) < n \<or> list_ex (\<lambda>a. CHR '':'' \<in> set (ua_username a)) as"
          using Cons.prems(2, 3) c len by (cases "CHR '':'' \<in> set (ua_username a)") auto
      qed (use Cons.prems(1, 2) c len in auto)
    qed
  qed
qed

lemma db_init_undercounts:
  assumes "lib_ok L" and "storage_ok F hp" and "list_all one_line accts"
    and "list_ex (\<lambda>a. CHR '':'' \<in> set (ua_username a)) accts"
    and "lookup F (db_path hp) = Some (File (db_text accts))"
    and "lookup F (hash_path hp) = Some (File (MAGIC_BYTES @ digest L (db_text accts)))"
  shows "db_init L F (Some \<lparr>p_path = render hp\<rparr>) \<noteq> Inr (Some db, F')"
proof -
  note s = storage_okD [OF assms(2)]
  have "lookup F (db_dir hp) = Some Dir" using s(4) by (simp add: is_dir_def)
  then have init: "db_init L F (Some \<lparr>p_path = render hp\<rparr>) = rbind (db_load L F (Some \<lparr>p_path = render hp\<rparr>)
      (Some \<lparr>p_path = render (hash_path hp)\<rparr>) (Some \<lparr>p_path = render (db_path hp)\<rparr>)) (\<lambda>db. Inr (db, F))"
    using resolve_db(1) [OF s(1, 2)] resolve_db(2, 3) [OF s(1, 2, 4)] assms(5, 6) by (simp add: db_init_def)
  show ?thesis
    unfolding init db_load_body [OF assms(1, 2) assms(5, 6) [unfolded db_text_def]]
    using populate_loop_undercounts [OF assms(3), of 0 "length (db_lines accts)" L] assms(4)
    by (fastforce simp: rbind_eq_Inr_iff split: if_splits)
qed

section \<open>The first start\<close>

definition default_digest :: bytes where
  "default_digest =
    [0x5e, 0x88, 0x48, 0x98, 0xda, 0x28, 0x04, 0x71, 0x51, 0xd0, 0xe5, 0x6f, 0x8d, 0xc6, 0x29, 0x27,
     0x73, 0x60, 0x3d, 0x0d, 0x6a, 0xab, 0xbd, 0xd6, 0x2a, 0x11, 0xef, 0x72, 0x1d, 0x15, 0x42, 0xd8]"

definition default_admin :: user_account_t where
  "default_admin = \<lparr>ua_username = DEFAULT_USER, ua_permission = perm_ADMIN,
     ua_hash = \<lparr>h_size = 32, h_array = default_digest\<rparr>\<rparr>"

lemma default_hash_text: "hex_string default_digest = DEFAULT_HASH"
  by (simp add: default_digest_def DEFAULT_HASH_def hex_byte_def hex_digit_def)

lemma user_ok_default: "user_ok default_admin"
  by (simp add: user_ok_def user_fmt_def default_admin_def default_digest_def DEFAULT_USER_def perm_ADMIN_def hash_ok_def
      MAX_USERNAME_LEN_def SHA256_DIGEST_LENGTH_def)

lemma default_line:
  "db_lines [default_admin] = DEFAULT_USER @ '':'' @ dec_nat (unat perm_ADMIN) @ '':'' @ DEFAULT_HASH @ [CHR 0x0A]"
  using default_hash_text
  by (simp add: db_line_def default_admin_def perm_ADMIN_def)

lemma init_db_file_ok:
  assumes "storage_ok F hp"
  shows "init_db_file F (Some \<lparr>p_path = render hp\<rparr>) =
    Inr (Some \<lparr>p_path = render (db_path hp)\<rparr>, put_node (db_path hp) (File (db_text [default_admin])) F)"
proof -
  note s = storage_okD [OF assms]
  define line where "line = DEFAULT_USER @ '':'' @ dec_nat (unat perm_ADMIN) @ '':'' @ DEFAULT_HASH @ [CHR 0x0A]"
  have len: "length line = 73" "length DEFAULT_USER = 5" "length DEFAULT_HASH = 64"
    by (simp_all add: line_def DEFAULT_USER_def DEFAULT_HASH_def perm_ADMIN_def dec_nat_small)
  have w: "f_write_file F (Some \<lparr>p_path = render (db_path hp)\<rparr>) (Some bs) =
      (OP_SUCCESS, put_node (db_path hp) (File bs) F)" for bs
    using f_write_file_plain [OF s(7, 4), of "''.cape.db''"] s(3, 5) room_lengths(3) [OF s(2, 8)]
    unfolding db_path_snoc by simp
  have "db_text [default_admin] = MAGIC_BYTES @ str_bytes line"
    unfolding db_text_def default_line line_def ..
  then show ?thesis
    using valid_db(2) [OF s(1, 2, 4)] w
    unfolding init_db_file_def Let_def line_def [symmetric] len by (simp add: len)
qed

lemma home_ok_put_dir:
  assumes "home_ok F hp" and "is_dir F d" and "valid_name c" and "lookup F (d @ [c]) = None"
  shows "home_ok (put_node (d @ [c]) Dir F) hp"
proof -
  note F = home_okD [OF assms(1)]
  have "wf_fs (put_node (d @ [c]) Dir F)"
    by (rule wf_put_node [OF F(1)]) (use assms in \<open>auto simp: node_ok_def\<close>)
  moreover have "link_free (put_node (d @ [c]) Dir F)" by (rule link_free_put_node [OF F(2)]) simp
  ultimately show ?thesis using F(3, 4) by (simp add: home_ok_def is_dir_def)
qed

text \<open>A home directory without a database directory.\<close>

definition fresh_home :: "fs \<Rightarrow> path \<Rightarrow> bool" where
  "fresh_home F hp \<longleftrightarrow> home_ok F hp \<and> room hp \<and> no_failures F \<and> lookup F (db_dir hp) = None"

lemma fresh_missing:
  assumes "fresh_home F hp"
  shows "lookup F (db_dir hp @ [c]) = None"
proof (rule ccontr)
  assume "lookup F (db_dir hp @ [c]) \<noteq> None"
  then obtain n where n: "lookup F (db_dir hp @ [c]) = Some n" by blast
  have "is_dir F (db_dir hp)"
    by (rule wf_fs_prefix_dir [OF _ n]) (use assms home_okD(1) in \<open>auto simp: fresh_home_def\<close>)
  with assms show False by (simp add: fresh_home_def is_dir_def)
qed

lemma init_db_dir_ok:
  assumes "fresh_home F hp"
  shows "init_db_dir F (Some \<lparr>p_path = render hp\<rparr>) =
      Inr (Some \<lparr>p_path = render (db_dir hp)\<rparr>, put_node (db_dir hp) Dir F)"
    and "storage_ok (put_node (db_dir hp) Dir F) hp"
    and "lookup (put_node (db_dir hp) Dir F) (db_path hp) = None"
    and "lookup (put_node (db_dir hp) Dir F) (hash_path hp) = None"
proof -
  have h: "home_ok F hp" "room hp" "no_failures F" "lookup F (db_dir hp) = None"
    using assms by (simp_all add: fresh_home_def)
  note F = home_okD [OF h(1)] and l = room_lengths [OF h(2) home_okD(4) [OF h(1)]]
  have "f_create_dir F (Some \<lparr>p_path = render (db_dir hp)\<rparr>) = (OP_SUCCESS, put_node (db_dir hp) Dir F)"
    using f_create_dir_canonical [OF F(1, 3), of "''.cape''"] l(2) h(3, 4)
    by (simp add: db_dir_def no_failures_def)
  then show "init_db_dir F (Some \<lparr>p_path = render hp\<rparr>) =
      Inr (Some \<lparr>p_path = render (db_dir hp)\<rparr>, put_node (db_dir hp) Dir F)"
    using valid_db(1) [OF h(1, 2)] by (simp add: init_db_dir_def)
  show none: "lookup (put_node (db_dir hp) Dir F) (db_path hp) = None"
    "lookup (put_node (db_dir hp) Dir F) (hash_path hp) = None"
    using fresh_missing [OF assms] by (simp_all add: db_path_snoc)
  have "home_ok (put_node (db_dir hp) Dir F) hp"
    using home_ok_put_dir [OF h(1) F(3), of "''.cape''"] h(4) by (simp add: db_dir_def)
  then show "storage_ok (put_node (db_dir hp) Dir F) hp"
    using h(2, 3) none by (simp add: storage_ok_def no_failures_def is_dir_def plain_file_def)
qed

section \<open>Operations on users\<close>

text \<open>Names and permissions that the text form can carry.\<close>

definition admissible :: "string \<Rightarrow> string \<Rightarrow> u32 \<Rightarrow> bool" where
  "admissible name pw q \<longleftrightarrow>
    MIN_USERNAME_LEN \<le> length name \<and> length name \<le> MAX_USERNAME_LEN \<and>
    MIN_PASSWD_LEN \<le> length pw \<and> length pw \<le> MAX_PASSWD_LEN \<and>
    (\<forall>c \<in> set name. c \<noteq> CHR '':'' \<and> c \<noteq> CHR 0x0A \<and> c \<noteq> CHR 0x00) \<and> unat q < 10"

definition new_account :: "('u, 's) lib \<Rightarrow> string \<Rightarrow> string \<Rightarrow> u32 \<Rightarrow> user_account_t" where
  "new_account L name pw q =
    \<lparr>ua_username = name, ua_permission = q,
     ua_hash = \<lparr>h_size = SHA256_DIGEST_LENGTH, h_array = digest L (str_bytes pw)\<rparr>\<rparr>"

lemma new_account_fmt: "lib_ok L \<Longrightarrow> unat q < 10 \<Longrightarrow> user_fmt (new_account L name pw q)"
  by (simp add: user_fmt_def new_account_def hash_ok_def length_digest)

lemma new_account_ok:
  assumes "lib_ok L" and "admissible name pw q"
  shows "user_ok (new_account L name pw q)"
proof -
  have ne: "name \<noteq> []" using assms(2) by (cases name) (simp_all add: admissible_def MIN_USERNAME_LEN_def)
  have u: "ua_username (new_account L name pw q) = name" by (simp add: new_account_def)
  have fmt: "user_fmt (new_account L name pw q)"
    using assms by (intro new_account_fmt) (simp_all add: admissible_def)
  have "length name \<le> MAX_USERNAME_LEN" "\<forall>c \<in> set name. c \<noteq> CHR '':'' \<and> c \<noteq> CHR 0x0A \<and> c \<noteq> CHR 0x00"
    using assms(2) unfolding admissible_def by blast+
  then show ?thesis unfolding user_ok_def u by (intro conjI ne fmt)
qed

text \<open>What a running database provides.\<close>

lemma db_ok_laws:
  assumes "lib_ok L" and "db_ok L hp db"
  shows "htable_laws (lib_users L)" and "htable_laws (lib_sesh L)"
    and "ht_valid (lib_users L) (users_htable db)" and "ht_valid (lib_sesh L) (sesh_htable db)"
    and "p_home_dir db = Some \<lparr>p_path = render hp\<rparr>" and "\<not> db_debug db"
  using assms by (simp_all add: lib_ok_def db_ok_def)

text \<open>Creating, when the rules on lengths are met and the name is new.\<close>

lemma db_create_new:
  assumes "lib_ok L" and "db_inv L db" and "db_users L db name = None"
    and "MIN_USERNAME_LEN \<le> length name" and "length name \<le> MAX_USERNAME_LEN"
    and "MIN_PASSWD_LEN \<le> length pw" and "length pw \<le> MAX_PASSWD_LEN"
  shows "db_create_user L F (Some db) (Some name) (Some pw) q =
    (let db' = db\<lparr>users_htable := ht_set (lib_users L) (users_htable db) name (new_account L name pw q)\<rparr>
     in rbind (db_update_db L F (Some db')) (\<lambda>F'. Inr (OP_SUCCESS, Some db', F')))"
proof -
  note l = db_inv_laws [OF assms(1, 2)]
  have "\<not> ht_key_exists (lib_users L) (users_htable db) name"
    using htable_lawsD(8) [OF l(1, 3)] assms(3) by (simp add: db_users_def)
  then show ?thesis using assms(4-7)
    by (simp add: db_create_user_def hash_byte_array_def Let_def new_account_def digest_def)
qed

lemma db_inv_set:
  fixes a :: user_account_t
  assumes "lib_ok L" and "db_inv L db" and "user_fmt a"
  defines "db' \<equiv> db\<lparr>users_htable := ht_set (lib_users L) (users_htable db) (ua_username a) a\<rparr>"
  shows "db_inv L db'" and "db_users L db' = (db_users L db)(ua_username a \<mapsto> a)"
proof -
  note l = db_inv_laws [OF assms(1, 2)]
  show u: "db_users L db' = (db_users L db)(ua_username a \<mapsto> a)"
    using htable_lawsD(4) [OF l(1, 3)] by (simp add: db_users_def db'_def)
  have "ht_valid (lib_users L) (users_htable db')"
    using htable_lawsD(3) [OF l(1, 3)] by (simp add: db'_def)
  then show "db_inv L db'" using assms(2, 3) u
    by (auto simp: db_inv_def db'_def split: if_splits)
qed

lemma db_inv_del:
  fixes name :: string
  assumes "lib_ok L" and "db_inv L db"
  defines "db' \<equiv> db\<lparr>users_htable := snd (ht_del (lib_users L) (users_htable db) name)\<rparr>"
  shows "db_inv L db'" and "db_users L db' = (db_users L db)(name := None)"
proof -
  note l = db_inv_laws [OF assms(1, 2)]
  show u: "db_users L db' = (db_users L db)(name := None)"
    using htable_lawsD(7) [OF l(1, 3)] by (simp add: db_users_def db'_def)
  have "ht_valid (lib_users L) (users_htable db')"
    using htable_lawsD(5) [OF l(1, 3)] by (simp add: db'_def)
  then show "db_inv L db'" using assms(2) u
    by (auto simp: db_inv_def db'_def split: if_splits)
qed

lemma db_ok_set:
  assumes "lib_ok L" and "db_ok L hp db" and "user_ok a"
  defines "db' \<equiv> db\<lparr>users_htable := ht_set (lib_users L) (users_htable db) (ua_username a) a\<rparr>"
  shows "db_ok L hp db'" and "db_users L db' = (db_users L db)(ua_username a \<mapsto> a)"
proof -
  note i = db_inv_set [OF assms(1) db_ok_inv [OF assms(2)] user_ok_fmt [OF assms(3)], folded db'_def]
  show "db_users L db' = (db_users L db)(ua_username a \<mapsto> a)" by (rule i(2))
  then have "user_ok b \<and> ua_username b = k" if "db_users L db' k = Some b" for k b
    using that assms(2, 3) by (auto simp: db_ok_def split: if_splits)
  moreover have "p_home_dir db' = p_home_dir db" "db_debug db' = db_debug db"
    by (simp_all add: db'_def)
  ultimately show "db_ok L hp db'"
    using db_ok_laws(5, 6) [OF assms(1, 2)] db_inv_laws(3, 4) [OF assms(1) i(1)]
    unfolding db_ok_def by simp
qed

lemma db_ok_del:
  fixes name :: string
  assumes "lib_ok L" and "db_ok L hp db"
  defines "db' \<equiv> db\<lparr>users_htable := snd (ht_del (lib_users L) (users_htable db) name)\<rparr>"
  shows "db_ok L hp db'" and "db_users L db' = (db_users L db)(name := None)"
proof -
  note i = db_inv_del [OF assms(1) db_ok_inv [OF assms(2)], of name, folded db'_def]
  show "db_users L db' = (db_users L db)(name := None)" by (rule i(2))
  then have "user_ok b \<and> ua_username b = k" if "db_users L db' k = Some b" for k b
    using that assms(2) by (auto simp: db_ok_def split: if_splits)
  moreover have "p_home_dir db' = p_home_dir db" "db_debug db' = db_debug db"
    by (simp_all add: db'_def)
  ultimately show "db_ok L hp db'"
    using db_ok_laws(5, 6) [OF assms(1, 2)] db_inv_laws(3, 4) [OF assms(1) i(1)]
    unfolding db_ok_def by simp
qed

lemma db_remove_eq:
  assumes "lib_ok L" and "db_inv L db"
  shows "db_remove_user L F (Some db) (Some name) =
    (let db' = db\<lparr>users_htable := snd (ht_del (lib_users L) (users_htable db) name)\<rparr> in
     if db_users L db name = None then Inr (OP_USER_NO_EXIST, Some db', F)
     else rbind (db_update_db L F (Some db')) (\<lambda>F'. Inr (OP_SUCCESS, Some db', F')))"
proof -
  note l = db_inv_laws [OF assms]
  obtain r t where d: "ht_del (lib_users L) (users_htable db) name = (r, t)" by (metis surj_pair)
  then have "r = db_users L db name" using htable_lawsD(6) [OF l(1, 3), of name] by (simp add: db_users_def)
  with d show ?thesis by (cases "db_users L db name") (simp_all add: db_remove_user_def Let_def)
qed

text \<open>Authentication compares digests.\<close>

definition pw_matches :: "('u, 's) lib \<Rightarrow> user_account_t \<Rightarrow> string \<Rightarrow> bool" where
  "pw_matches L a pw \<longleftrightarrow> h_array (ua_hash a) = digest L (str_bytes pw)"

lemma db_auth_eq:
  assumes "lib_ok L" and "db_inv L db"
  shows "db_authenticate_user L (Some db) (Some name) (Some pw) =
    Inr (case db_users L db name of
           None \<Rightarrow> (OP_USER_AUTH, None)
         | Some a \<Rightarrow> if pw_matches L a pw then (OP_SUCCESS, Some a) else (OP_USER_AUTH, None))"
proof (cases "db_users L db name")
  case None
  then show ?thesis by (simp add: db_authenticate_user_def db_users_def)
next
  case (Some a)
  then have "user_fmt a" using assms(2) by (auto simp: db_inv_def)
  then have "h_size (ua_hash a) = SHA256_DIGEST_LENGTH" "length (h_array (ua_hash a)) = SHA256_DIGEST_LENGTH"
    by (simp_all add: user_fmt_def hash_ok_def)
  moreover have "length (take SHA256_DIGEST_LENGTH (lib_sha256 L (str_bytes pw))) = SHA256_DIGEST_LENGTH"
    using assms(1) by (simp add: lib_ok_def)
  ultimately have "hash_hash_t_match (Some (ua_hash a))
      (Some \<lparr>h_size = SHA256_DIGEST_LENGTH, h_array = take SHA256_DIGEST_LENGTH (lib_sha256 L (str_bytes pw))\<rparr>) =
      Inr (pw_matches L a pw)"
    by (simp add: hash_hash_t_match_def hash_compare_eq pw_matches_def digest_def)
  then show ?thesis using Some
    by (simp add: db_authenticate_user_def db_users_def hash_byte_array_def)
qed

section \<open>The interface of a user store\<close>

text \<open>
  What the request controller expects of the store: creating adds the account, removing takes it
  away, and authentication looks at nothing but the account of the name given.
\<close>

locale user_store =
  fixes ok :: "'st \<Rightarrow> bool"
    and users :: "'st \<Rightarrow> string \<Rightarrow> user_account_t option"
    and account :: "'st \<Rightarrow> string \<Rightarrow> string \<Rightarrow> u32 \<Rightarrow> user_account_t"
    and matches :: "'st \<Rightarrow> user_account_t \<Rightarrow> string \<Rightarrow> bool"
    and create :: "'st \<Rightarrow> string \<Rightarrow> string \<Rightarrow> u32 \<Rightarrow> (ret_codes_t \<times> 'st) run"
    and remove :: "'st \<Rightarrow> string \<Rightarrow> (ret_codes_t \<times> 'st) run"
    and auth :: "'st \<Rightarrow> string \<Rightarrow> string \<Rightarrow> (ret_codes_t \<times> user_account_t option) run"
  assumes create_law: "ok s \<Longrightarrow> admissible n p q \<Longrightarrow>
      \<exists>s'. create s n p q = Inr (if users s n = None then OP_SUCCESS else OP_USER_EXISTS, s') \<and> ok s' \<and>
        matches s' = matches s \<and>
        users s' = (if users s n = None then (users s)(n \<mapsto> account s n p q) else users s)"
    and remove_law: "ok s \<Longrightarrow>
      \<exists>s'. remove s n = Inr (if users s n = None then OP_USER_NO_EXIST else OP_SUCCESS, s') \<and> ok s' \<and>
        matches s' = matches s \<and> users s' = (users s)(n := None)"
    and auth_law: "ok s \<Longrightarrow> auth s n p =
      Inr (case users s n of
             None \<Rightarrow> (OP_USER_AUTH, None)
           | Some a \<Rightarrow> if matches s a p then (OP_SUCCESS, Some a) else (OP_USER_AUTH, None))"
    and account_law: "ok s \<Longrightarrow> matches s (account s n p q) p"
begin

lemma create_then_auth:
  assumes "ok s" and "admissible n p q" and "users s n = None"
  shows "\<exists>s'. create s n p q = Inr (OP_SUCCESS, s') \<and> ok s' \<and>
    auth s' n p = Inr (OP_SUCCESS, Some (account s n p q)) \<and>
    (\<forall>m r. m \<noteq> n \<longrightarrow> auth s' m r = auth s m r)"
proof -
  obtain s' where c: "create s n p q = Inr (OP_SUCCESS, s')" and s': "ok s'"
    and m: "matches s' = matches s" and u: "users s' = (users s)(n \<mapsto> account s n p q)"
    using create_law [OF assms(1, 2)] assms(3) by auto
  note law = auth_law [OF s', unfolded m u]
  have "auth s' n p = Inr (OP_SUCCESS, Some (account s n p q))"
    using law account_law [OF assms(1)] by simp
  moreover have "\<forall>k r. k \<noteq> n \<longrightarrow> auth s' k r = auth s k r"
    using law auth_law [OF assms(1)] by simp
  ultimately show ?thesis using c s' by blast
qed

lemma remove_then_auth:
  assumes "ok s" and "users s n \<noteq> None"
  shows "\<exists>s'. remove s n = Inr (OP_SUCCESS, s') \<and> ok s' \<and> auth s' n p = Inr (OP_USER_AUTH, None) \<and>
    (\<forall>m r. m \<noteq> n \<longrightarrow> auth s' m r = auth s m r)"
proof -
  obtain s' where c: "remove s n = Inr (OP_SUCCESS, s')" and s': "ok s'"
    and m: "matches s' = matches s" and u: "users s' = (users s)(n := None)"
    using remove_law [OF assms(1), of n] assms(2) by auto
  note law = auth_law [OF s', unfolded m u]
  have "auth s' n p = Inr (OP_USER_AUTH, None)" using law by simp
  moreover have "\<forall>k r. k \<noteq> n \<longrightarrow> auth s' k r = auth s k r"
    using law auth_law [OF assms(1)] by simp
  ultimately show ?thesis using c s' by blast
qed

lemma create_then_remove:
  assumes "ok s" and "admissible n p q" and "users s n = None"
  shows "\<exists>s' s''. create s n p q = Inr (OP_SUCCESS, s') \<and> remove s' n = Inr (OP_SUCCESS, s'') \<and> ok s'' \<and>
    users s'' = users s"
proof -
  obtain s' where c: "create s n p q = Inr (OP_SUCCESS, s')" and s': "ok s'"
    and u: "users s' = (users s)(n \<mapsto> account s n p q)"
    using create_law [OF assms(1, 2)] assms(3) by auto
  obtain s'' where "remove s' n = Inr (OP_SUCCESS, s'')" "ok s''" "users s'' = (users s')(n := None)"
    using remove_law [OF s', of n] u by auto
  moreover have "(users s')(n := None) = users s" using u assms(3) by auto
  ultimately show ?thesis using c by metis
qed

end

text \<open>The database as such a store: its state is the library, the file system and the object.\<close>

definition store_ok :: "('u, 's) lib \<times> fs \<times> ('u, 's) db_t \<Rightarrow> bool" where
  "store_ok s \<longleftrightarrow> (case s of (L, F, db) \<Rightarrow> lib_ok L \<and> (\<exists>hp. storage_ok F hp \<and> db_ok L hp db))"

definition store_users :: "('u, 's) lib \<times> fs \<times> ('u, 's) db_t \<Rightarrow> string \<Rightarrow> user_account_t option" where
  "store_users s = (case s of (L, F, db) \<Rightarrow> db_users L db)"

definition store_step ::
  "('u, 's) lib \<Rightarrow> (ret_codes_t \<times> ('u, 's) db_t option \<times> fs) run \<Rightarrow>
     (ret_codes_t \<times> ('u, 's) lib \<times> fs \<times> ('u, 's) db_t) run" where
  "store_step L r = rbind r (\<lambda>(rc, db, F). case db of None \<Rightarrow> Inl Null_deref | Some d \<Rightarrow> Inr (rc, L, F, d))"

definition store_create ::
  "('u, 's) lib \<times> fs \<times> ('u, 's) db_t \<Rightarrow> string \<Rightarrow> string \<Rightarrow> u32 \<Rightarrow>
     (ret_codes_t \<times> ('u, 's) lib \<times> fs \<times> ('u, 's) db_t) run" where
  "store_create s n p q =
    (case s of (L, F, db) \<Rightarrow> store_step L (db_create_user L F (Some db) (Some n) (Some p) q))"

definition store_remove ::
  "('u, 's) lib \<times> fs \<times> ('u, 's) db_t \<Rightarrow> string \<Rightarrow> (ret_codes_t \<times> ('u, 's) lib \<times> fs \<times> ('u, 's) db_t) run" where
  "store_remove s n = (case s of (L, F, db) \<Rightarrow> store_step L (db_remove_user L F (Some db) (Some n)))"

definition store_auth ::
  "('u, 's) lib \<times> fs \<times> ('u, 's) db_t \<Rightarrow> string \<Rightarrow> string \<Rightarrow> (ret_codes_t \<times> user_account_t option) run" where
  "store_auth s n p = (case s of (L, F, db) \<Rightarrow> db_authenticate_user L (Some db) (Some n) (Some p))"

lemma store_create_law:
  assumes "lib_ok L" and "storage_ok F hp" and "db_ok L hp db" and "admissible n p q"
  shows "\<exists>db' F'. db_create_user L F (Some db) (Some n) (Some p) q =
      Inr (if db_users L db n = None then OP_SUCCESS else OP_USER_EXISTS, Some db', F') \<and>
    db_ok L hp db' \<and> storage_ok F' hp \<and>
    db_users L db' = (if db_users L db n = None then (db_users L db)(n \<mapsto> new_account L n p q) else db_users L db) \<and>
    (db_users L db n = None \<longrightarrow> F' = store_files L hp (db_text (db_accts L db')) F)"
proof (cases "db_users L db n")
  case None
  let ?a = "new_account L n p q"
  let ?db = "db\<lparr>users_htable := ht_set (lib_users L) (users_htable db) n ?a\<rparr>"
  have a: "user_ok ?a" "ua_username ?a = n"
    using new_account_ok [OF assms(1, 4)] by (simp_all add: new_account_def)
  note d = db_ok_set [OF assms(1, 3) a(1), unfolded a(2)]
  have "db_create_user L F (Some db) (Some n) (Some p) q =
      Inr (OP_SUCCESS, Some ?db, store_files L hp (db_text (db_accts L ?db)) F)"
    using db_create_new [OF assms(1) db_ok_inv [OF assms(3)] None, of p F q] db_update_db_ok [OF assms(1, 2) d(1)] assms(4)
    by (simp add: admissible_def Let_def)
  then show ?thesis using d storage_store [OF assms(2)] None by simp
next
  case (Some a)
  note l = db_ok_laws [OF assms(1, 3)]
  have "ht_key_exists (lib_users L) (users_htable db) n"
    using htable_lawsD(8) [OF l(1, 3)] Some by (simp add: db_users_def)
  then show ?thesis using Some assms by (simp add: db_create_user_def admissible_def)
qed

lemma store_remove_law:
  assumes "lib_ok L" and "storage_ok F hp" and "db_ok L hp db"
  shows "\<exists>db' F'. db_remove_user L F (Some db) (Some n) =
      Inr (if db_users L db n = None then OP_USER_NO_EXIST else OP_SUCCESS, Some db', F') \<and>
    db_ok L hp db' \<and> storage_ok F' hp \<and> db_users L db' = (db_users L db)(n := None) \<and>
    (db_users L db n \<noteq> None \<longrightarrow> F' = store_files L hp (db_text (db_accts L db')) F)"
proof -
  let ?db = "db\<lparr>users_htable := snd (ht_del (lib_users L) (users_htable db) n)\<rparr>"
  note d = db_ok_del [OF assms(1, 3), of n]
  show ?thesis
    using db_remove_eq [OF assms(1) db_ok_inv [OF assms(3)], of F n] db_update_db_ok [OF assms(1, 2) d(1)] d
      storage_store [OF assms(2)] assms(2)
    by (cases "db_users L db n") (simp_all add: Let_def)
qed

interpretation us: user_store store_ok store_users "\<lambda>(L, F, db). new_account L" "\<lambda>(L, F, db). pw_matches L"
  store_create store_remove store_auth
proof
  fix s :: "('u, 's) lib \<times> fs \<times> ('u, 's) db_t" and n p q
  obtain L F db where s: "s = (L, F, db)" by (cases s)
  assume "store_ok s"
  then obtain hp where ok: "lib_ok L" "storage_ok F hp" "db_ok L hp db" by (auto simp: store_ok_def s)
  { assume "admissible n p q"
    from store_create_law [OF ok this] ok(1)
    show "\<exists>s'. store_create s n p q = Inr (if store_users s n = None then OP_SUCCESS else OP_USER_EXISTS, s') \<and>
        store_ok s' \<and> (case s' of (L, F, db) \<Rightarrow> pw_matches L) = (case s of (L, F, db) \<Rightarrow> pw_matches L) \<and>
        store_users s' = (if store_users s n = None
          then (store_users s)(n \<mapsto> (case s of (L, F, db) \<Rightarrow> new_account L) n p q) else store_users s)"
      unfolding s by (auto simp: store_create_def store_step_def store_users_def store_ok_def) }
  from store_remove_law [OF ok, of n] ok(1)
  show "\<exists>s'. store_remove s n = Inr (if store_users s n = None then OP_USER_NO_EXIST else OP_SUCCESS, s') \<and>
      store_ok s' \<and> (case s' of (L, F, db) \<Rightarrow> pw_matches L) = (case s of (L, F, db) \<Rightarrow> pw_matches L) \<and>
      store_users s' = (store_users s)(n := None)"
    unfolding s by (auto simp: store_remove_def store_step_def store_users_def store_ok_def)
  show "store_auth s n p = Inr (case store_users s n of None \<Rightarrow> (OP_USER_AUTH, None)
      | Some a \<Rightarrow> if (case s of (L, F, db) \<Rightarrow> pw_matches L) a p then (OP_SUCCESS, Some a) else (OP_USER_AUTH, None))"
    unfolding s store_auth_def store_users_def prod.case by (rule db_auth_eq [OF ok(1) db_ok_inv [OF ok(3)]])
  show "(case s of (L, F, db) \<Rightarrow> pw_matches L) ((case s of (L, F, db) \<Rightarrow> new_account L) n p q) p"
    by (simp add: s pw_matches_def new_account_def)
qed

section \<open>Properties\<close>

text \<open>A library instance and a running database for the witnesses.\<close>

definition sample_lib :: "((string \<times> user_account_t) list, (u32 \<times> int) list) lib" where
  "sample_lib =
    \<lparr>lib_users = alist_htable, lib_sesh = alist_htable,
     lib_sha256 = (\<lambda>bs. take 32 (bs @ replicate 32 0)), lib_init_hash = 0, lib_hash_key = (\<lambda>h bs. h)\<rparr>"

definition sample_store :: fs where
  "sample_store = put_node (db_dir sample_home) Dir sample_fs"

definition sample_db :: "((string \<times> user_account_t) list, (u32 \<times> int) list) db_t" where
  "sample_db = loaded_db sample_lib sample_home [default_admin]"

lemma sample_lib_ok: "lib_ok sample_lib"
  by (simp add: lib_ok_def sample_lib_def alist_htable_laws SHA256_DIGEST_LENGTH_def)
    (simp add: min_def)

lemma sample_fresh: "fresh_home sample_fs sample_home"
  using sample_home_ok
  by (simp add: fresh_home_def room_def render_sample_home PATH_MAX_def no_failures_def)
    (simp add: sample_fs_def sample_home_def db_dir_def lookup_def)

lemma sample_storage_ok: "storage_ok sample_store sample_home"
  unfolding sample_store_def by (rule init_db_dir_ok(2) [OF sample_fresh])

lemma sample_db_ok: "db_ok sample_lib sample_home sample_db"
  unfolding sample_db_def
  by (rule loaded_db_users(2) [OF sample_lib_ok]) (simp add: user_ok_default)

lemma sample_users: "db_users sample_lib sample_db = [DEFAULT_USER \<mapsto> default_admin]"
  unfolding sample_db_def
  using loaded_db_users(1) [OF sample_lib_ok, of sample_home "[default_admin]"]
  by (simp add: default_admin_def)

lemma sample_store_ok: "store_ok (sample_lib, sample_store, sample_db)"
  using sample_lib_ok sample_storage_ok sample_db_ok by (auto simp: store_ok_def)

lemma db_init_fresh_home:
  assumes "lib_ok L" and "fresh_home F hp"
  shows "\<exists>db F'. db_init L F (Some \<lparr>p_path = render hp\<rparr>) = Inr (Some db, F') \<and>
    db_ok L hp db \<and> storage_ok F' hp \<and> db_users L db = [DEFAULT_USER \<mapsto> default_admin] \<and>
    lookup F' (db_path hp) = Some (File (db_text [default_admin]))"
proof -
  let ?F1 = "put_node (db_dir hp) Dir F"
  let ?F2 = "put_node (db_path hp) (File (db_text [default_admin])) ?F1"
  let ?F3 = "store_hash L hp (db_text [default_admin]) ?F2"
  have h: "home_ok F hp" "room hp" "lookup F (db_dir hp) = None" using assms(2) by (simp_all add: fresh_home_def)
  note i = init_db_dir_ok [OF assms(2)]
  note s1 = storage_okD [OF i(2)]
  have s2: "storage_ok ?F2 hp" by (rule storage_put(1) [OF i(2)])
  have u: "update_db_hash L ?F2 (Some \<lparr>p_path = render hp\<rparr>) (Some \<lparr>p_path = render (db_path hp)\<rparr>) =
      Inr (Some \<lparr>p_path = render (hash_path hp)\<rparr>, ?F3)"
    by (rule update_db_hash_ok [OF s2 _ assms(1)]) simp
  have s3: "storage_ok ?F3 hp" unfolding store_hash_def by (rule storage_put(2) [OF s2])
  have look: "lookup ?F3 (db_path hp) = Some (File (db_text [default_admin]))"
    "lookup ?F3 (hash_path hp) = Some (File (MAGIC_BYTES @ digest L (db_text [default_admin])))"
    by (simp_all add: store_hash_def)
  have ok: "list_all user_ok [default_admin]" by (simp add: user_ok_default)
  note load = db_load_ok [OF assms(1) s3 ok look]
  have "db_init L F (Some \<lparr>p_path = render hp\<rparr>) = Inr (Some (loaded_db L hp [default_admin]), ?F3)"
    using resolve_db(1) [OF h(1, 2)] h(3) i(1, 3, 4) resolve_db(2, 3) [OF s1(1, 2, 4)]
      init_db_file_ok [OF i(2)] u load
    by (simp add: db_init_def)
  moreover have "db_users L (loaded_db L hp [default_admin]) = [DEFAULT_USER \<mapsto> default_admin]"
    using loaded_db_users(1) [OF assms(1), of hp "[default_admin]"] by (simp add: default_admin_def)
  ultimately show ?thesis using loaded_db_users(2) [OF assms(1) ok] s3 look by blast
qed







text \<open>An account that was removed cannot be used any more.\<close>

theorem removed_user_refused:
  assumes "lib_ok L" and "storage_ok F hp" and "db_ok L hp db" and "db_users L db n \<noteq> None"
  shows "\<exists>db' F'. db_remove_user L F (Some db) (Some n) = Inr (OP_SUCCESS, Some db', F') \<and>
    db_authenticate_user L (Some db') (Some n) (Some p) = Inr (OP_USER_AUTH, None) \<and>
    (\<forall>m r. m \<noteq> n \<longrightarrow> db_authenticate_user L (Some db') (Some m) (Some r) =
       db_authenticate_user L (Some db) (Some m) (Some r))"
proof -
  have s: "store_ok (L, F, db)" "store_users (L, F, db) n \<noteq> None"
    using assms by (auto simp: store_ok_def store_users_def)
  obtain db' F' where c: "db_remove_user L F (Some db) (Some n) = Inr (OP_SUCCESS, Some db', F')"
    using store_remove_law [OF assms(1-3), of n] assms(4) by auto
  then have "store_remove (L, F, db) n = Inr (OP_SUCCESS, L, F', db')"
    by (simp add: store_remove_def store_step_def)
  with us.remove_then_auth [OF s] c show ?thesis by (auto simp: store_auth_def)
qed

theorem removed_user_refused_witness:
  "\<exists>db' F'. db_remove_user sample_lib sample_store (Some sample_db) (Some ''admin'') =
      Inr (OP_SUCCESS, Some db', F') \<and>
    db_authenticate_user sample_lib (Some db') (Some ''admin'') (Some ''password'') = Inr (OP_USER_AUTH, None)"
proof -
  have "db_users sample_lib sample_db ''admin'' \<noteq> None" by (simp add: sample_users DEFAULT_USER_def)
  from removed_user_refused [OF sample_lib_ok sample_storage_ok sample_db_ok this] show ?thesis by blast
qed

text \<open>Authentication decides by the stored digest alone.\<close>

theorem authenticate_spec:
  assumes "lib_ok L" and "db_ok L hp db"
  shows "db_authenticate_user L (Some db) (Some n) (Some p) =
    Inr (case db_users L db n of
           None \<Rightarrow> (OP_USER_AUTH, None)
         | Some a \<Rightarrow>
             if h_array (ua_hash a) = digest L (str_bytes p) then (OP_SUCCESS, Some a)
             else (OP_USER_AUTH, None))"
  unfolding db_auth_eq [OF assms(1) db_ok_inv [OF assms(2)]] pw_matches_def ..

theorem authenticate_spec_witness:
  "db_authenticate_user sample_lib (Some sample_db) (Some ''root'') (Some ''password'') =
    Inr (OP_USER_AUTH, None)"
  using authenticate_spec [OF sample_lib_ok sample_db_ok] by (simp add: sample_users DEFAULT_USER_def)

text \<open>Requests that break a rule are refused and change nothing.\<close>

theorem create_user_refused:
  assumes "lib_ok L" and "db_ok L hp db"
    and "length p \<notin> {6..32} \<or> length n \<notin> {3..20} \<or> db_users L db n \<noteq> None"
  shows "db_create_user L F (Some db) (Some n) (Some p) q =
    Inr (if length p \<in> {6..32} \<and> length n \<in> {3..20} then OP_USER_EXISTS else OP_CRED_RULE_ERROR, Some db, F)"
proof -
  note l = db_ok_laws [OF assms(1, 2)]
  have "ht_key_exists (lib_users L) (users_htable db) n \<longleftrightarrow> db_users L db n \<noteq> None"
    using htable_lawsD(8) [OF l(1, 3)] by (simp add: db_users_def)
  then show ?thesis using assms(3)
    by (auto simp: db_create_user_def MAX_PASSWD_LEN_def MIN_PASSWD_LEN_def MAX_USERNAME_LEN_def
        MIN_USERNAME_LEN_def)
qed

theorem create_user_refused_witness:
  "db_create_user sample_lib sample_store (Some sample_db) (Some ''admin'') (Some ''short'') 3 =
    Inr (OP_CRED_RULE_ERROR, Some sample_db, sample_store)"
  using create_user_refused [OF sample_lib_ok sample_db_ok, of "''short''" "''admin''"] by simp



lemma verify_magicD:
  assumes "verify_magic (Some c)"
  shows "\<exists>t. fc_stream c = MAGIC_BYTES @ t"
proof -
  have "take (length MAGIC_BYTES) (fc_stream c) = MAGIC_BYTES"
    using assms by (simp only: verify_magic_def option.case split: if_splits)
  then have "fc_stream c = MAGIC_BYTES @ drop (length MAGIC_BYTES) (fc_stream c)"
    using append_take_drop_id [of "length MAGIC_BYTES" "fc_stream c"] by argo
  then show ?thesis by blast
qed

lemma get_stored_hash_okD:
  assumes "fst (get_stored_hash c)"
  shows "verify_magic (Some c)" and "fc_stream_size c = SHA256_DIGEST_LENGTH + length MAGIC_BYTES"
proof -
  show v: "verify_magic (Some c)"
    using assms unfolding get_stored_hash_def by (cases "verify_magic (Some c)") simp_all
  show "fc_stream_size c = SHA256_DIGEST_LENGTH + length MAGIC_BYTES"
  proof (rule ccontr)
    assume "fc_stream_size c \<noteq> SHA256_DIGEST_LENGTH + length MAGIC_BYTES"
    then show False using assms v unfolding get_stored_hash_def by simp
  qed
qed

text \<open>Property C31: a changed database file is noticed.\<close>

theorem tampering_detected:
  assumes "lib_ok L" and "storage_ok F hp"
    and "lookup F (db_path hp) = Some (File bs)" and "lookup F (hash_path hp) = Some (File hb)"
    and "hb \<noteq> MAGIC_BYTES @ digest L bs"
  shows "db_init L F (Some \<lparr>p_path = render hp\<rparr>) = Inr (None, F)"
proof -
  note s = storage_okD [OF assms(2)] and l = room_lengths [OF storage_okD(2, 8) [OF assms(2)]]
  let ?sha = "lib_sha256 L"
  obtain dbc where r1: "f_read_file ?sha F (Some \<lparr>p_path = render (db_path hp)\<rparr>) = Inr (Some dbc, OP_SUCCESS)"
    and dbc: "fc_hash dbc = \<lparr>h_size = SHA256_DIGEST_LENGTH, h_array = digest L bs\<rparr>"
    using f_read_file_plain [OF s(7) assms(3) l(3) s(3), of ?sha] by (simp add: digest_def)
  obtain hc where r2: "f_read_file ?sha F (Some \<lparr>p_path = render (hash_path hp)\<rparr>) = Inr (Some hc, OP_SUCCESS)"
    and hc: "fc_stream hc = hb" "fc_stream_size hc = length hb"
    using f_read_file_plain [OF s(7) assms(4) l(4) s(3), of ?sha] by simp
  have load: "db_load L F (Some \<lparr>p_path = render hp\<rparr>) (Some \<lparr>p_path = render (hash_path hp)\<rparr>)
      (Some \<lparr>p_path = render (db_path hp)\<rparr>) = Inr None"
  proof (cases "fst (get_stored_hash hc)")
    case False
    then show ?thesis unfolding db_load_def r1 r2 by (cases "get_stored_hash hc") simp
  next
    case True
    then have m: "verify_magic (Some hc)" and n: "fc_stream_size hc = SHA256_DIGEST_LENGTH + length MAGIC_BYTES"
      by (rule get_stored_hash_okD)+
    obtain t where hb: "hb = MAGIC_BYTES @ t" using verify_magicD [OF m] hc(1) by auto
    have st: "fc_stream hc = MAGIC_BYTES @ t" "fc_stream_size hc = length (MAGIC_BYTES @ t)"
      using hc by (simp_all only: hb)
    have g: "get_stored_hash hc = (True, hc\<lparr>fc_stream := t, fc_stream_size := length t\<rparr>)"
      unfolding get_stored_hash_def get_stored [OF st] using m(1) n by simp
    have t: "length t = SHA256_DIGEST_LENGTH" using n hc(2) unfolding hb by simp
    have "digest L bs \<noteq> t" using assms(5) hb by blast
    moreover have "length (digest L bs) = SHA256_DIGEST_LENGTH" by (rule length_digest [OF assms(1)])
    ultimately have "hash_bytes_match (Some (fc_hash dbc)) (Some t) = Inr False"
      using t dbc by (simp add: hash_bytes_match_def hash_compare_eq SHA256_DIGEST_LENGTH_def)
    then show ?thesis unfolding db_load_def r1 r2 using g by simp
  qed
  have "lookup F (db_dir hp) = Some Dir" using s(4) by (simp add: is_dir_def)
  then show ?thesis
    using resolve_db(1) [OF s(1, 2)] resolve_db(2, 3) [OF s(1, 2, 4)] assms(3, 4) load
    by (simp add: db_init_def)
qed

theorem tampering_detected_witness:
  "\<exists>F. db_init sample_lib F (Some \<lparr>p_path = ''/srv/home''\<rparr>) = Inr (None, F)"
proof -
  let ?F = "put_node (hash_path sample_home) (File [1]) (put_node (db_path sample_home) (File []) sample_store)"
  have a: "storage_ok ?F sample_home" by (intro storage_put sample_storage_ok)
  have b: "lookup ?F (db_path sample_home) = Some (File [])" "lookup ?F (hash_path sample_home) = Some (File [1])"
    by simp_all
  have c: "[1] \<noteq> MAGIC_BYTES @ digest sample_lib []"
  proof
    assume "[1] = MAGIC_BYTES @ digest sample_lib []"
    then have "length [1 :: u8] = length (MAGIC_BYTES @ digest sample_lib [])" by simp
    then show False by simp
  qed
  from tampering_detected [OF sample_lib_ok a b c] show ?thesis unfolding render_sample_home by blast
qed

end
