(* ===== verification/Ctrl.thy ===== *)
theory Ctrl
  imports Db
begin

text \<open>
  \<^verbatim>\<open>src/server/server_ctrl.c\<close>: a request that was read from a client is authenticated, its session is
  checked, its permission is checked, and the operation is dispatched to the file API or to the user
  database. The clock and the C library's random numbers are the parameter \<open>E\<close>.
\<close>

section \<open>Requests and responses\<close>

text \<open>
  Enumerations are read from the wire as one byte into a zeroed integer, so they may hold values with
  no enumerator; they are kept as 32-bit integers.
\<close>

definition ACT_USER_OPERATION :: u32 where "ACT_USER_OPERATION = 1"
definition ACT_DELETE_REMOTE_FILE :: u32 where "ACT_DELETE_REMOTE_FILE = 2"
definition ACT_LIST_REMOTE_DIRECTORY :: u32 where "ACT_LIST_REMOTE_DIRECTORY = 3"
definition ACT_GET_REMOTE_FILE :: u32 where "ACT_GET_REMOTE_FILE = 4"
definition ACT_MAKE_REMOTE_DIRECTORY :: u32 where "ACT_MAKE_REMOTE_DIRECTORY = 5"
definition ACT_PUT_REMOTE_FILE :: u32 where "ACT_PUT_REMOTE_FILE = 6"
definition ACT_LOCAL_OPERATION :: u32 where "ACT_LOCAL_OPERATION = 7"
definition USR_ACT_CREATE_USER :: u32 where "USR_ACT_CREATE_USER = 10"
definition USR_ACT_DELETE_USER :: u32 where "USR_ACT_DELETE_USER = 20"

lemmas act_codes =
  ACT_USER_OPERATION_def ACT_DELETE_REMOTE_FILE_def ACT_LIST_REMOTE_DIRECTORY_def ACT_GET_REMOTE_FILE_def
  ACT_MAKE_REMOTE_DIRECTORY_def ACT_PUT_REMOTE_FILE_def ACT_LOCAL_OPERATION_def

lemmas usr_codes = USR_ACT_CREATE_USER_def USR_ACT_DELETE_USER_def

lemmas perm_codes = perm_READ_def perm_READ_WRITE_def perm_ADMIN_def

datatype payload_type_t = NO_PAYLOAD | STD_PAYLOAD | USER_PAYLOAD

record std_payload_t =
  sp_path_len :: u16
  sp_path :: "string option"
  sp_byte_stream :: "bytes option"
  sp_hash_stream :: "bytes option"
  sp_byte_stream_len :: u64

record user_payload_t =
  up_user_flag :: u32
  up_user_perm :: u32
  up_username_len :: u16
  up_username :: "string option"
  up_passwd_len :: u16
  up_passwd :: "string option"

text \<open>The union of the two payload pointers: NULL, or a pointer to one of the two structures.\<close>

datatype payload_ptr = Null_payload | Std_payload std_payload_t | User_payload user_payload_t

record wire_payload_t =
  wp_opt_code :: u32
  wp_user_flag :: u32
  wp_reserved :: u16
  wp_username_len :: u16
  wp_passwd_len :: u16
  wp_session_id :: u32
  wp_username :: "string option"
  wp_passwd :: "string option"
  wp_payload_len :: u64
  wp_type :: payload_type_t
  wp_payload :: payload_ptr

text \<open>Reading the union through one of its members.\<close>

fun p_std_payload :: "payload_ptr \<Rightarrow> std_payload_t run" where
  "p_std_payload (Std_payload p) = Inr p"
| "p_std_payload (User_payload p) = Inl Wrong_member"
| "p_std_payload Null_payload = Inl Null_deref"

fun p_user_payload :: "payload_ptr \<Rightarrow> user_payload_t run" where
  "p_user_payload (User_payload p) = Inr p"
| "p_user_payload (Std_payload p) = Inl Wrong_member"
| "p_user_payload Null_payload = Inl Null_deref"

record act_resp_t =
  resp_msg :: "string option"
  resp_result :: ret_codes_t
  resp_content :: "file_content_t option"

definition OP_1 :: string where "OP_1 = ''Server action was successful''"
definition OP_2 :: string where "OP_2 = ''Provided Session ID was invalid or expired''"
definition OP_3 :: string where
  "OP_3 = ''User associated with provided Session ID has insufficient permissions to perform the action''"
definition OP_4 :: string where "OP_4 = ''User could not be created because it already exists''"
definition OP_5 :: string where "OP_5 = ''File could not be created because it already exists''"
definition OP_6 :: string where
  "OP_6 = ''Username must be between 3 and 20 characters and password must be between 6 and 32 characters''"
definition OP_7 :: string where "OP_7 = ''Either username or password is incorrect''"
definition OP_8 :: string where "OP_8 = ''Directory is not empty, cannot remove''"
definition OP_9 :: string where
  "OP_9 = ''Path could not be resolved. This could be because it does not exist, or the path does not resolve within the home directory of the server''"
definition OP_10 :: string where "OP_10 = ''Path provided is not of type directory.''"
definition OP_11 :: string where "OP_11 = ''Path provided is not of type regular file.''"
definition OP_12 :: string where "OP_12 = ''Directory could not be created because it already exists''"
definition OP_13 :: string where "OP_13 = ''Network socket is closed, cannot read or send anymore data''"
definition OP_14 :: string where "OP_14 = ''User could not be removed because they do not exist''"
definition OP_15 :: string where "OP_15 = ''File requested exists but it is empty''"
definition OP_16 :: string where "OP_16 = ''Directory requested exists but it is empty''"
definition OP_254 :: string where
  "OP_254 = ''I/O error occurred during the action. This could be due to permissions, file not existing, or error while writing and reading.''"
definition OP_255 :: string where "OP_255 = ''Server action failed''"

fun get_err_msg :: "ret_codes_t \<Rightarrow> string" where
  "get_err_msg OP_SUCCESS = OP_1"
| "get_err_msg OP_SESSION_ERROR = OP_2"
| "get_err_msg OP_PERMISSION_ERROR = OP_3"
| "get_err_msg OP_USER_EXISTS = OP_4"
| "get_err_msg OP_FILE_EXISTS = OP_5"
| "get_err_msg OP_CRED_RULE_ERROR = OP_6"
| "get_err_msg OP_USER_AUTH = OP_7"
| "get_err_msg OP_DIR_NOT_EMPTY = OP_8"
| "get_err_msg OP_RESOLVE_ERROR = OP_9"
| "get_err_msg OP_PATH_NOT_DIR = OP_10"
| "get_err_msg OP_PATH_NOT_FILE = OP_11"
| "get_err_msg OP_DIR_EXISTS = OP_12"
| "get_err_msg OP_SOCK_CLOSED = OP_13"
| "get_err_msg OP_USER_NO_EXIST = OP_14"
| "get_err_msg OP_FILE_EMPTY = OP_15"
| "get_err_msg OP_DIR_EMPTY = OP_16"
| "get_err_msg OP_IO_ERROR = OP_254"
| "get_err_msg OP_FAILURE = OP_255"

definition get_resp :: act_resp_t where
  "get_resp = \<lparr>resp_msg = None, resp_result = OP_SUCCESS, resp_content = None\<rparr>"

definition set_resp :: "ret_codes_t \<Rightarrow> act_resp_t" where
  "set_resp code = \<lparr>resp_msg = Some (get_err_msg code), resp_result = code, resp_content = None\<rparr>"

definition ctrl_populate_resp :: "ret_codes_t \<Rightarrow> act_resp_t" where
  "ctrl_populate_resp code =
    get_resp\<lparr>resp_msg := Some (get_err_msg code), resp_result := code, resp_content := None\<rparr>"

section \<open>Sessions\<close>

text \<open>
  The environment of one request: the time \<^verbatim>\<open>time\<close> returns, the sequence of numbers \<^verbatim>\<open>rand\<close> returns, and
  the configured timeout. Each call of \<^verbatim>\<open>rand\<close> consumes one number; the state counts the calls.
\<close>

record env =
  e_now :: int
  e_rand :: "nat \<Rightarrow> u32"
  e_timeout :: int

definition gen_session :: "(nat \<Rightarrow> u32) \<Rightarrow> nat \<Rightarrow> u32 \<times> nat" where
  "gen_session rnd i =
    (let sesh = rnd i AND 0xff;
         sesh = sesh OR push_bit 8 (rnd (i + 1) AND 0xff);
         sesh = sesh OR push_bit 16 (rnd (i + 2) AND 0xff);
         sesh = sesh OR push_bit 24 (rnd (i + 3) AND 0xff)
     in (sesh, i + 4))"

text \<open>The loop draws numbers until one is free; it may never end.\<close>

partial_function (option) session_loop ::
  "('u, 's) lib \<Rightarrow> 's \<Rightarrow> (nat \<Rightarrow> u32) \<Rightarrow> nat \<Rightarrow> (u32 \<times> nat) option" where
  "session_loop L t rnd i =
    (let (sesh, i') = gen_session rnd i in
     if ht_key_exists (lib_sesh L) t sesh then session_loop L t rnd i' else Some (sesh, i'))"

text \<open>The new session is stored with the current time.\<close>

definition generate_session_id :: "('u, 's) lib \<Rightarrow> env \<Rightarrow> 's \<Rightarrow> nat \<Rightarrow> (ret_codes_t \<times> u32 \<times> 's \<times> nat) run" where
  "generate_session_id L E t i =
    rbind (run_of_option (session_loop L t (e_rand E) i)) (\<lambda>(sesh, i').
      Inr (OP_SUCCESS, sesh, ht_set (lib_sesh L) t sesh (e_now E), i'))"

section \<open>Operations\<close>

text \<open>What a request works on: the file system, the database, and the count of random numbers used.\<close>

record ('u, 's) srv =
  sv_fs :: fs
  sv_db :: "('u, 's) db_t"
  sv_rand :: nat

definition do_get_file :: "('u, 's) lib \<Rightarrow> ('u, 's) srv \<Rightarrow> wire_payload_t \<Rightarrow> act_resp_t run" where
  "do_get_file L S p_ld =
    rbind (p_std_payload (wp_payload p_ld)) (\<lambda>p_std.
    rbind (f_ver_path_resolve (sv_fs S) (p_home_dir (sv_db S)) (sp_path p_std)) (\<lambda>p_path.
      if p_path = None then Inr (set_resp OP_RESOLVE_ERROR)
      else
        rbind (f_read_file (lib_sha256 L) (sv_fs S) p_path) (\<lambda>(p_content, code).
          case p_content of
            None \<Rightarrow> Inr (set_resp code)
          | Some c \<Rightarrow>
              if fc_stream_size c = 0 then Inr (set_resp OP_FILE_EMPTY)
              else Inr ((set_resp OP_SUCCESS)\<lparr>resp_content := Some c\<rparr>))))"

definition do_list_dir :: "('u, 's) lib \<Rightarrow> ('u, 's) srv \<Rightarrow> wire_payload_t \<Rightarrow> act_resp_t run" where
  "do_list_dir L S p_ld =
    rbind (p_std_payload (wp_payload p_ld)) (\<lambda>p_std.
    rbind (f_ver_path_resolve (sv_fs S) (p_home_dir (sv_db S)) (sp_path p_std)) (\<lambda>p_path.
      if p_path = None then Inr (set_resp OP_RESOLVE_ERROR)
      else
        rbind (f_list_dir (lib_sha256 L) (sv_fs S) p_path) (\<lambda>(p_content, code).
          case p_content of
            None \<Rightarrow> Inr (set_resp code)
          | Some c \<Rightarrow>
              if fc_stream_size c = 0 then Inr (set_resp OP_DIR_EMPTY)
              else Inr ((set_resp OP_SUCCESS)\<lparr>resp_content := Some c\<rparr>))))"

text \<open>
  The file API writes \<open>byte_stream_len\<close> bytes of the stream. A request without a stream has a NULL
  pointer there, which the file API refuses.
\<close>

definition stream_arg :: "std_payload_t \<Rightarrow> bytes option run" where
  "stream_arg p_std =
    (case sp_byte_stream p_std of
       None \<Rightarrow> Inr None
     | Some bs \<Rightarrow>
         if length bs < unat (sp_byte_stream_len p_std) then Inl Oob_read
         else Inr (Some (take (unat (sp_byte_stream_len p_std)) bs)))"

definition do_put_file :: "('u, 's) srv \<Rightarrow> wire_payload_t \<Rightarrow> (ret_codes_t \<times> fs) run" where
  "do_put_file S p_ld =
    rbind (p_std_payload (wp_payload p_ld)) (\<lambda>p_std.
    rbind (f_ver_path_resolve (sv_fs S) (p_home_dir (sv_db S)) (sp_path p_std)) (\<lambda>p_path.
      if p_path \<noteq> None then Inr (OP_FILE_EXISTS, sv_fs S)
      else
        rbind (f_ver_valid_resolve (sv_fs S) (p_home_dir (sv_db S)) (sp_path p_std)) (\<lambda>p_path.
          if p_path = None then Inr (OP_RESOLVE_ERROR, sv_fs S)
          else
            rbind (stream_arg p_std) (\<lambda>p_byte_stream.
              Inr (f_write_file (sv_fs S) p_path p_byte_stream)))))"

definition do_make_dir :: "('u, 's) srv \<Rightarrow> wire_payload_t \<Rightarrow> (ret_codes_t \<times> fs) run" where
  "do_make_dir S p_ld =
    rbind (p_std_payload (wp_payload p_ld)) (\<lambda>p_std.
    rbind (f_ver_valid_resolve (sv_fs S) (p_home_dir (sv_db S)) (sp_path p_std)) (\<lambda>p_path.
      if p_path = None then Inr (OP_RESOLVE_ERROR, sv_fs S)
      else Inr (f_create_dir (sv_fs S) p_path)))"

definition do_del_file :: "('u, 's) srv \<Rightarrow> wire_payload_t \<Rightarrow> (ret_codes_t \<times> fs) run" where
  "do_del_file S p_ld =
    rbind (p_std_payload (wp_payload p_ld)) (\<lambda>p_std.
    rbind (f_ver_path_resolve (sv_fs S) (p_home_dir (sv_db S)) (sp_path p_std)) (\<lambda>p_path.
      if p_path = None then Inr (OP_RESOLVE_ERROR, sv_fs S)
      else f_del_file (sv_fs S) p_path))"

definition user_action :: "('u, 's) lib \<Rightarrow> ('u, 's) srv \<Rightarrow> wire_payload_t \<Rightarrow>
    (ret_codes_t \<times> ('u, 's) db_t option \<times> fs) run" where
  "user_action L S p_ld =
    rbind (p_user_payload (wp_payload p_ld)) (\<lambda>p_usr_ld.
      if up_user_flag p_usr_ld = USR_ACT_CREATE_USER then
        db_create_user L (sv_fs S) (Some (sv_db S)) (up_username p_usr_ld) (up_passwd p_usr_ld)
          (up_user_perm p_usr_ld)
      else if up_user_flag p_usr_ld = USR_ACT_DELETE_USER then
        db_remove_user L (sv_fs S) (Some (sv_db S)) (up_username p_usr_ld)
      else Inr (OP_FAILURE, Some (sv_db S), sv_fs S))"

section \<open>The request handler\<close>

text \<open>
  \<open>check_session\<close> is the part of \<^verbatim>\<open>ctrl_parse_action\<close> that follows a successful authentication; it
  also returns the session identifier the request carries from then on.
\<close>

definition check_session :: "('u, 's) lib \<Rightarrow> env \<Rightarrow> ('u, 's) srv \<Rightarrow> u32 \<Rightarrow> (ret_codes_t \<times> u32 \<times> ('u, 's) srv) run"
where
  "check_session L E S session_id =
    (let db = sv_db S; t = sesh_htable db in
     if session_id = 0 then
       rbind (generate_session_id L E t (sv_rand S)) (\<lambda>(res, sesh, t', i').
         Inr (res, sesh, S\<lparr>sv_db := db\<lparr>sesh_htable := t'\<rparr>, sv_rand := i'\<rparr>))
     else if \<not> ht_key_exists (lib_sesh L) t session_id then Inr (OP_SESSION_ERROR, session_id, S)
     else
       (case ht_get (lib_sesh L) t session_id of
          None \<Rightarrow> Inl Null_deref
        | Some session_time \<Rightarrow>
            if e_now E - session_time > e_timeout E then
              Inr (OP_SESSION_ERROR, session_id,
                S\<lparr>sv_db := db\<lparr>sesh_htable := snd (ht_del (lib_sesh L) t session_id)\<rparr>\<rparr>)
            else
              Inr (OP_SUCCESS, session_id,
                S\<lparr>sv_db := db\<lparr>sesh_htable := ht_set (lib_sesh L) t session_id (e_now E)\<rparr>\<rparr>)))"

text \<open>The results of the operations that return a code become a response and a state.\<close>

definition fs_result :: "('u, 's) srv \<Rightarrow> (ret_codes_t \<times> fs) run \<Rightarrow> (act_resp_t \<times> ('u, 's) srv) run" where
  "fs_result S r = rbind r (\<lambda>(code, F). Inr (set_resp code, S\<lparr>sv_fs := F\<rparr>))"

definition db_result ::
  "('u, 's) srv \<Rightarrow> (ret_codes_t \<times> ('u, 's) db_t option \<times> fs) run \<Rightarrow> (act_resp_t \<times> ('u, 's) srv) run" where
  "db_result S r =
    rbind r (\<lambda>(code, p_db, F).
      Inr (set_resp code, S\<lparr>sv_fs := F, sv_db := (case p_db of None \<Rightarrow> sv_db S | Some db \<Rightarrow> db)\<rparr>))"

text \<open>\<open>dispatch\<close> is the switch over the operation, for the account that authenticated.\<close>

definition dispatch ::
  "('u, 's) lib \<Rightarrow> ('u, 's) srv \<Rightarrow> user_account_t \<Rightarrow> wire_payload_t \<Rightarrow> (act_resp_t \<times> ('u, 's) srv) run" where
  "dispatch L S p_user p_client_req =
    (let opt_code = wp_opt_code p_client_req in
     if opt_code = ACT_LOCAL_OPERATION then Inr (set_resp OP_SUCCESS, S)
     else if opt_code = ACT_USER_OPERATION then
       rbind (p_user_payload (wp_payload p_client_req)) (\<lambda>ld.
         if up_user_flag ld = USR_ACT_CREATE_USER then
           if ua_permission p_user < up_user_perm ld then Inr (set_resp OP_PERMISSION_ERROR, S)
           else db_result S (user_action L S p_client_req)
         else if up_user_flag ld = USR_ACT_DELETE_USER then
           if ua_permission p_user \<noteq> perm_ADMIN then Inr (set_resp OP_PERMISSION_ERROR, S)
           else db_result S (user_action L S p_client_req)
         else Inr (set_resp OP_FAILURE, S))
     else if opt_code = ACT_DELETE_REMOTE_FILE then
       if ua_permission p_user < perm_READ_WRITE then Inr (set_resp OP_PERMISSION_ERROR, S)
       else fs_result S (do_del_file S p_client_req)
     else if opt_code = ACT_MAKE_REMOTE_DIRECTORY then
       if ua_permission p_user < perm_READ_WRITE then Inr (set_resp OP_PERMISSION_ERROR, S)
       else fs_result S (do_make_dir S p_client_req)
     else if opt_code = ACT_PUT_REMOTE_FILE then
       if ua_permission p_user < perm_READ_WRITE then Inr (set_resp OP_PERMISSION_ERROR, S)
       else fs_result S (do_put_file S p_client_req)
     else if opt_code = ACT_LIST_REMOTE_DIRECTORY then
       rbind (do_list_dir L S p_client_req) (\<lambda>resp. Inr (resp, S))
     else if opt_code = ACT_GET_REMOTE_FILE then
       rbind (do_get_file L S p_client_req) (\<lambda>resp. Inr (resp, S))
     else Inr (set_resp OP_FAILURE, S))"

text \<open>\<open>ctrl_request\<close> is the body of \<^verbatim>\<open>ctrl_parse_action\<close>; NULL arguments give a NULL response.\<close>

definition ctrl_request ::
  "('u, 's) lib \<Rightarrow> env \<Rightarrow> ('u, 's) srv \<Rightarrow> wire_payload_t \<Rightarrow> (act_resp_t \<times> wire_payload_t \<times> ('u, 's) srv) run" where
  "ctrl_request L E S req =
    rbind (db_authenticate_user L (Some (sv_db S)) (wp_username req) (wp_passwd req)) (\<lambda>(res, p_user).
      if res \<noteq> OP_SUCCESS then Inr (set_resp res, req, S)
      else
        rbind (check_session L E S (wp_session_id req)) (\<lambda>(res, sesh, S).
          let req = req\<lparr>wp_session_id := sesh\<rparr> in
          if res \<noteq> OP_SUCCESS then Inr (set_resp res, req, S)
          else
            (case p_user of
               None \<Rightarrow> Inl Null_deref
             | Some user \<Rightarrow> rbind (dispatch L S user req) (\<lambda>(resp, S). Inr (resp, req, S)))))"

definition ctrl_parse_action ::
  "('u, 's) lib \<Rightarrow> env \<Rightarrow> ('u, 's) srv option \<Rightarrow> wire_payload_t option \<Rightarrow>
     (act_resp_t option \<times> wire_payload_t option \<times> ('u, 's) srv option) run" where
  "ctrl_parse_action L E p_db p_client_req =
    (case (p_db, p_client_req) of
       (Some S, Some req) \<Rightarrow>
         rbind (ctrl_request L E S req) (\<lambda>(resp, req, S). Inr (Some resp, Some req, Some S))
     | _ \<Rightarrow> Inr (None, p_client_req, p_db))"

section \<open>The abstract access control\<close>

text \<open>
  What the controller promises, over two maps: the accounts by name and the sessions with the time of
  their last use. \<open>login\<close> is authentication, \<open>spec_session\<close> the life of a session, \<open>authorised\<close> the
  permission table, \<open>spec_users\<close> the effect of an authorised request on the accounts.
\<close>

type_synonym accounts = "string \<Rightarrow> user_account_t option"
type_synonym sessions = "u32 \<Rightarrow> int option"

definition login :: "('u, 's) lib \<Rightarrow> accounts \<Rightarrow> wire_payload_t \<Rightarrow> user_account_t option" where
  "login L U req =
    (case (wp_username req, wp_passwd req) of
       (Some n, Some p) \<Rightarrow>
         (case U n of None \<Rightarrow> None | Some u \<Rightarrow> if pw_matches L u p then Some u else None)
     | _ \<Rightarrow> None)"

definition spec_session :: "env \<Rightarrow> sessions \<Rightarrow> u32 \<Rightarrow> u32 \<Rightarrow> bool \<times> sessions" where
  "spec_session E M session_id fresh =
    (if session_id = 0 then (True, M(fresh \<mapsto> e_now E))
     else
       (case M session_id of
          None \<Rightarrow> (False, M)
        | Some t \<Rightarrow>
            if e_now E - t > e_timeout E then (False, M(session_id := None))
            else (True, M(session_id \<mapsto> e_now E))))"

definition authorised :: "user_account_t \<Rightarrow> wire_payload_t \<Rightarrow> bool" where
  "authorised u req =
    (if wp_opt_code req = ACT_USER_OPERATION then
       (case wp_payload req of
          User_payload p \<Rightarrow>
            if up_user_flag p = USR_ACT_CREATE_USER then up_user_perm p \<le> ua_permission u
            else if up_user_flag p = USR_ACT_DELETE_USER then ua_permission u = perm_ADMIN
            else True
        | _ \<Rightarrow> True)
     else if wp_opt_code req \<in> {ACT_DELETE_REMOTE_FILE, ACT_MAKE_REMOTE_DIRECTORY, ACT_PUT_REMOTE_FILE}
       then perm_READ_WRITE \<le> ua_permission u
     else True)"

definition spec_users :: "('u, 's) lib \<Rightarrow> accounts \<Rightarrow> wire_payload_t \<Rightarrow> accounts" where
  "spec_users L U req =
    (case wp_payload req of
       User_payload p \<Rightarrow>
         if wp_opt_code req \<noteq> ACT_USER_OPERATION then U
         else if up_user_flag p = USR_ACT_CREATE_USER then
           (case (up_username p, up_passwd p) of
              (Some n, Some pw) \<Rightarrow>
                if U n = None \<and> length n \<in> {3..20} \<and> length pw \<in> {6..32}
                then U(n \<mapsto> new_account L n pw (up_user_perm p)) else U
            | _ \<Rightarrow> U)
         else if up_user_flag p = USR_ACT_DELETE_USER then
           (case up_username p of Some n \<Rightarrow> U(n := None) | None \<Rightarrow> U)
         else U
     | _ \<Rightarrow> U)"

text \<open>The two maps of a server state.\<close>

definition accounts_of :: "('u, 's) lib \<Rightarrow> ('u, 's) srv \<Rightarrow> accounts" where
  "accounts_of L S = db_users L (sv_db S)"

definition sessions_of :: "('u, 's) lib \<Rightarrow> ('u, 's) srv \<Rightarrow> sessions" where
  "sessions_of L S = ht_get (lib_sesh L) (sesh_htable (sv_db S))"

lemma sv_simps [simp]:
  "accounts_of L (S\<lparr>sv_fs := F\<rparr>) = accounts_of L S" "sessions_of L (S\<lparr>sv_fs := F\<rparr>) = sessions_of L S"
  "accounts_of L (S\<lparr>sv_rand := i\<rparr>) = accounts_of L S" "sessions_of L (S\<lparr>sv_rand := i\<rparr>) = sessions_of L S"
  "accounts_of L (S\<lparr>sv_db := db\<rparr>) = db_users L db"
  "sessions_of L (S\<lparr>sv_db := db\<rparr>) = ht_get (lib_sesh L) (sesh_htable db)"
  by (simp_all add: accounts_of_def sessions_of_def)

section \<open>Authentication\<close>

lemma auth_login:
  assumes "lib_ok L" and "db_inv L db"
  shows "db_authenticate_user L (Some db) (wp_username req) (wp_passwd req) =
    Inr (case login L (db_users L db) req of
           Some u \<Rightarrow> (OP_SUCCESS, Some u)
         | None \<Rightarrow> (if wp_username req = None then OP_FAILURE else OP_USER_AUTH, None))"
proof (cases "wp_username req")
  case None
  then show ?thesis by (simp add: db_authenticate_user_def login_def)
next
  case (Some n)
  show ?thesis
  proof (cases "wp_passwd req")
    case None
    then show ?thesis using Some by (simp add: db_authenticate_user_def login_def)
  next
    case p: (Some p)
    show ?thesis unfolding Some p db_auth_eq [OF assms]
      using Some p by (cases "db_users L db n") (simp_all add: login_def)
  qed
qed

lemma ctrl_request_eq:
  assumes "lib_ok L" and "db_inv L (sv_db S)"
  shows "ctrl_request L E S req =
    (case login L (accounts_of L S) req of
       None \<Rightarrow> Inr (set_resp (if wp_username req = None then OP_FAILURE else OP_USER_AUTH), req, S)
     | Some u \<Rightarrow>
         rbind (check_session L E S (wp_session_id req)) (\<lambda>(res, sesh, S).
           let req = req\<lparr>wp_session_id := sesh\<rparr> in
           if res \<noteq> OP_SUCCESS then Inr (set_resp res, req, S)
           else rbind (dispatch L S u req) (\<lambda>(resp, S). Inr (resp, req, S))))"
  unfolding ctrl_request_def auth_login [OF assms] accounts_of_def
  by (cases "login L (db_users L (sv_db S)) req") (simp_all cong: if_cong)

section \<open>Sessions\<close>

lemma session_loop_free:
  "session_loop L t rnd i = Some r \<Longrightarrow> \<not> ht_key_exists (lib_sesh L) t (fst r)"
  by (rule session_loop.raw_induct [where P = "\<lambda>L t rnd i r. \<not> ht_key_exists (lib_sesh L) t (fst r)"])
    (auto simp: Let_def split: prod.splits if_splits)

text \<open>The \<open>k\<close>-th identifier that the random numbers from the \<open>i\<close>-th on give.\<close>

definition draw :: "(nat \<Rightarrow> u32) \<Rightarrow> nat \<Rightarrow> nat \<Rightarrow> u32" where
  "draw rnd i k = fst (gen_session rnd (i + 4 * k))"

lemma gen_session_draw: "gen_session rnd i = (draw rnd i 0, i + 4)"
  by (simp add: draw_def gen_session_def Let_def)

lemma draw_Suc: "draw rnd (i + 4) k = draw rnd i (Suc k)"
  by (simp add: draw_def algebra_simps)

lemma session_loop_eq:
  "session_loop L t rnd i =
    (if ht_key_exists (lib_sesh L) t (draw rnd i 0) then session_loop L t rnd (i + 4)
     else Some (draw rnd i 0, i + 4))"
  by (subst session_loop.simps) (simp add: gen_session_draw)

lemma session_loop_finds:
  "\<not> ht_key_exists (lib_sesh L) t (draw rnd i k) \<Longrightarrow> \<exists>r. session_loop L t rnd i = Some r"
proof (induction k arbitrary: i)
  case 0
  then show ?case by (subst session_loop_eq) simp
next
  case (Suc k)
  then have "\<exists>r. session_loop L t rnd (i + 4) = Some r" by (simp add: draw_Suc)
  then show ?case by (subst session_loop_eq) simp
qed

lemma session_loop_draws:
  "session_loop L t rnd i = Some r \<Longrightarrow> \<exists>k. fst r = draw rnd i k"
proof (rule session_loop.raw_induct [where P = "\<lambda>L t rnd i r. \<exists>k. fst r = draw rnd i k"])
  fix loop :: "('a, 'b) lib \<Rightarrow> 'b \<Rightarrow> (nat \<Rightarrow> u32) \<Rightarrow> nat \<Rightarrow> (u32 \<times> nat) option" and L t rnd i r
  assume IH: "\<And>L t rnd i r. loop L t rnd i = Some r \<Longrightarrow> \<exists>k. fst r = draw rnd i k"
    and r: "(let (sesh, i') = gen_session rnd i
      in if ht_key_exists (lib_sesh L) t sesh then loop L t rnd i' else Some (sesh, i')) = Some r"
  show "\<exists>k. fst r = draw rnd i k"
  proof (cases "ht_key_exists (lib_sesh L) t (draw rnd i 0)")
    case True
    then obtain k where "fst r = draw rnd (i + 4) k"
      using r IH [of L t rnd "i + 4" r] by (auto simp: gen_session_draw)
    then show ?thesis by (auto simp: draw_Suc)
  qed (use r in \<open>auto simp: gen_session_draw\<close>)
qed

lemma check_session_spec:
  assumes "lib_ok L" and "db_inv L (sv_db S)" and "check_session L E S sid = Inr (res, sesh, S')"
  shows "(res = OP_SUCCESS, sessions_of L S') = spec_session E (sessions_of L S) sid sesh"
    and "res = OP_SUCCESS \<or> res = OP_SESSION_ERROR"
    and "sid \<noteq> 0 \<Longrightarrow> sesh = sid" and "sid = 0 \<Longrightarrow> sessions_of L S sesh = None"
    and "\<exists>t i. S' = S\<lparr>sv_db := (sv_db S)\<lparr>sesh_htable := t\<rparr>, sv_rand := i\<rparr> \<and> ht_valid (lib_sesh L) t"
proof -
  note l = db_inv_laws [OF assms(1, 2)]
  note ht = htable_lawsD [OF l(2)]
  let ?t = "sesh_htable (sv_db S)"
  have "(res = OP_SUCCESS, sessions_of L S') = spec_session E (sessions_of L S) sid sesh \<and>
    (res = OP_SUCCESS \<or> res = OP_SESSION_ERROR) \<and> (sid \<noteq> 0 \<longrightarrow> sesh = sid) \<and>
    (sid = 0 \<longrightarrow> sessions_of L S sesh = None) \<and>
    (\<exists>t i. S' = S\<lparr>sv_db := (sv_db S)\<lparr>sesh_htable := t\<rparr>, sv_rand := i\<rparr> \<and> ht_valid (lib_sesh L) t)"
  proof (cases "sid = 0")
    case True
    then obtain i' where loop: "session_loop L ?t (e_rand E) (sv_rand S) = Some (sesh, i')"
      and r: "res = OP_SUCCESS"
      and S': "S' = S\<lparr>sv_db := (sv_db S)\<lparr>sesh_htable := ht_set (lib_sesh L) ?t sesh (e_now E)\<rparr>, sv_rand := i'\<rparr>"
      using assms(3)
      by (cases "session_loop L ?t (e_rand E) (sv_rand S)")
        (auto simp: check_session_def generate_session_id_def Let_def)
    have "sessions_of L S sesh = None"
      using session_loop_free [OF loop] ht(8) [OF l(4)] by (simp add: sessions_of_def)
    moreover have "ht_valid (lib_sesh L) (ht_set (lib_sesh L) ?t sesh (e_now E))" by (rule ht(3) [OF l(4)])
    ultimately show ?thesis using True r ht(4) [OF l(4)]
      by (auto simp: S' spec_session_def sessions_of_def)
  next
    case False
    show ?thesis
    proof (cases "ht_get (lib_sesh L) ?t sid")
      case None
      then have r: "res = OP_SESSION_ERROR" "sesh = sid" "S' = S"
        using assms(3) False ht(8) [OF l(4)] by (simp_all add: check_session_def Let_def)
      have "\<exists>t i. S = S\<lparr>sv_db := (sv_db S)\<lparr>sesh_htable := t\<rparr>, sv_rand := i\<rparr> \<and> ht_valid (lib_sesh L) t"
        by (intro exI [of _ ?t] exI [of _ "sv_rand S"]) (simp add: l(4))
      then show ?thesis unfolding r using None False
        by (simp add: spec_session_def sessions_of_def)
    next
      case (Some t0)
      define t' where "t' = (if e_now E - t0 > e_timeout E then snd (ht_del (lib_sesh L) ?t sid)
        else ht_set (lib_sesh L) ?t sid (e_now E))"
      have r: "res = (if e_now E - t0 > e_timeout E then OP_SESSION_ERROR else OP_SUCCESS)" "sesh = sid"
        and S': "S' = S\<lparr>sv_db := (sv_db S)\<lparr>sesh_htable := t'\<rparr>\<rparr>"
        using assms(3) False Some ht(8) [OF l(4)] by (auto simp: check_session_def Let_def t'_def split: if_splits)
      have v: "ht_valid (lib_sesh L) t'" using ht(3, 5) [OF l(4)] by (simp add: t'_def)
      have "\<exists>t i. S' = S\<lparr>sv_db := (sv_db S)\<lparr>sesh_htable := t\<rparr>, sv_rand := i\<rparr> \<and> ht_valid (lib_sesh L) t"
        by (intro exI [of _ t'] exI [of _ "sv_rand S"]) (simp add: S' v)
      moreover have "(res = OP_SUCCESS, sessions_of L S') = spec_session E (sessions_of L S) sid sesh"
        using r False Some ht(4, 7) [OF l(4)]
        by (simp add: spec_session_def S' t'_def sessions_of_def)
      ultimately show ?thesis using r False by auto
    qed
  qed
  then show "(res = OP_SUCCESS, sessions_of L S') = spec_session E (sessions_of L S) sid sesh"
    and "res = OP_SUCCESS \<or> res = OP_SESSION_ERROR"
    and "sid \<noteq> 0 \<Longrightarrow> sesh = sid" and "sid = 0 \<Longrightarrow> sessions_of L S sesh = None"
    and "\<exists>t i. S' = S\<lparr>sv_db := (sv_db S)\<lparr>sesh_htable := t\<rparr>, sv_rand := i\<rparr> \<and> ht_valid (lib_sesh L) t"
    by blast+
qed

lemma check_session_keeps:
  assumes "lib_ok L" and "db_inv L (sv_db S)" and "check_session L E S sid = Inr (res, sesh, S')"
  shows "db_inv L (sv_db S')" and "accounts_of L S' = accounts_of L S" and "sv_fs S' = sv_fs S"
    and "p_home_dir (sv_db S') = p_home_dir (sv_db S)" and "db_debug (sv_db S') = db_debug (sv_db S)"
proof -
  obtain t i where S': "S' = S\<lparr>sv_db := (sv_db S)\<lparr>sesh_htable := t\<rparr>, sv_rand := i\<rparr>"
    and t: "ht_valid (lib_sesh L) t"
    using check_session_spec(5) [OF assms] by blast
  show "db_inv L (sv_db S')" using assms(2) t by (simp add: S' db_inv_def db_users_def)
  show "accounts_of L S' = accounts_of L S" "sv_fs S' = sv_fs S"
    "p_home_dir (sv_db S') = p_home_dir (sv_db S)" "db_debug (sv_db S') = db_debug (sv_db S)"
    by (simp_all add: S' accounts_of_def db_users_def)
qed

section \<open>Dispatch\<close>

lemmas len_rules = MAX_PASSWD_LEN_def MIN_PASSWD_LEN_def MAX_USERNAME_LEN_def MIN_USERNAME_LEN_def

lemma user_action_effect:
  assumes "lib_ok L" and "db_inv L (sv_db S)" and "wp_opt_code req = ACT_USER_OPERATION"
    and "wp_payload req = User_payload p" and "authorised u req" and "unat (ua_permission u) < 10"
    and "user_action L S req = Inr (code, p_db, F)"
  shows "\<exists>db. p_db = Some db \<and> db_inv L db \<and> db_users L db = spec_users L (accounts_of L S) req \<and>
    sesh_htable db = sesh_htable (sv_db S) \<and> p_home_dir db = p_home_dir (sv_db S) \<and>
    db_debug db = db_debug (sv_db S)"
proof -
  let ?db = "sv_db S" and ?U = "db_users L (sv_db S)"
  consider (create) "up_user_flag p = USR_ACT_CREATE_USER" | (delete) "up_user_flag p = USR_ACT_DELETE_USER"
    | (other) "up_user_flag p \<noteq> USR_ACT_CREATE_USER" "up_user_flag p \<noteq> USR_ACT_DELETE_USER" by blast
  then show ?thesis
  proof cases
    case create
    have q: "unat (up_user_perm p) < 10"
      using assms(3-6) create by (simp add: authorised_def word_le_nat_alt)
    have call: "db_create_user L (sv_fs S) (Some ?db) (up_username p) (up_passwd p) (up_user_perm p) =
        Inr (code, p_db, F)"
      using assms(4, 7) create by (simp add: user_action_def)
    have spec: "spec_users L (accounts_of L S) req =
        (case (up_username p, up_passwd p) of
           (Some n, Some pw) \<Rightarrow>
             if ?U n = None \<and> length n \<in> {3..20} \<and> length pw \<in> {6..32}
             then ?U(n \<mapsto> new_account L n pw (up_user_perm p)) else ?U
         | _ \<Rightarrow> ?U)"
      using assms(3, 4) create by (simp add: spec_users_def accounts_of_def)
    show ?thesis
    proof (cases "\<exists>n pw. up_username p = Some n \<and> up_passwd p = Some pw \<and> ?U n = None \<and>
        length n \<in> {3..20} \<and> length pw \<in> {6..32}")
      case True
      then obtain n pw where n: "up_username p = Some n" "up_passwd p = Some pw" "?U n = None"
        "length n \<in> {3..20}" "length pw \<in> {6..32}" by blast
      let ?a = "new_account L n pw (up_user_perm p)"
      let ?db' = "?db\<lparr>users_htable := ht_set (lib_users L) (users_htable ?db) n ?a\<rparr>"
      have a: "ua_username ?a = n" "user_fmt ?a"
        using new_account_fmt [OF assms(1) q] by (simp_all add: new_account_def)
      have len: "MIN_USERNAME_LEN \<le> length n" "length n \<le> MAX_USERNAME_LEN"
        "MIN_PASSWD_LEN \<le> length pw" "length pw \<le> MAX_PASSWD_LEN"
        using n(4, 5) by (simp_all add: len_rules)
      have "p_db = Some ?db'"
        using call unfolding n(1, 2) db_create_new [OF assms(1, 2) n(3) len] Let_def
        by (auto simp: rbind_eq_Inr_iff)
      then show ?thesis using db_inv_set [OF assms(1, 2) a(2), unfolded a(1)] spec n by simp
    next
      case False
      have ex: "ht_key_exists (lib_users L) (users_htable ?db) n \<longleftrightarrow> ?U n \<noteq> None" for n
        using htable_lawsD(8) [OF db_inv_laws(1, 3) [OF assms(1, 2)]] by (simp add: db_users_def)
      have "p_db = Some ?db"
        using call False
        by (cases "up_username p"; cases "up_passwd p")
          (auto simp: db_create_user_def ex len_rules split: if_splits)
      moreover have "spec_users L (accounts_of L S) req = ?U"
        unfolding spec using False by (auto split: option.splits)
      ultimately show ?thesis using assms(2) by simp
    qed
  next
    case delete
    have call: "db_remove_user L (sv_fs S) (Some ?db) (up_username p) = Inr (code, p_db, F)"
      using assms(4, 7) delete by (simp add: user_action_def usr_codes)
    show ?thesis
    proof (cases "up_username p")
      case None
      then show ?thesis using call assms(2-4) delete
        by (auto simp: db_remove_user_def spec_users_def accounts_of_def usr_codes)
    next
      case (Some n)
      let ?db' = "?db\<lparr>users_htable := snd (ht_del (lib_users L) (users_htable ?db) n)\<rparr>"
      have "p_db = Some ?db'"
        using call unfolding Some db_remove_eq [OF assms(1, 2)] Let_def
        by (auto simp: rbind_eq_Inr_iff split: if_splits)
      moreover have "spec_users L (accounts_of L S) req = ?U(n := None)"
        using Some assms(3, 4) delete by (simp add: spec_users_def accounts_of_def usr_codes)
      ultimately show ?thesis using db_inv_del [OF assms(1, 2), of n] by simp
    qed
  next
    case other
    then show ?thesis using assms(2-4, 7) by (auto simp: user_action_def spec_users_def accounts_of_def)
  qed
qed

lemma dispatch_refused:
  assumes "\<not> authorised u req" and "wp_opt_code req = ACT_USER_OPERATION \<Longrightarrow> \<exists>p. wp_payload req = User_payload p"
  shows "dispatch L S u req = Inr (set_resp OP_PERMISSION_ERROR, S)"
  using assms by (auto simp: dispatch_def authorised_def Let_def act_codes usr_codes split: if_splits)

lemma fs_result_effect:
  "fs_result S r = Inr (resp, S') \<Longrightarrow> \<exists>code F. r = Inr (code, F) \<and> resp = set_resp code \<and> S' = S\<lparr>sv_fs := F\<rparr>"
  by (auto simp: fs_result_def rbind_eq_Inr_iff)

lemma db_result_effect:
  "db_result S r = Inr (resp, S') \<Longrightarrow> \<exists>code p_db F. r = Inr (code, p_db, F) \<and> resp = set_resp code \<and>
     S' = S\<lparr>sv_fs := F, sv_db := (case p_db of None \<Rightarrow> sv_db S | Some db \<Rightarrow> db)\<rparr>"
  by (auto simp: db_result_def rbind_eq_Inr_iff)

definition file_ops :: "u32 set" where
  "file_ops = {ACT_DELETE_REMOTE_FILE, ACT_MAKE_REMOTE_DIRECTORY, ACT_PUT_REMOTE_FILE}"

lemma file_ops_not_user: "op \<in> file_ops \<Longrightarrow> op \<noteq> ACT_USER_OPERATION"
  by (auto simp: file_ops_def act_codes)

lemma spec_users_other: "wp_opt_code req \<noteq> ACT_USER_OPERATION \<Longrightarrow> spec_users L U req = U"
  by (simp add: spec_users_def split: payload_ptr.splits)

text \<open>The requests that leave everything as it is, and the two kinds that do not.\<close>

lemma dispatch_passive:
  assumes "wp_opt_code req \<noteq> ACT_USER_OPERATION" and "wp_opt_code req \<notin> file_ops"
    and "dispatch L S u req = Inr (resp, S')"
  shows "S' = S"
  using assms by (auto simp: dispatch_def file_ops_def Let_def rbind_eq_Inr_iff split: if_splits)

lemma dispatch_file:
  assumes "wp_opt_code req \<in> file_ops" and "authorised u req" and "dispatch L S u req = Inr (resp, S')"
  shows "\<exists>code F. resp = set_resp code \<and> S' = S\<lparr>sv_fs := F\<rparr> \<and>
    (wp_opt_code req = ACT_DELETE_REMOTE_FILE \<and> do_del_file S req = Inr (code, F) \<or>
     wp_opt_code req = ACT_MAKE_REMOTE_DIRECTORY \<and> do_make_dir S req = Inr (code, F) \<or>
     wp_opt_code req = ACT_PUT_REMOTE_FILE \<and> do_put_file S req = Inr (code, F))"
proof -
  have p: "\<not> ua_permission u < perm_READ_WRITE"
    using assms(1, 2) file_ops_not_user [OF assms(1)] by (auto simp: authorised_def file_ops_def)
  consider "wp_opt_code req = ACT_DELETE_REMOTE_FILE" | "wp_opt_code req = ACT_MAKE_REMOTE_DIRECTORY"
    | "wp_opt_code req = ACT_PUT_REMOTE_FILE" using assms(1) by (auto simp: file_ops_def)
  then show ?thesis
    by cases (use assms(3) p in \<open>auto simp: dispatch_def act_codes dest!: fs_result_effect\<close>)
qed

lemma dispatch_user:
  assumes "wp_opt_code req = ACT_USER_OPERATION" and "authorised u req" and "dispatch L S u req = Inr (resp, S')"
  obtains p code p_db F where "wp_payload req = User_payload p" and "user_action L S req = Inr (code, p_db, F)"
    and "resp = set_resp code" and "S' = S\<lparr>sv_fs := F, sv_db := (case p_db of None \<Rightarrow> sv_db S | Some db \<Rightarrow> db)\<rparr>"
proof -
  obtain p where p: "wp_payload req = User_payload p"
    using assms(1, 3) by (cases "wp_payload req") (auto simp: dispatch_def act_codes)
  have "\<exists>code p_db F. user_action L S req = Inr (code, p_db, F) \<and> resp = set_resp code \<and>
      S' = S\<lparr>sv_fs := F, sv_db := (case p_db of None \<Rightarrow> sv_db S | Some db \<Rightarrow> db)\<rparr>"
  proof (cases "up_user_flag p = USR_ACT_CREATE_USER \<or> up_user_flag p = USR_ACT_DELETE_USER")
    case True
    then have "db_result S (user_action L S req) = Inr (resp, S')"
      using assms p by (auto simp: dispatch_def authorised_def act_codes usr_codes Let_def split: if_splits)
    then show ?thesis by (rule db_result_effect)
  next
    case False
    then have "user_action L S req = Inr (OP_FAILURE, Some (sv_db S), sv_fs S)"
      "resp = set_resp OP_FAILURE" "S' = S"
      using assms p by (auto simp: dispatch_def user_action_def act_codes Let_def)
    then show ?thesis by simp
  qed
  then show thesis using that p by blast
qed

lemma dispatch_effect:
  assumes "lib_ok L" and "db_inv L (sv_db S)" and "unat (ua_permission u) < 10"
    and "dispatch L S u req = Inr (resp, S')"
  shows "db_inv L (sv_db S') \<and>
    accounts_of L S' = (if authorised u req then spec_users L (accounts_of L S) req else accounts_of L S) \<and>
    sessions_of L S' = sessions_of L S \<and> p_home_dir (sv_db S') = p_home_dir (sv_db S) \<and>
    db_debug (sv_db S') = db_debug (sv_db S) \<and>
    (\<not> authorised u req \<longrightarrow> S' = S \<and> resp = set_resp OP_PERMISSION_ERROR) \<and>
    (sv_fs S' \<noteq> sv_fs S \<longrightarrow> wp_opt_code req = ACT_USER_OPERATION \<or> wp_opt_code req \<in> file_ops)"
proof (cases "authorised u req")
  case False
  have "\<exists>p. wp_payload req = User_payload p" if "wp_opt_code req = ACT_USER_OPERATION"
    using assms(4) that by (cases "wp_payload req") (auto simp: dispatch_def act_codes)
  from dispatch_refused [OF False this, of L S] have "S' = S" "resp = set_resp OP_PERMISSION_ERROR"
    using assms(4) by simp_all
  then show ?thesis using False assms(2) by simp
next
  case True
  consider (user) "wp_opt_code req = ACT_USER_OPERATION" | (fop) "wp_opt_code req \<in> file_ops"
    | (idle) "wp_opt_code req \<noteq> ACT_USER_OPERATION" "wp_opt_code req \<notin> file_ops" by blast
  then show ?thesis
  proof cases
    case user
    obtain p code p_db F where p: "wp_payload req = User_payload p"
      and act: "user_action L S req = Inr (code, p_db, F)"
      and S': "S' = S\<lparr>sv_fs := F, sv_db := (case p_db of None \<Rightarrow> sv_db S | Some db \<Rightarrow> db)\<rparr>"
      by (rule dispatch_user [OF user True assms(4)])
    show ?thesis
      using user_action_effect [OF assms(1, 2) user p True assms(3) act] True user
      by (auto simp: S' sessions_of_def)
  next
    case fop
    then obtain F where "S' = S\<lparr>sv_fs := F\<rparr>" using dispatch_file [OF fop True assms(4)] by blast
    then show ?thesis using True fop assms(2) spec_users_other [OF file_ops_not_user [OF fop], of L "accounts_of L S"] by simp
  next
    case idle
    then show ?thesis using True dispatch_passive [OF idle assms(4)] assms(2) spec_users_other [OF idle(1), of L "accounts_of L S"]
      by simp
  qed
qed

section \<open>Whole requests\<close>

text \<open>The abstract effect of a request on the accounts and the sessions.\<close>

definition spec_request ::
  "('u, 's) lib \<Rightarrow> env \<Rightarrow> u32 \<Rightarrow> accounts \<times> sessions \<Rightarrow> wire_payload_t \<Rightarrow> accounts \<times> sessions" where
  "spec_request L E fresh A req =
    (case A of (U, M) \<Rightarrow>
       (case login L U req of
          None \<Rightarrow> (U, M)
        | Some u \<Rightarrow>
            (let (alive, M') = spec_session E M (wp_session_id req) fresh in
             (if alive \<and> authorised u req then spec_users L U req else U, M'))))"

lemma session_id_irrelevant [simp]:
  "authorised u (req\<lparr>wp_session_id := i\<rparr>) = authorised u req"
  "spec_users L U (req\<lparr>wp_session_id := i\<rparr>) = spec_users L U req"
  by (simp_all add: authorised_def spec_users_def cong: payload_ptr.case_cong)

lemma login_fmt: "db_inv L (sv_db S) \<Longrightarrow> login L (accounts_of L S) req = Some u \<Longrightarrow> unat (ua_permission u) < 10"
  by (auto simp: login_def accounts_of_def db_inv_def user_fmt_def split: option.splits if_splits)

text \<open>The three ways a request can go.\<close>

lemma ctrl_request_cases:
  assumes "lib_ok L" and "db_inv L (sv_db S)" and "ctrl_request L E S req = Inr (resp, req', S')"
  obtains
    (refused) "login L (accounts_of L S) req = None" and "S' = S" and "req' = req"
      and "resp = set_resp (if wp_username req = None then OP_FAILURE else OP_USER_AUTH)"
  | (expired) u where "login L (accounts_of L S) req = Some u"
      and "check_session L E S (wp_session_id req) = Inr (OP_SESSION_ERROR, wp_session_id req', S')"
      and "req' = req\<lparr>wp_session_id := wp_session_id req'\<rparr>" and "resp = set_resp OP_SESSION_ERROR"
  | (served) u S1 where "login L (accounts_of L S) req = Some u"
      and "check_session L E S (wp_session_id req) = Inr (OP_SUCCESS, wp_session_id req', S1)"
      and "req' = req\<lparr>wp_session_id := wp_session_id req'\<rparr>" and "dispatch L S1 u req' = Inr (resp, S')"
proof (cases "login L (accounts_of L S) req")
  case None
  then show thesis using assms(3) ctrl_request_eq [OF assms(1, 2), of E req] by (intro refused) auto
next
  case (Some u)
  obtain res sesh S1 where c: "check_session L E S (wp_session_id req) = Inr (res, sesh, S1)"
    using assms(3) unfolding ctrl_request_eq [OF assms(1, 2)] Some option.case
    by (cases "check_session L E S (wp_session_id req)") auto
  have r: "(if res \<noteq> OP_SUCCESS then Inr (set_resp res, req\<lparr>wp_session_id := sesh\<rparr>, S1)
      else rbind (dispatch L S1 u (req\<lparr>wp_session_id := sesh\<rparr>))
        (\<lambda>(resp, S). Inr (resp, req\<lparr>wp_session_id := sesh\<rparr>, S))) = Inr (resp, req', S')"
    using assms(3) unfolding ctrl_request_eq [OF assms(1, 2)] Some option.case c Let_def by simp
  show thesis
  proof (cases "res = OP_SUCCESS")
    case True
    then have "req' = req\<lparr>wp_session_id := sesh\<rparr>" "dispatch L S1 u req' = Inr (resp, S')"
      using r by (auto simp: rbind_eq_Inr_iff)
    then show thesis using served [OF Some] c True by simp
  next
    case False
    then have "res = OP_SESSION_ERROR" using check_session_spec(2) [OF assms(1, 2) c] by blast
    then show thesis using expired [OF Some] c r False by auto
  qed
qed

lemma ctrl_request_spec:
  assumes "lib_ok L" and "db_inv L (sv_db S)" and "ctrl_request L E S req = Inr (resp, req', S')"
  shows "(accounts_of L S', sessions_of L S') =
      spec_request L E (wp_session_id req') (accounts_of L S, sessions_of L S) req"
    and "db_inv L (sv_db S')" and "p_home_dir (sv_db S') = p_home_dir (sv_db S)"
    and "db_debug (sv_db S') = db_debug (sv_db S)"
proof -
  have "(accounts_of L S', sessions_of L S') =
      spec_request L E (wp_session_id req') (accounts_of L S, sessions_of L S) req \<and>
    db_inv L (sv_db S') \<and> p_home_dir (sv_db S') = p_home_dir (sv_db S) \<and>
    db_debug (sv_db S') = db_debug (sv_db S)"
    using assms
  proof (cases rule: ctrl_request_cases)
    case refused
    then show ?thesis using assms(2) by (simp add: spec_request_def)
  next
    case (expired u)
    note c = check_session_spec(1) [OF assms(1, 2) expired(2)] check_session_keeps [OF assms(1, 2) expired(2)]
    from expired(1) c(1) [symmetric] c(2-) show ?thesis by (simp add: spec_request_def)
  next
    case (served u S1)
    note c = check_session_spec(1) [OF assms(1, 2) served(2)] check_session_keeps [OF assms(1, 2) served(2)]
    have req': "authorised u req' = authorised u req" "spec_users L U req' = spec_users L U req" for U
      by (subst served(3), simp)+
    note d = dispatch_effect [OF assms(1) c(2) login_fmt [OF assms(2) served(1)] served(4), unfolded req']
    from served(1) c(1) [symmetric] c(2-) d show ?thesis by (simp add: spec_request_def)
  qed
  then show "(accounts_of L S', sessions_of L S') =
      spec_request L E (wp_session_id req') (accounts_of L S, sessions_of L S) req"
    and "db_inv L (sv_db S')" and "p_home_dir (sv_db S') = p_home_dir (sv_db S)"
    and "db_debug (sv_db S') = db_debug (sv_db S)"
    by blast+
qed

lemma ctrl_request_code:
  assumes "lib_ok L" and "db_inv L (sv_db S)" and "ctrl_request L E S req = Inr (resp, req', S')"
  shows "case login L (accounts_of L S) req of
      None \<Rightarrow> resp = set_resp (if wp_username req = None then OP_FAILURE else OP_USER_AUTH) \<and> S' = S
    | Some u \<Rightarrow>
        if \<not> fst (spec_session E (sessions_of L S) (wp_session_id req) (wp_session_id req'))
        then resp = set_resp OP_SESSION_ERROR \<and> sv_fs S' = sv_fs S \<and> accounts_of L S' = accounts_of L S
        else if \<not> authorised u req
        then resp = set_resp OP_PERMISSION_ERROR \<and> sv_fs S' = sv_fs S \<and> accounts_of L S' = accounts_of L S
        else sv_fs S' \<noteq> sv_fs S \<longrightarrow> wp_opt_code req = ACT_USER_OPERATION \<or> wp_opt_code req \<in> file_ops"
  using assms
proof (cases rule: ctrl_request_cases)
  case refused
  then show ?thesis by simp
next
  case (expired u)
  note c = check_session_spec(1) [OF assms(1, 2) expired(2)] check_session_keeps [OF assms(1, 2) expired(2)]
  from expired(1, 4) c(1) [symmetric] c(2-) show ?thesis by simp
next
  case (served u S1)
  note c = check_session_spec(1) [OF assms(1, 2) served(2)] check_session_keeps [OF assms(1, 2) served(2)]
  have req': "authorised u req' = authorised u req" "spec_users L U req' = spec_users L U req"
    "wp_opt_code req' = wp_opt_code req" for U
    by (subst served(3), simp)+
  note d = dispatch_effect [OF assms(1) c(2) login_fmt [OF assms(2) served(1)] served(4), unfolded req']
  from served(1) c(1) [symmetric] c(2-) d show ?thesis by auto
qed

section \<open>Sequences of requests\<close>

inductive serves :: "('u, 's) lib \<Rightarrow> ('u, 's) srv \<Rightarrow> ('u, 's) srv \<Rightarrow> bool" for L where
  serves_start: "serves L S S"
| serves_step: "serves L S S' \<Longrightarrow> ctrl_request L E S' req = Inr (resp, req', S'') \<Longrightarrow> serves L S S''"

text \<open>No account holds more than \<open>M\<close>.\<close>

definition bounded_perms :: "('u, 's) lib \<Rightarrow> u32 \<Rightarrow> ('u, 's) srv \<Rightarrow> bool" where
  "bounded_perms L M S \<longleftrightarrow> (\<forall>k a. accounts_of L S k = Some a \<longrightarrow> ua_permission a \<le> M)"

lemma spec_users_bounded:
  assumes "\<forall>k a. U k = Some a \<longrightarrow> ua_permission a \<le> M" and "login L U req = Some u" and "authorised u req"
  shows "\<forall>k a. spec_users L U req k = Some a \<longrightarrow> ua_permission a \<le> M"
proof -
  have u: "ua_permission u \<le> M" using assms(1, 2) by (auto simp: login_def split: option.splits if_splits)
  show ?thesis
  proof (cases "wp_opt_code req = ACT_USER_OPERATION \<and> (\<exists>p. wp_payload req = User_payload p)")
    case False
    then show ?thesis using assms(1) by (auto simp: spec_users_def split: payload_ptr.splits)
  next
    case True
    then obtain p where p: "wp_opt_code req = ACT_USER_OPERATION" "wp_payload req = User_payload p" by blast
    have "up_user_perm p \<le> M" if "up_user_flag p = USR_ACT_CREATE_USER"
      using assms(3) p that u by (auto simp: authorised_def)
    then show ?thesis using assms(1) p
      by (auto simp: spec_users_def new_account_def split: option.splits if_splits)
  qed
qed

lemma serves_invariant:
  assumes "serves L S S'" and "lib_ok L" and "db_inv L (sv_db S)" and "bounded_perms L M S"
  shows "db_inv L (sv_db S') \<and> bounded_perms L M S'"
  using assms
proof (induction rule: serves.induct)
  case (serves_step S S' E req resp req' S'')
  then have i: "db_inv L (sv_db S')" "bounded_perms L M S'" by blast+
  note spec = ctrl_request_spec [OF serves_step.prems(1) i(1) serves_step.hyps(2)]
  show ?case
  proof (cases "accounts_of L S'' = accounts_of L S'")
    case True
    then show ?thesis using spec(2) i(2) by (simp add: bounded_perms_def)
  next
    case False
    then obtain u where u: "login L (accounts_of L S') req = Some u" "authorised u req"
      and a: "accounts_of L S'' = spec_users L (accounts_of L S') req"
      using spec(1) by (auto simp: spec_request_def Let_def split: option.splits prod.splits if_splits)
    show ?thesis using spec(2) i(2) spec_users_bounded [OF _ u] unfolding bounded_perms_def a by blast
  qed
qed simp

section \<open>Requests in a live session\<close>

definition touch :: "('u, 's) lib \<Rightarrow> env \<Rightarrow> ('u, 's) srv \<Rightarrow> u32 \<Rightarrow> ('u, 's) srv" where
  "touch L E S sid =
    S\<lparr>sv_db := (sv_db S)\<lparr>sesh_htable := ht_set (lib_sesh L) (sesh_htable (sv_db S)) sid (e_now E)\<rparr>\<rparr>"

lemma touch_simps [simp]:
  "sv_fs (touch L E S sid) = sv_fs S" "p_home_dir (sv_db (touch L E S sid)) = p_home_dir (sv_db S)"
  "users_htable (sv_db (touch L E S sid)) = users_htable (sv_db S)"
  "accounts_of L' (touch L E S sid) = accounts_of L' S"
  by (simp_all add: touch_def accounts_of_def db_users_def)

lemma touch_ok:
  assumes "lib_ok L" and "db_inv L (sv_db S)"
  shows "db_inv L (sv_db (touch L E S sid))"
    and "sessions_of L (touch L E S sid) = (sessions_of L S)(sid \<mapsto> e_now E)"
  using assms(2) htable_lawsD(3, 4) [OF db_inv_laws(2, 4) [OF assms]]
  by (simp_all add: touch_def db_inv_def db_users_def sessions_of_def)

lemma request_live:
  assumes "lib_ok L" and "db_inv L (sv_db S)" and "login L (accounts_of L S) req = Some u"
    and "wp_session_id req \<noteq> 0" and "sessions_of L S (wp_session_id req) = Some t"
    and "e_now E - t \<le> e_timeout E"
  shows "ctrl_request L E S req =
    rbind (dispatch L (touch L E S (wp_session_id req)) u req) (\<lambda>(resp, S). Inr (resp, req, S))"
proof -
  have "ht_key_exists (lib_sesh L) (sesh_htable (sv_db S)) (wp_session_id req)"
    using htable_lawsD(8) [OF db_inv_laws(2, 4) [OF assms(1, 2)]] assms(5) by (simp add: sessions_of_def)
  then have c: "check_session L E S (wp_session_id req) =
      Inr (OP_SUCCESS, wp_session_id req, touch L E S (wp_session_id req))"
    using assms(4-6) by (simp add: check_session_def sessions_of_def touch_def Let_def)
  show ?thesis unfolding ctrl_request_eq [OF assms(1, 2)] assms(3) option.case c by simp
qed

lemma request_stale:
  assumes "lib_ok L" and "db_inv L (sv_db S)" and "login L (accounts_of L S) req = Some u"
    and "wp_session_id req \<noteq> 0"
    and "case sessions_of L S (wp_session_id req) of None \<Rightarrow> True | Some t \<Rightarrow> e_now E - t > e_timeout E"
  obtains S' where "ctrl_request L E S req = Inr (set_resp OP_SESSION_ERROR, req, S')"
    and "sessions_of L S' = (sessions_of L S)(wp_session_id req := None)" and "sv_fs S' = sv_fs S"
    and "accounts_of L S' = accounts_of L S" and "db_inv L (sv_db S')"
proof -
  let ?sid = "wp_session_id req"
  note ht = htable_lawsD(8) [OF db_inv_laws(2, 4) [OF assms(1, 2)]]
  obtain S' where c: "check_session L E S ?sid = Inr (OP_SESSION_ERROR, ?sid, S')"
    using assms(4, 5) ht
    by (cases "sessions_of L S ?sid") (auto simp: check_session_def sessions_of_def Let_def)
  have m: "sessions_of L S' = (sessions_of L S)(?sid := None)"
    using check_session_spec(1) [OF assms(1, 2) c] assms(4, 5)
    by (cases "sessions_of L S ?sid") (auto simp: spec_session_def)
  have "ctrl_request L E S req = Inr (set_resp OP_SESSION_ERROR, req, S')"
    unfolding ctrl_request_eq [OF assms(1, 2)] assms(3) option.case c by simp
  then show thesis using that m check_session_keeps [OF assms(1, 2) c] by blast
qed

text \<open>A client that polls: the same request again and again.\<close>

fun polls ::
  "('u, 's) lib \<Rightarrow> wire_payload_t \<Rightarrow> env list \<Rightarrow> ('u, 's) srv \<Rightarrow> (ret_codes_t list \<times> ('u, 's) srv) run" where
  "polls L req [] S = Inr ([], S)"
| "polls L req (E # Es) S =
    rbind (ctrl_request L E S req) (\<lambda>(resp, _, S').
    rbind (polls L req Es S') (\<lambda>(codes, S''). Inr (resp_result resp # codes, S'')))"

text \<open>Each request comes within the timeout of the one before, the first within that of \<open>t\<close>.\<close>

fun in_time :: "int \<Rightarrow> env list \<Rightarrow> bool" where
  "in_time t [] \<longleftrightarrow> True"
| "in_time t (E # Es) \<longleftrightarrow> e_now E - t \<le> e_timeout E \<and> in_time (e_now E) Es"

lemma polls_live:
  assumes "lib_ok L" and "wp_session_id req \<noteq> 0" and "wp_opt_code req = ACT_LOCAL_OPERATION"
  shows "db_inv L (sv_db S) \<Longrightarrow> login L (accounts_of L S) req = Some u \<Longrightarrow>
    sessions_of L S (wp_session_id req) = Some t \<Longrightarrow> in_time t Es \<Longrightarrow>
    \<exists>S'. polls L req Es S = Inr (replicate (length Es) OP_SUCCESS, S')"
proof (induction Es arbitrary: S t)
  case (Cons E Es)
  let ?S = "touch L E S (wp_session_id req)"
  have r: "ctrl_request L E S req = Inr (set_resp OP_SUCCESS, req, ?S)"
    using request_live [OF assms(1) Cons.prems(1, 2) assms(2) Cons.prems(3)] Cons.prems(4) assms(3)
    by (simp add: dispatch_def)
  have "\<exists>S'. polls L req Es ?S = Inr (replicate (length Es) OP_SUCCESS, S')"
    using Cons.IH [of ?S "e_now E"] Cons.prems(2, 4) touch_ok [OF assms(1) Cons.prems(1)] by simp
  then show ?case using r by (auto simp: set_resp_def)
qed simp

section \<open>Confinement\<close>

lemma file_request_confined:
  assumes "home_ok (sv_fs S) hp" and "p_home_dir (sv_db S) = Some \<lparr>p_path = render hp\<rparr>"
    and "wp_payload req = Std_payload p" and "sp_path p = Some c" and "nul_free c" and "plain c"
    and "do_del_file S req = Inr (code, F) \<or> do_make_dir S req = Inr (code, F) \<or> do_put_file S req = Inr (code, F)"
  shows "agree_outside hp (sv_fs S) F"
proof -
  note c = assms(1, 5, 6)
  note defs = f_ver_path_resolve_def f_ver_valid_resolve_def assms(2-4)
  from assms(7) consider (del) "do_del_file S req = Inr (code, F)" | (mk) "do_make_dir S req = Inr (code, F)"
    | (put) "do_put_file S req = Inr (code, F)" by blast
  then show ?thesis
  proof cases
    case del
    then show ?thesis using pr.del_confined [OF c]
      by (auto simp: do_del_file_def defs rbind_eq_Inr_iff split: if_splits)
  next
    case mk
    then show ?thesis using vr.create_confined [OF c]
      by (auto simp: do_make_dir_def defs rbind_eq_Inr_iff split: if_splits)
  next
    case put
    then show ?thesis using vr.write_confined [OF c]
      by (auto simp: do_put_file_def defs rbind_eq_Inr_iff split: if_splits)
        (metis snd_conv)
  qed
qed

lemma agree_outside_store: "hp \<noteq> [] \<Longrightarrow> agree_outside hp F (store_files L hp bs F)"
  unfolding agree_outside_def
  by (auto intro!: store_files_lookup(3) simp: db_path_def hash_path_def)

lemma db_update_confined:
  assumes "lib_ok L" and "storage_ok F hp" and "db_inv L db" and "p_home_dir db = Some \<lparr>p_path = render hp\<rparr>"
    and "db_update_db L F (Some db) = Inr F'"
  shows "agree_outside hp F F'"
proof (cases "db_debug db")
  case True
  then show ?thesis using assms(5) by (simp add: db_update_db_def)
next
  case False
  then show ?thesis
    using db_update_db_fmt [OF assms(1, 2) db_inv_accts [OF assms(1, 3)] assms(4)] assms(5)
      agree_outside_store storage_okD(8) [OF assms(2)] by auto
qed

lemma user_action_fs:
  assumes "user_action L S req = Inr (code, p_db, F)"
  shows "F = sv_fs S \<or> (\<exists>db. p_db = Some db \<and> db_update_db L (sv_fs S) (Some db) = Inr F)"
proof -
  obtain p where p: "wp_payload req = User_payload p"
    using assms by (cases "wp_payload req") (auto simp: user_action_def)
  have c: "F = sv_fs S \<or> (\<exists>db. p_db = Some db \<and> db_update_db L (sv_fs S) (Some db) = Inr F)"
    if "db_create_user L (sv_fs S) (Some (sv_db S)) n pw q = Inr (code, p_db, F)" for n pw q
    using that by (auto simp: db_create_user_def rbind_eq_Inr_iff Let_def split: option.splits if_splits)
  have r: "F = sv_fs S \<or> (\<exists>db. p_db = Some db \<and> db_update_db L (sv_fs S) (Some db) = Inr F)"
    if "db_remove_user L (sv_fs S) (Some (sv_db S)) n = Inr (code, p_db, F)" for n
    using that by (auto simp: db_remove_user_def rbind_eq_Inr_iff Let_def split: option.splits prod.splits)
  show ?thesis using assms p c r by (auto simp: user_action_def split: if_splits)
qed

lemma dispatch_confined:
  assumes "lib_ok L" and "storage_ok (sv_fs S) hp" and "db_inv L (sv_db S)"
    and "p_home_dir (sv_db S) = Some \<lparr>p_path = render hp\<rparr>" and "unat (ua_permission u) < 10"
    and "\<forall>p c. wp_payload req = Std_payload p \<longrightarrow> sp_path p = Some c \<longrightarrow> nul_free c \<and> plain c"
    and "dispatch L S u req = Inr (resp, S')"
  shows "agree_outside hp (sv_fs S) (sv_fs S')"
proof -
  note eff = dispatch_effect [OF assms(1, 3, 5, 7)]
  consider (no) "\<not> authorised u req" | (user) "wp_opt_code req = ACT_USER_OPERATION" "authorised u req"
    | (fop) "wp_opt_code req \<in> file_ops" "authorised u req"
    | (idle) "wp_opt_code req \<noteq> ACT_USER_OPERATION" "wp_opt_code req \<notin> file_ops" by blast
  then show ?thesis
  proof cases
    case no
    then show ?thesis using eff by simp
  next
    case user
    obtain p code p_db F where p: "wp_payload req = User_payload p"
      and act: "user_action L S req = Inr (code, p_db, F)"
      and S': "S' = S\<lparr>sv_fs := F, sv_db := (case p_db of None \<Rightarrow> sv_db S | Some db \<Rightarrow> db)\<rparr>"
      by (rule dispatch_user [OF user assms(7)])
    obtain db where db: "p_db = Some db" "db_inv L db" "p_home_dir db = Some \<lparr>p_path = render hp\<rparr>"
      using user_action_effect [OF assms(1, 3) user(1) p user(2) assms(5) act] assms(4) by auto
    show ?thesis
      using user_action_fs [OF act] db_update_confined [OF assms(1, 2) db(2, 3)] db(1) by (auto simp: S')
  next
    case fop
    then obtain code F where S': "S' = S\<lparr>sv_fs := F\<rparr>"
      and op: "do_del_file S req = Inr (code, F) \<or> do_make_dir S req = Inr (code, F) \<or>
        do_put_file S req = Inr (code, F)"
      using dispatch_file [OF fop assms(7)] by blast
    then obtain p where p: "wp_payload req = Std_payload p"
      by (cases "wp_payload req") (auto simp: do_del_file_def do_make_dir_def do_put_file_def)
    show ?thesis
    proof (cases "sp_path p")
      case None
      then have "F = sv_fs S"
        using op p by (auto simp: do_del_file_def do_make_dir_def do_put_file_def f_ver_path_resolve_def
            f_ver_valid_resolve_def)
      then show ?thesis by (simp add: S')
    next
      case (Some c)
      then show ?thesis
        using file_request_confined [OF storage_okD(1) [OF assms(2)] assms(4) p Some] assms(6) p op
        by (simp add: S')
    qed
  next
    case idle
    then show ?thesis using dispatch_passive [OF idle assms(7)] by simp
  qed
qed

section \<open>Properties\<close>

text \<open>A server with one reader and one administrator, and a session that was used at time 100.\<close>

definition sample_accts :: "user_account_t list" where
  "sample_accts = [new_account sample_lib ''alice'' ''secret'' 1, new_account sample_lib ''boss1'' ''hunter2'' 3]"

definition sample_srv :: "((string \<times> user_account_t) list, (u32 \<times> int) list) srv" where
  "sample_srv =
    \<lparr>sv_fs = store_files sample_lib sample_home (db_text sample_accts) sample_store,
     sv_db = (loaded_db sample_lib sample_home sample_accts)\<lparr>sesh_htable := [(7, 100)]\<rparr>,
     sv_rand = 0\<rparr>"

definition sample_env :: "int \<Rightarrow> env" where
  "sample_env now = \<lparr>e_now = now, e_rand = word_of_nat, e_timeout = 60\<rparr>"

definition sample_req :: "string \<Rightarrow> string \<Rightarrow> u32 \<Rightarrow> u32 \<Rightarrow> payload_ptr \<Rightarrow> wire_payload_t" where
  "sample_req name pw sid op ld =
    \<lparr>wp_opt_code = op, wp_user_flag = 0, wp_reserved = 0, wp_username_len = word_of_nat (length name),
     wp_passwd_len = word_of_nat (length pw), wp_session_id = sid, wp_username = Some name,
     wp_passwd = Some pw,
     wp_payload_len = (case ld of Std_payload p \<Rightarrow> 2 + ucast (sp_path_len p) | _ \<Rightarrow> 0),
     wp_type = (case ld of User_payload p \<Rightarrow> USER_PAYLOAD | _ \<Rightarrow> NO_PAYLOAD), wp_payload = ld\<rparr>"

definition sample_path :: "string \<Rightarrow> payload_ptr" where
  "sample_path c =
    Std_payload \<lparr>sp_path_len = word_of_nat (length c), sp_path = Some c, sp_byte_stream = None,
      sp_hash_stream = None, sp_byte_stream_len = 0\<rparr>"

lemma sample_accts_ok: "list_all user_ok sample_accts"
proof -
  have a: "admissible ''alice'' ''secret'' 1" "admissible ''boss1'' ''hunter2'' 3"
    by (simp_all add: admissible_def len_rules)
  show ?thesis using new_account_ok [OF sample_lib_ok a(1)] new_account_ok [OF sample_lib_ok a(2)]
    by (simp add: sample_accts_def)
qed

lemma sample_srv_accounts:
  "accounts_of sample_lib sample_srv =
    [''boss1'' \<mapsto> new_account sample_lib ''boss1'' ''hunter2'' 3,
     ''alice'' \<mapsto> new_account sample_lib ''alice'' ''secret'' 1]"
proof -
  have "accounts_of sample_lib sample_srv = db_users sample_lib (loaded_db sample_lib sample_home sample_accts)"
    by (simp add: accounts_of_def sample_srv_def db_users_def)
  also have "\<dots> = map_of (rev (map (\<lambda>a. (ua_username a, a)) sample_accts))"
    by (rule loaded_db_users(1) [OF sample_lib_ok])
  finally show ?thesis by (simp add: sample_accts_def new_account_def fun_upd_twist)
qed

lemma sample_srv_inv: "db_inv sample_lib (sv_db sample_srv)"
proof -
  have "db_ok sample_lib sample_home (loaded_db sample_lib sample_home sample_accts)"
    by (rule loaded_db_users(2) [OF sample_lib_ok sample_accts_ok])
  from db_ok_inv [OF this] show ?thesis
    by (simp add: db_inv_def sample_srv_def db_users_def) (simp add: sample_lib_def alist_htable_def)
qed

lemma sample_srv_sessions: "sessions_of sample_lib sample_srv = [7 \<mapsto> 100]"
  by (simp add: sessions_of_def sample_srv_def sample_lib_def alist_htable_def)

lemma sample_srv_storage: "storage_ok (sv_fs sample_srv) sample_home"
  "p_home_dir (sv_db sample_srv) = Some \<lparr>p_path = render sample_home\<rparr>"
  using storage_store [OF sample_storage_ok] by (simp_all add: sample_srv_def loaded_db_def)

lemma sample_login:
  "login sample_lib (accounts_of sample_lib sample_srv) (sample_req ''alice'' ''secret'' sid op ld) =
    Some (new_account sample_lib ''alice'' ''secret'' 1)"
  "login sample_lib (accounts_of sample_lib sample_srv) (sample_req ''boss1'' ''hunter2'' sid op ld) =
    Some (new_account sample_lib ''boss1'' ''hunter2'' 3)"
  by (simp_all add: login_def sample_req_def sample_srv_accounts pw_matches_def)
    (simp_all add: new_account_def)

lemma sample_req_simps [simp]:
  "wp_opt_code (sample_req n p sid op ld) = op" "wp_session_id (sample_req n p sid op ld) = sid"
  "wp_payload (sample_req n p sid op ld) = ld"
  by (simp_all add: sample_req_def)

text \<open>Alice polls in session 7 at time 130.\<close>

lemma sample_local:
  "ctrl_request sample_lib (sample_env 130) sample_srv (sample_req ''alice'' ''secret'' 7 ACT_LOCAL_OPERATION Null_payload) =
    Inr (set_resp OP_SUCCESS, sample_req ''alice'' ''secret'' 7 ACT_LOCAL_OPERATION Null_payload,
      touch sample_lib (sample_env 130) sample_srv 7)"
  using request_live [OF sample_lib_ok sample_srv_inv sample_login(1), of 7 ACT_LOCAL_OPERATION Null_payload 100 "sample_env 130"]
  by (simp add: sample_srv_sessions sample_env_def dispatch_def)

text \<open>Property C4: the controller implements the abstract access control.\<close>

theorem controller_refines_access_control:
  assumes "lib_ok L" and "db_inv L (sv_db S)" and "ctrl_request L E S req = Inr (resp, req', S')"
  shows "(accounts_of L S', sessions_of L S') =
      spec_request L E (wp_session_id req') (accounts_of L S, sessions_of L S) req \<and>
    db_inv L (sv_db S')"
  using ctrl_request_spec(1, 2) [OF assms] by blast

theorem controller_refines_access_control_witness:
  "(accounts_of sample_lib (touch sample_lib (sample_env 130) sample_srv 7),
    sessions_of sample_lib (touch sample_lib (sample_env 130) sample_srv 7)) =
   spec_request sample_lib (sample_env 130) 7 (accounts_of sample_lib sample_srv, [7 \<mapsto> 100])
     (sample_req ''alice'' ''secret'' 7 ACT_LOCAL_OPERATION Null_payload)"
  using controller_refines_access_control [OF sample_lib_ok sample_srv_inv sample_local]
  by (simp add: sample_srv_sessions)

lemma ctrl_request_authorised:
  assumes "lib_ok L" and "db_inv L (sv_db S)" and "ctrl_request L E S req = Inr (resp, req', S')"
    and "sv_fs S' \<noteq> sv_fs S \<or> accounts_of L S' \<noteq> accounts_of L S"
  shows "\<exists>u. login L (accounts_of L S) req = Some u \<and>
    (wp_session_id req = 0 \<or>
     (\<exists>t. sessions_of L S (wp_session_id req) = Some t \<and> e_now E - t \<le> e_timeout E)) \<and>
    authorised u req \<and> (wp_opt_code req = ACT_USER_OPERATION \<or>
      wp_opt_code req \<in> {ACT_DELETE_REMOTE_FILE, ACT_MAKE_REMOTE_DIRECTORY, ACT_PUT_REMOTE_FILE})"
proof -
  note code = ctrl_request_code [OF assms(1-3)] and spec = ctrl_request_spec(1) [OF assms(1-3)]
  obtain u where u: "login L (accounts_of L S) req = Some u"
    using code assms(4) by (cases "login L (accounts_of L S) req") auto
  have alive: "fst (spec_session E (sessions_of L S) (wp_session_id req) (wp_session_id req'))"
    and auth: "authorised u req"
    using code assms(4) unfolding u by (auto split: if_splits)
  have op: "wp_opt_code req = ACT_USER_OPERATION \<or> wp_opt_code req \<in> file_ops"
  proof (cases "sv_fs S' = sv_fs S")
    case False
    then show ?thesis using code u alive auth by simp
  next
    case True
    then show ?thesis using assms(4) spec u spec_users_other [of req L "accounts_of L S"]
      by (auto simp: spec_request_def Let_def split: prod.splits if_splits)
  qed
  have "wp_session_id req = 0 \<or>
      (\<exists>t. sessions_of L S (wp_session_id req) = Some t \<and> e_now E - t \<le> e_timeout E)"
    using alive by (auto simp: spec_session_def split: option.splits if_splits)
  then show ?thesis using u auth op unfolding file_ops_def by blast
qed

text \<open>Property C3: only an authorised request changes files or accounts.\<close>

theorem only_authorised_requests_change:
  assumes "lib_ok L" and "db_inv L (sv_db S)" and "ctrl_request L E S req = Inr (resp, req', S')"
    and "sv_fs S' \<noteq> sv_fs S \<or> accounts_of L S' \<noteq> accounts_of L S"
  shows "\<exists>u. login L (accounts_of L S) req = Some u \<and>
    (wp_session_id req = 0 \<or>
     (\<exists>t. sessions_of L S (wp_session_id req) = Some t \<and> e_now E - t \<le> e_timeout E)) \<and>
    authorised u req \<and> (wp_opt_code req = ACT_USER_OPERATION \<or>
      wp_opt_code req \<in> {ACT_DELETE_REMOTE_FILE, ACT_MAKE_REMOTE_DIRECTORY, ACT_PUT_REMOTE_FILE})"
  by (rule ctrl_request_authorised [OF assms])

theorem only_authorised_requests_change_witness:
  "\<exists>resp req' S' u.
     ctrl_request sample_lib (sample_env 130) sample_srv
       (sample_req ''boss1'' ''hunter2'' 7 ACT_USER_OPERATION
          (User_payload \<lparr>up_user_flag = 20, up_user_perm = 0, up_username_len = 5, up_username = Some ''alice'',
             up_passwd_len = 0, up_passwd = None\<rparr>)) = Inr (resp, req', S') \<and>
     accounts_of sample_lib S' ''alice'' = None \<and>
     login sample_lib (accounts_of sample_lib sample_srv)
       (sample_req ''boss1'' ''hunter2'' 7 ACT_USER_OPERATION
          (User_payload \<lparr>up_user_flag = 20, up_user_perm = 0, up_username_len = 5, up_username = Some ''alice'',
             up_passwd_len = 0, up_passwd = None\<rparr>)) = Some u \<and> ua_permission u = perm_ADMIN"
proof -
  define ld where "ld = User_payload \<lparr>up_user_flag = 20, up_user_perm = 0, up_username_len = 5,
    up_username = Some ''alice'', up_passwd_len = 0, up_passwd = None\<rparr>"
  define req where "req = sample_req ''boss1'' ''hunter2'' 7 ACT_USER_OPERATION ld"
  let ?u = "new_account sample_lib ''boss1'' ''hunter2'' 3" and ?E = "sample_env 130"
  let ?S = "touch sample_lib ?E sample_srv 7"
  have u: "login sample_lib (accounts_of sample_lib sample_srv) req = Some ?u"
    unfolding req_def by (rule sample_login)
  have r: "ctrl_request sample_lib ?E sample_srv req =
      rbind (dispatch sample_lib ?S ?u req) (\<lambda>(resp, S). Inr (resp, req, S))"
    using request_live [OF sample_lib_ok sample_srv_inv u, of 100 ?E]
    by (simp add: req_def sample_srv_sessions sample_env_def)
  have inv: "db_inv sample_lib (sv_db ?S)" by (rule touch_ok(1) [OF sample_lib_ok sample_srv_inv])
  have al: "db_users sample_lib (sv_db ?S) ''alice'' \<noteq> None"
    using sample_srv_accounts touch_simps(4) [of sample_lib sample_lib ?E sample_srv 7]
    unfolding accounts_of_def by simp
  let ?db = "(sv_db ?S)\<lparr>users_htable := snd (ht_del (lib_users sample_lib) (users_htable (sv_db ?S)) ''alice'')\<rparr>"
  have upd: "\<exists>F. db_update_db sample_lib (sv_fs ?S) (Some ?db) = Inr F"
    using db_update_db_fmt [OF sample_lib_ok, of "sv_fs ?S" sample_home ?db]
      db_inv_accts [OF sample_lib_ok db_inv_del(1) [OF sample_lib_ok inv, of "''alice''"]] sample_srv_storage
    by (simp add: touch_def) (simp add: sample_srv_def loaded_db_def)
  then obtain F where rm: "db_remove_user sample_lib (sv_fs ?S) (Some (sv_db ?S)) (Some ''alice'') =
      Inr (OP_SUCCESS, Some ?db, F)"
    unfolding db_remove_eq [OF sample_lib_ok inv] Let_def using al by auto
  have d: "dispatch sample_lib ?S ?u req = Inr (set_resp OP_SUCCESS, ?S\<lparr>sv_fs := F, sv_db := ?db\<rparr>)"
    using rm by (simp add: dispatch_def req_def ld_def user_action_def db_result_def act_codes usr_codes
        new_account_def perm_codes)
  have gone: "accounts_of sample_lib (?S\<lparr>sv_fs := F, sv_db := ?db\<rparr>) ''alice'' = None"
    using db_inv_del(2) [OF sample_lib_ok inv, of "''alice''"] by simp
  have c: "ctrl_request sample_lib ?E sample_srv req = Inr (set_resp OP_SUCCESS, req, ?S\<lparr>sv_fs := F, sv_db := ?db\<rparr>)"
    using r d by simp
  have "accounts_of sample_lib (?S\<lparr>sv_fs := F, sv_db := ?db\<rparr>) \<noteq> accounts_of sample_lib sample_srv"
    using gone sample_srv_accounts by (metis fun_upd_same option.distinct(1))
  then have "\<exists>u. login sample_lib (accounts_of sample_lib sample_srv) req = Some u \<and> authorised u req"
    using only_authorised_requests_change [OF sample_lib_ok sample_srv_inv c] by blast
  then show ?thesis using c gone
    by (auto simp: req_def ld_def authorised_def act_codes usr_codes)
qed

text \<open>Property C32: what a refused request answers, and that it leaves files and accounts alone.\<close>

theorem refused_requests:
  assumes "lib_ok L" and "db_inv L (sv_db S)" and "ctrl_request L E S req = Inr (resp, req', S')"
  shows "case login L (accounts_of L S) req of
      None \<Rightarrow> resp = set_resp (if wp_username req = None then OP_FAILURE else OP_USER_AUTH) \<and> S' = S
    | Some u \<Rightarrow>
        (if \<not> fst (spec_session E (sessions_of L S) (wp_session_id req) (wp_session_id req'))
         then resp = set_resp OP_SESSION_ERROR \<and> sv_fs S' = sv_fs S \<and> accounts_of L S' = accounts_of L S
         else if \<not> authorised u req
         then resp = set_resp OP_PERMISSION_ERROR \<and> sv_fs S' = sv_fs S \<and> accounts_of L S' = accounts_of L S
         else True)"
proof (cases "login L (accounts_of L S) req")
  case None
  then show ?thesis using ctrl_request_code [OF assms] by simp
next
  case (Some u)
  show ?thesis using ctrl_request_code [OF assms] unfolding Some option.case by (simp split: if_splits)
qed

theorem refused_requests_witness:
  "\<exists>resp req' S'. ctrl_request sample_lib (sample_env 130) sample_srv
      (sample_req ''alice'' ''secret'' 7 ACT_DELETE_REMOTE_FILE (sample_path ''a'')) = Inr (resp, req', S') \<and>
    resp = set_resp OP_PERMISSION_ERROR \<and> sv_fs S' = sv_fs sample_srv"
proof -
  let ?req = "sample_req ''alice'' ''secret'' 7 ACT_DELETE_REMOTE_FILE (sample_path ''a'')"
  let ?u = "new_account sample_lib ''alice'' ''secret'' 1"
  have no: "\<not> authorised ?u ?req"
    by (simp add: authorised_def new_account_def act_codes perm_codes word_le_nat_alt)
  have c: "ctrl_request sample_lib (sample_env 130) sample_srv ?req =
      Inr (set_resp OP_PERMISSION_ERROR, ?req, touch sample_lib (sample_env 130) sample_srv 7)"
    using request_live [OF sample_lib_ok sample_srv_inv sample_login(1), of 7 ACT_DELETE_REMOTE_FILE
        "sample_path ''a''" 100 "sample_env 130"]
    by (simp add: sample_srv_sessions sample_env_def dispatch_def act_codes new_account_def perm_codes)
  have "fst (spec_session (sample_env 130) (sessions_of sample_lib sample_srv) 7 7)"
    by (simp add: spec_session_def sample_srv_sessions sample_env_def)
  then show ?thesis
    using refused_requests [OF sample_lib_ok sample_srv_inv c] sample_login(1) no c by auto
qed

text \<open>Property C5: no sequence of requests raises the highest permission in the table.\<close>

theorem no_privilege_escalation:
  assumes "lib_ok L" and "db_inv L (sv_db S)" and "bounded_perms L M S" and "serves L S S'"
  shows "db_inv L (sv_db S') \<and> bounded_perms L M S'"
  by (rule serves_invariant [OF assms(4, 1, 2, 3)])

theorem no_privilege_escalation_witness:
  "bounded_perms sample_lib perm_ADMIN (touch sample_lib (sample_env 130) sample_srv 7)"
proof -
  have b: "bounded_perms sample_lib perm_ADMIN sample_srv"
    unfolding bounded_perms_def sample_srv_accounts by (simp add: new_account_def perm_codes)
  have "serves sample_lib sample_srv (touch sample_lib (sample_env 130) sample_srv 7)"
    by (rule serves_step [OF serves_start sample_local])
  from no_privilege_escalation [OF sample_lib_ok sample_srv_inv b this] show ?thesis by blast
qed

text \<open>Property C33: saving the accounts fits the buffer, whatever requests came before.\<close>

theorem saved_table_fits:
  assumes "lib_ok L" and "db_inv L (sv_db S)" and "serves L S S'"
  shows "db_fill (db_char_count (db_accts L (sv_db S'))) MAGIC_BYTES (db_accts L (sv_db S')) =
      Inr (db_text (db_accts L (sv_db S'))) \<and>
    length (db_text (db_accts L (sv_db S'))) =
      db_char_count (db_accts L (sv_db S')) - length (db_accts L (sv_db S'))"
proof -
  have "bounded_perms L (- 1) S"
    by (simp add: bounded_perms_def word_order.extremum)
  then have "db_inv L (sv_db S')" using serves_invariant [OF assms(3, 1, 2)] by blast
  then have ok: "list_all user_fmt (db_accts L (sv_db S'))" by (rule db_inv_accts [OF assms(1)])
  note cc = db_char_count_eq [OF ok]
  have "db_fill (db_char_count (db_accts L (sv_db S'))) MAGIC_BYTES (db_accts L (sv_db S')) =
      Inr (db_text (db_accts L (sv_db S')))"
    unfolding db_text_def by (rule db_fill_ok [OF ok]) (simp add: cc)
  then show ?thesis by (simp add: cc db_text_def)
qed

theorem saved_table_fits_witness:
  "\<exists>text. db_fill (db_char_count (db_accts sample_lib (sv_db sample_srv))) MAGIC_BYTES
     (db_accts sample_lib (sv_db sample_srv)) = Inr text"
  using saved_table_fits [OF sample_lib_ok sample_srv_inv serves_start] by blast



text \<open>An idle session ends, and its identifier stays refused until it is handed out again.\<close>

theorem idle_session_ends:
  assumes "lib_ok L" and "db_inv L (sv_db S)" and "login L (accounts_of L S) req = Some u"
    and "wp_session_id req \<noteq> 0" and "sessions_of L S (wp_session_id req) = Some t"
    and "e_now E - t > e_timeout E"
  shows "\<exists>S1. ctrl_request L E S req = Inr (set_resp OP_SESSION_ERROR, req, S1) \<and>
    sessions_of L S1 = (sessions_of L S)(wp_session_id req := None) \<and>
    (\<exists>S2. ctrl_request L E' S1 req = Inr (set_resp OP_SESSION_ERROR, req, S2))"
proof -
  have "case sessions_of L S (wp_session_id req) of None \<Rightarrow> True | Some t \<Rightarrow> e_now E - t > e_timeout E"
    using assms(5, 6) by simp
  then obtain S1 where 1: "ctrl_request L E S req = Inr (set_resp OP_SESSION_ERROR, req, S1)"
    "sessions_of L S1 = (sessions_of L S)(wp_session_id req := None)"
    "accounts_of L S1 = accounts_of L S" "db_inv L (sv_db S1)"
    using request_stale [OF assms(1-4), of E] by metis
  have "case sessions_of L S1 (wp_session_id req) of None \<Rightarrow> True | Some t \<Rightarrow> e_now E' - t > e_timeout E'"
    by (simp add: 1(2))
  then obtain S2 where "ctrl_request L E' S1 req = Inr (set_resp OP_SESSION_ERROR, req, S2)"
    using request_stale [OF assms(1) 1(4) assms(3) [folded 1(3)] assms(4), of E'] by metis
  with 1 show ?thesis by blast
qed

theorem idle_session_ends_witness:
  "\<exists>S1. ctrl_request sample_lib (sample_env 161) sample_srv
      (sample_req ''alice'' ''secret'' 7 ACT_GET_REMOTE_FILE (sample_path ''a'')) =
      Inr (set_resp OP_SESSION_ERROR, sample_req ''alice'' ''secret'' 7 ACT_GET_REMOTE_FILE (sample_path ''a''), S1) \<and>
    sessions_of sample_lib S1 7 = None"
proof -
  define req where "req = sample_req ''alice'' ''secret'' 7 ACT_GET_REMOTE_FILE (sample_path ''a'')"
  have sid: "wp_session_id req = 7" by (simp add: req_def)
  have a: "wp_session_id req \<noteq> 0" "sessions_of sample_lib sample_srv (wp_session_id req) = Some 100"
    "e_now (sample_env 161) - 100 > e_timeout (sample_env 161)"
    unfolding sid by (simp_all add: sample_srv_sessions sample_env_def)
  have u: "login sample_lib (accounts_of sample_lib sample_srv) req =
      Some (new_account sample_lib ''alice'' ''secret'' 1)"
    unfolding req_def by (rule sample_login)
  obtain S1 where "ctrl_request sample_lib (sample_env 161) sample_srv req = Inr (set_resp OP_SESSION_ERROR, req, S1)"
    "sessions_of sample_lib S1 = (sessions_of sample_lib sample_srv)(wp_session_id req := None)"
    using idle_session_ends [OF sample_lib_ok sample_srv_inv u a, of "sample_env 161"] by blast
  then have "ctrl_request sample_lib (sample_env 161) sample_srv req = Inr (set_resp OP_SESSION_ERROR, req, S1) \<and>
      sessions_of sample_lib S1 7 = None"
    by (simp add: sid)
  then show ?thesis unfolding req_def by blast
qed

text \<open>Property C35: a new session gets an unused identifier, exactly when the generator ever gives one.\<close>

theorem generate_session_id_terminates:
  assumes "lib_ok L" and "ht_valid (lib_sesh L) t"
  shows "if \<exists>k. ht_get (lib_sesh L) t (draw (e_rand E) i k) = None
    then \<exists>sesh t' i'. generate_session_id L E t i = Inr (OP_SUCCESS, sesh, t', i') \<and>
      ht_get (lib_sesh L) t sesh = None \<and> ht_get (lib_sesh L) t' = (ht_get (lib_sesh L) t)(sesh \<mapsto> e_now E) \<and>
      (\<exists>k. sesh = draw (e_rand E) i k)
    else generate_session_id L E t i = Inl Diverges"
proof -
  have laws: "htable_laws (lib_sesh L)" using assms(1) by (simp add: lib_ok_def)
  note ht = htable_lawsD(4, 8) [OF laws assms(2)]
  show ?thesis
  proof (cases "session_loop L t (e_rand E) i")
    case None
    have "ht_get (lib_sesh L) t (draw (e_rand E) i k) \<noteq> None" for k
      using session_loop_finds [of L t "e_rand E" i k] None ht(2) by auto
    then show ?thesis using None by (simp add: generate_session_id_def)
  next
    case (Some r)
    obtain sesh i' where r: "r = (sesh, i')" by (cases r)
    have free: "ht_get (lib_sesh L) t sesh = None"
      using session_loop_free [OF Some] ht(2) by (simp add: r)
    obtain k where k: "sesh = draw (e_rand E) i k" using session_loop_draws [OF Some] by (auto simp: r)
    have "generate_session_id L E t i = Inr (OP_SUCCESS, sesh, ht_set (lib_sesh L) t sesh (e_now E), i')"
      using Some by (simp add: generate_session_id_def r)
    then show ?thesis using free k ht(1) by auto
  qed
qed

theorem generate_session_id_terminates_witness:
  "\<exists>sesh t' i'. generate_session_id sample_lib (sample_env 5) [(0x03020100, 1)] 0 = Inr (OP_SUCCESS, sesh, t', i') \<and>
    sesh \<noteq> 0x03020100"
proof -
  have v: "ht_valid (lib_sesh sample_lib) [(0x03020100, 1)]" by (simp add: sample_lib_def alist_htable_def)
  have g: "ht_get (lib_sesh sample_lib) [(0x03020100, 1)] = [0x03020100 \<mapsto> 1]"
    by (simp add: sample_lib_def alist_htable_def)
  have "draw (e_rand (sample_env 5)) 0 1 = 0x07060504" by code_simp
  then have "\<exists>k. ht_get (lib_sesh sample_lib) [(0x03020100, 1)] (draw (e_rand (sample_env 5)) 0 k) = None"
    unfolding g by (intro exI [of _ 1]) simp
  then show ?thesis using generate_session_id_terminates [OF sample_lib_ok v, of "sample_env 5" 0]
    unfolding g by (auto split: if_splits)
qed

text \<open>Property C36: the database file is an ordinary file for the requests, so every account, whatever its
  permission, can download the digests of all passwords.
\<close>

theorem database_file_readable:
  assumes "lib_ok L" and "db_inv L (sv_db S)" and "storage_ok (sv_fs S) hp"
    and "p_home_dir (sv_db S) = Some \<lparr>p_path = render hp\<rparr>"
    and "lookup (sv_fs S) (db_path hp) = Some (File bs)" and "bs \<noteq> []"
    and "login L (accounts_of L S) req = Some u" and "wp_session_id req \<noteq> 0"
    and "sessions_of L S (wp_session_id req) = Some t" and "e_now E - t \<le> e_timeout E"
    and "wp_opt_code req = ACT_GET_REMOTE_FILE" and "wp_payload req = Std_payload p"
    and "sp_path p = Some DB_NAME"
  shows "\<exists>resp S' c. ctrl_request L E S req = Inr (resp, req, S') \<and> resp_result resp = OP_SUCCESS \<and>
    resp_content resp = Some c \<and> fc_stream c = bs"
proof -
  note s = storage_okD [OF assms(3)] and l = room_lengths [OF storage_okD(2, 8) [OF assms(3)]]
  have path: "f_ver_path_resolve (sv_fs S) (Some \<lparr>p_path = render hp\<rparr>) (Some DB_NAME) =
      Inr (Some \<lparr>p_path = render (db_path hp)\<rparr>)"
    using resolve_db(2) [OF s(1, 2, 4)] assms(5) by simp
  note content = f_read_file_plain [OF s(7) assms(5) l(3) s(3), of "lib_sha256 L"]
  have ne: "length bs \<noteq> 0" using assms(6) by simp
  have "\<exists>resp c. do_get_file L (touch L E S (wp_session_id req)) req = Inr resp \<and> resp_result resp = OP_SUCCESS \<and>
      resp_content resp = Some c \<and> fc_stream c = bs"
    using ne by (simp add: do_get_file_def assms(4, 12, 13) path content set_resp_def)
  then obtain resp c where get: "do_get_file L (touch L E S (wp_session_id req)) req = Inr resp"
    and resp: "resp_result resp = OP_SUCCESS" "resp_content resp = Some c" "fc_stream c = bs"
    by blast
  have "dispatch L (touch L E S (wp_session_id req)) u req = Inr (resp, touch L E S (wp_session_id req))"
    using get assms(11) by (simp add: dispatch_def act_codes)
  then have "ctrl_request L E S req = Inr (resp, req, touch L E S (wp_session_id req))"
    using request_live [OF assms(1, 2, 7-10)] by simp
  then show ?thesis using resp by blast
qed

theorem database_file_readable_witness:
  "\<exists>resp S' c. ctrl_request sample_lib (sample_env 130) sample_srv
      (sample_req ''alice'' ''secret'' 7 ACT_GET_REMOTE_FILE (sample_path ''.cape/.cape.db'')) =
      Inr (resp, sample_req ''alice'' ''secret'' 7 ACT_GET_REMOTE_FILE (sample_path ''.cape/.cape.db''), S') \<and>
    resp_result resp = OP_SUCCESS \<and> resp_content resp = Some c \<and> fc_stream c = db_text sample_accts"
proof -
  have f: "lookup (sv_fs sample_srv) (db_path sample_home) = Some (File (db_text sample_accts))"
    by (simp add: sample_srv_def store_files_lookup)
  have ne: "db_text sample_accts \<noteq> []"
    using length_MAGIC_BYTES unfolding db_text_def by (metis append_is_Nil_conv list.size(3) zero_neq_numeral)
  show ?thesis
    by (rule database_file_readable [OF sample_lib_ok sample_srv_inv sample_srv_storage f ne sample_login(1),
          where t = 100 and p = "\<lparr>sp_path_len = 14, sp_path = Some ''.cape/.cape.db'', sp_byte_stream = None,
            sp_hash_stream = None, sp_byte_stream_len = 0\<rparr>"])
      (simp_all add: sample_srv_sessions sample_env_def sample_path_def DB_NAME_def)
qed

text \<open>The administrator deletes the file \<^verbatim>\<open>a\<close>.\<close>

definition sample_delete :: wire_payload_t where
  "sample_delete = sample_req ''boss1'' ''hunter2'' 7 ACT_DELETE_REMOTE_FILE (sample_path ''a'')"

definition sample_srv2 :: "((string \<times> user_account_t) list, (u32 \<times> int) list) srv" where
  "sample_srv2 = sample_srv\<lparr>sv_fs := sample_store\<rparr>"

lemma sample_srv2_simps:
  "sv_fs sample_srv2 = sample_store" "db_inv sample_lib (sv_db sample_srv2)"
  "storage_ok (sv_fs sample_srv2) sample_home"
  "p_home_dir (sv_db sample_srv2) = Some \<lparr>p_path = render sample_home\<rparr>" "sessions_of sample_lib sample_srv2 7 = Some 100"
  "accounts_of sample_lib sample_srv2 = accounts_of sample_lib sample_srv"
  using sample_srv_inv sample_srv_storage(2) sample_storage_ok by (simp_all add: sample_srv2_def sample_srv_sessions)

lemma sample_delete_runs:
  "\<exists>S'. ctrl_request sample_lib (sample_env 130) sample_srv2 sample_delete = Inr (set_resp OP_SUCCESS, sample_delete, S') \<and>
    sv_fs S' = del_node [''srv'', ''home'', ''a''] sample_store"
proof -
  let ?u = "new_account sample_lib ''boss1'' ''hunter2'' 3" and ?E = "sample_env 130"
  let ?T = "touch sample_lib ?E sample_srv2 7"
  note S = sample_srv2_simps
  have u: "login sample_lib (accounts_of sample_lib sample_srv2) sample_delete = Some ?u"
    unfolding sample_delete_def S(6) by (rule sample_login)
  have path: "f_ver_path_resolve sample_store (Some \<lparr>p_path = ''/srv/home''\<rparr>) (Some ''a'') =
      Inr (Some \<lparr>p_path = ''/srv/home/a''\<rparr>)" by code_simp
  have fst_del: "f_del_file sample_store (Some \<lparr>p_path = ''/srv/home/a''\<rparr>) =
      Inr (OP_SUCCESS, del_node [''srv'', ''home'', ''a''] sample_store)" by code_simp
  have T: "p_home_dir (sv_db ?T) = Some \<lparr>p_path = ''/srv/home''\<rparr>" "sv_fs ?T = sample_store"
    by (simp_all only: touch_simps S(1, 4) render_sample_home)
  have "do_del_file ?T sample_delete = Inr (OP_SUCCESS, del_node [''srv'', ''home'', ''a''] sample_store)"
    unfolding do_del_file_def T using path fst_del by (simp add: sample_delete_def sample_path_def)
  then have d: "dispatch sample_lib ?T ?u sample_delete =
      Inr (set_resp OP_SUCCESS, ?T\<lparr>sv_fs := del_node [''srv'', ''home'', ''a''] sample_store\<rparr>)"
    by (simp add: dispatch_def sample_delete_def fs_result_def act_codes new_account_def perm_codes)
  have r: "ctrl_request sample_lib ?E sample_srv2 sample_delete =
      rbind (dispatch sample_lib ?T ?u sample_delete) (\<lambda>(resp, S). Inr (resp, sample_delete, S))"
    using request_live [OF sample_lib_ok S(2) u, of 100 ?E] S(5) by (simp add: sample_delete_def sample_env_def)
  show ?thesis unfolding r d by simp
qed

text \<open>Property C17: a request without a parent directory in its path changes nothing outside the home directory.\<close>

theorem controller_confined:
  assumes "lib_ok L" and "db_inv L (sv_db S)" and "storage_ok (sv_fs S) hp"
    and "p_home_dir (sv_db S) = Some \<lparr>p_path = render hp\<rparr>"
    and "\<forall>p c. wp_payload req = Std_payload p \<longrightarrow> sp_path p = Some c \<longrightarrow> nul_free c \<and> plain c"
    and "ctrl_request L E S req = Inr (resp, req', S')"
  shows "agree_outside hp (sv_fs S) (sv_fs S')"
  using assms(1, 2, 6)
proof (cases rule: ctrl_request_cases)
  case refused
  then show ?thesis by simp
next
  case (expired u)
  then show ?thesis using check_session_keeps(3) [OF assms(1, 2) expired(2)] by simp
next
  case (served u S1)
  note c = check_session_keeps [OF assms(1, 2) served(2)]
  have ld: "wp_payload req' = wp_payload req" by (subst served(3)) simp
  show ?thesis
    using dispatch_confined [OF assms(1) _ c(1) _ login_fmt [OF assms(2) served(1)] _ served(4), of hp]
      assms(3-5) c(3, 4) ld by simp
qed

theorem controller_confined_witness:
  "\<exists>S'. ctrl_request sample_lib (sample_env 130) sample_srv2 sample_delete = Inr (set_resp OP_SUCCESS, sample_delete, S') \<and>
    lookup (sv_fs S') [''srv'', ''home'', ''a''] = None \<and> agree_outside sample_home sample_store (sv_fs S')"
proof -
  obtain S' where c: "ctrl_request sample_lib (sample_env 130) sample_srv2 sample_delete =
      Inr (set_resp OP_SUCCESS, sample_delete, S')"
    and F: "sv_fs S' = del_node [''srv'', ''home'', ''a''] sample_store"
    using sample_delete_runs by blast
  note S = sample_srv2_simps
  have ok: "\<forall>p c. wp_payload sample_delete = Std_payload p \<longrightarrow> sp_path p = Some c \<longrightarrow> nul_free c \<and> plain c"
    by (simp add: sample_delete_def sample_path_def plain_def)
  have "agree_outside sample_home (sv_fs sample_srv2) (sv_fs S')"
    by (rule controller_confined [OF sample_lib_ok S(2, 3, 4) ok c])
  then show ?thesis using c F unfolding S(1) by (intro exI [of _ S']) simp
qed

end
