(* ===== verification/Sock.thy ===== *)
theory Sock
  imports Ctrl
begin

text \<open>
  \<^verbatim>\<open>src/server/server_sock.c\<close>: reading a request from a connected socket, answering it, and the handler
  of one connection. The socket is a list of the results of \<^verbatim>\<open>read\<close> and a list of the results of \<^verbatim>\<open>write\<close>;
  \<open>A n\<close> tells whether an allocation of \<open>n\<close> bytes succeeds, since the client chooses some sizes. The
  machine is little endian, as in \<open>Db\<close>.
\<close>

section \<open>Constants\<close>

definition H_OPCODE :: nat where "H_OPCODE = 1"
definition H_USER_FLAG :: nat where "H_USER_FLAG = 1"
definition H_REQ_RESERVED :: nat where "H_REQ_RESERVED = 2"
definition H_RESP_RESERVED :: nat where "H_RESP_RESERVED = 1"
definition H_USERNAME_LEN :: nat where "H_USERNAME_LEN = 2"
definition H_PASSWORD_LEN :: nat where "H_PASSWORD_LEN = 2"
definition H_SESSION_ID :: nat where "H_SESSION_ID = 4"
definition H_PAYLOAD_LEN :: nat where "H_PAYLOAD_LEN = 8"
definition H_PATH_LEN :: nat where "H_PATH_LEN = 2"
definition H_USR_ACT_FLAG :: nat where "H_USR_ACT_FLAG = 1"
definition H_USR_PERMISSION :: nat where "H_USR_PERMISSION = 1"
definition H_RETURN_CODE :: nat where "H_RETURN_CODE = 1"
definition H_MSG_LEN :: nat where "H_MSG_LEN = 1"
definition H_HASH_LEN :: nat where "H_HASH_LEN = SHA256_DIGEST_LENGTH"

lemmas header_sizes =
  H_OPCODE_def H_USER_FLAG_def H_REQ_RESERVED_def H_RESP_RESERVED_def H_USERNAME_LEN_def H_PASSWORD_LEN_def
  H_SESSION_ID_def H_PAYLOAD_LEN_def H_PATH_LEN_def H_USR_ACT_FLAG_def H_USR_PERMISSION_def H_RETURN_CODE_def
  H_MSG_LEN_def H_HASH_LEN_def SHA256_DIGEST_LENGTH_def

definition MAX_MSG_SIZE :: nat where "MAX_MSG_SIZE = 2048"
definition MAX_FILE_SIZE :: nat where "MAX_FILE_SIZE = 1016"

section \<open>Reading bytes\<close>

text \<open>
  One result of \<^verbatim>\<open>read(fd, buf, 1)\<close>: a byte, the end of the stream, the receive timeout, another error.
  When the list ends nothing more arrives, so the receive timeout is the next result.
\<close>

datatype rd_event = Rd_byte u8 | Rd_closed | Rd_timeout | Rd_failed

fun read_loop :: "nat \<Rightarrow> bytes \<Rightarrow> rd_event list \<Rightarrow> (ret_codes_t + bytes) \<times> rd_event list" where
  "read_loop 0 payload_buffer inp = (Inr payload_buffer, inp)"
| "read_loop (Suc n) payload_buffer [] = (Inl OP_SESSION_ERROR, [])"
| "read_loop (Suc n) payload_buffer (Rd_byte b # inp) = read_loop n (payload_buffer @ [b]) inp"
| "read_loop (Suc n) payload_buffer (Rd_closed # inp) = (Inl OP_SOCK_CLOSED, inp)"
| "read_loop (Suc n) payload_buffer (Rd_timeout # inp) = (Inl OP_SESSION_ERROR, inp)"
| "read_loop (Suc n) payload_buffer (Rd_failed # inp) = (Inl OP_FAILURE, inp)"

definition read_stream :: "(nat \<Rightarrow> bool) \<Rightarrow> nat \<Rightarrow> rd_event list \<Rightarrow> (ret_codes_t + bytes) \<times> rd_event list" where
  "read_stream A bytes_to_read inp =
    (if bytes_to_read = 0 then (Inr [], inp)
     else if \<not> A (bytes_to_read + 1) then (Inl OP_FAILURE, inp)
     else read_loop bytes_to_read [] inp)"

text \<open>
  A string gets twice its length and a terminator behind its last byte; with length 0 that write is
  behind the allocation. The result \<open>None\<close> is the pointer left NULL.
\<close>

definition make_byte_array ::
  "(nat \<Rightarrow> bool) \<Rightarrow> nat \<Rightarrow> bool \<Rightarrow> rd_event list \<Rightarrow> ((ret_codes_t + bytes option) \<times> rd_event list) run" where
  "make_byte_array A array_len make_string inp =
    (if array_len = 0 \<and> \<not> make_string then Inr (Inr None, inp)
     else if \<not> A (if make_string then array_len * 2 else array_len) then Inr (Inl OP_FAILURE, inp)
     else
       (case read_stream A array_len inp of
          (Inl e, inp') \<Rightarrow> Inr (Inl e, inp')
        | (Inr p_array, inp') \<Rightarrow>
            if make_string \<and> array_len = 0 then Inl Heap_overflow else Inr (Inr (Some p_array), inp')))"

section \<open>Reading a request\<close>

text \<open>
  The functions below fill a structure field by field and stop at the first read that fails.
  \<open>reads\<close> is that sequence, over the structure and the rest of the input.
\<close>

type_synonym 'w reader = "'w \<times> rd_event list \<Rightarrow> (ret_codes_t \<times> 'w \<times> rd_event list) run"

fun reads :: "'w reader list \<Rightarrow> 'w reader" where
  "reads [] (w, inp) = Inr (OP_SUCCESS, w, inp)"
| "reads (f # fs) (w, inp) =
    rbind (f (w, inp)) (\<lambda>(result, w', inp'). if result \<noteq> OP_SUCCESS then Inr (result, w', inp') else reads fs (w', inp'))"

definition rd_field :: "(nat \<Rightarrow> bool) \<Rightarrow> nat \<Rightarrow> (bytes \<Rightarrow> 'w \<Rightarrow> 'w) \<Rightarrow> 'w reader" where
  "rd_field A n store s =
    (case s of (w, inp) \<Rightarrow>
       (case read_stream A n inp of
          (Inl e, inp') \<Rightarrow> Inr (e, w, inp')
        | (Inr bs, inp') \<Rightarrow> Inr (OP_SUCCESS, store bs w, inp')))"

definition rd_array :: "(nat \<Rightarrow> bool) \<Rightarrow> ('w \<Rightarrow> nat) \<Rightarrow> bool \<Rightarrow> (bytes option \<Rightarrow> 'w \<Rightarrow> 'w) \<Rightarrow> 'w reader" where
  "rd_array A array_len make_string store s =
    (case s of (w, inp) \<Rightarrow>
       rbind (make_byte_array A (array_len w) make_string inp) (\<lambda>(r, inp').
         case r of Inl e \<Rightarrow> Inr (e, w, inp') | Inr a \<Rightarrow> Inr (OP_SUCCESS, store a w, inp')))"

text \<open>One byte read into a zeroed enumeration.\<close>

definition enum_of :: "bytes \<Rightarrow> u32" where
  "enum_of bs = load_mem True (bs @ replicate (4 - length bs) 0)"

definition user_payload_has_password :: "u64 \<Rightarrow> u16 \<Rightarrow> bool" where
  "user_payload_has_password payload_len username_len =
    (let r_operand = word_of_nat (H_USR_ACT_FLAG + H_USR_PERMISSION + H_USERNAME_LEN) + ucast username_len :: u32 in
     if payload_len \<le> ucast r_operand then False else True)"

definition std_payload_has_file :: "u64 \<Rightarrow> u16 \<Rightarrow> bool" where
  "std_payload_has_file payload_len path_len \<longleftrightarrow> payload_len - ucast path_len \<ge> word_of_nat H_HASH_LEN"

definition get_file_stream_size :: "u64 \<Rightarrow> u16 \<Rightarrow> u64" where
  "get_file_stream_size payload_len path_len =
    (let r_operand = ucast path_len + word_of_nat H_HASH_LEN + word_of_nat H_PATH_LEN :: u32 in
     if payload_len < ucast r_operand then 0 else payload_len - ucast r_operand)"

definition sizeof_payload :: nat where "sizeof_payload = 40"
definition sizeof_wire :: nat where "sizeof_wire = 64"

definition zero_std :: std_payload_t where
  "zero_std = \<lparr>sp_path_len = 0, sp_path = None, sp_byte_stream = None, sp_hash_stream = None, sp_byte_stream_len = 0\<rparr>"

definition zero_user :: user_payload_t where
  "zero_user = \<lparr>up_user_flag = 0, up_user_perm = 0, up_username_len = 0, up_username = None, up_passwd_len = 0,
     up_passwd = None\<rparr>"

definition zero_wire :: wire_payload_t where
  "zero_wire =
    \<lparr>wp_opt_code = 0, wp_user_flag = 0, wp_reserved = 0, wp_username_len = 0, wp_passwd_len = 0, wp_session_id = 0,
     wp_username = None, wp_passwd = None, wp_payload_len = 0, wp_type = NO_PAYLOAD, wp_payload = Null_payload\<rparr>"

text \<open>The file part of a standard payload: the digest, then the stream.\<close>

definition read_std_file :: "(nat \<Rightarrow> bool) \<Rightarrow> u64 \<Rightarrow> std_payload_t reader" where
  "read_std_file A payload_len s =
    (case s of (p_load, inp) \<Rightarrow>
       if std_payload_has_file payload_len (sp_path_len p_load) then
         reads
           [rd_array A (\<lambda>_. H_HASH_LEN) False (\<lambda>a p. p\<lparr>sp_hash_stream := a\<rparr>),
            \<lambda>(p, inp). Inr (OP_SUCCESS,
              p\<lparr>sp_byte_stream_len := get_file_stream_size payload_len (sp_path_len p)\<rparr>, inp),
            rd_array A (\<lambda>p. unat (sp_byte_stream_len p)) False (\<lambda>a p. p\<lparr>sp_byte_stream := a\<rparr>)]
           (p_load, inp)
       else Inr (OP_SUCCESS, p_load, inp))"

definition read_client_std_payload :: "(nat \<Rightarrow> bool) \<Rightarrow> wire_payload_t reader" where
  "read_client_std_payload A s =
    (case s of (p_wire, inp) \<Rightarrow>
       if \<not> A sizeof_payload then Inr (OP_FAILURE, p_wire\<lparr>wp_payload := Null_payload\<rparr>, inp)
       else
         rbind (reads
             [rd_field A H_PATH_LEN (\<lambda>bs p. p\<lparr>sp_path_len := htons True (load_mem True bs)\<rparr>),
              rd_array A (\<lambda>p. unat (sp_path_len p)) True (\<lambda>a p. p\<lparr>sp_path := map_option cstr a\<rparr>),
              read_std_file A (wp_payload_len p_wire)]
             (zero_std, inp))
           (\<lambda>(result, p_load, inp'). Inr (result, p_wire\<lparr>wp_payload := Std_payload p_load\<rparr>, inp')))"

text \<open>The password part of a user payload.\<close>

definition read_user_password :: "(nat \<Rightarrow> bool) \<Rightarrow> u64 \<Rightarrow> user_payload_t reader" where
  "read_user_password A payload_len s =
    (case s of (p_load, inp) \<Rightarrow>
       if user_payload_has_password payload_len (up_username_len p_load) then
         reads
           [rd_field A H_PASSWORD_LEN (\<lambda>bs p. p\<lparr>up_passwd_len := htons True (load_mem True bs)\<rparr>),
            rd_array A (\<lambda>p. unat (up_passwd_len p)) True (\<lambda>a p. p\<lparr>up_passwd := map_option cstr a\<rparr>)]
           (p_load, inp)
       else Inr (OP_SUCCESS, p_load, inp))"

definition read_client_user_payload :: "(nat \<Rightarrow> bool) \<Rightarrow> wire_payload_t reader" where
  "read_client_user_payload A s =
    (case s of (p_wire, inp) \<Rightarrow>
       let p_wire = p_wire\<lparr>wp_type := USER_PAYLOAD\<rparr> in
       if \<not> A sizeof_payload then Inr (OP_FAILURE, p_wire\<lparr>wp_payload := Null_payload\<rparr>, inp)
       else
         rbind (reads
             [rd_field A H_USR_ACT_FLAG (\<lambda>bs p. p\<lparr>up_user_flag := enum_of bs\<rparr>),
              rd_field A H_USR_PERMISSION (\<lambda>bs p. p\<lparr>up_user_perm := enum_of bs\<rparr>),
              rd_field A H_USERNAME_LEN (\<lambda>bs p. p\<lparr>up_username_len := ntohs True (load_mem True bs)\<rparr>),
              rd_array A (\<lambda>p. unat (up_username_len p)) True (\<lambda>a p. p\<lparr>up_username := map_option cstr a\<rparr>),
              read_user_password A (wp_payload_len p_wire)]
             (zero_user, inp))
           (\<lambda>(result, p_load, inp'). Inr (result, p_wire\<lparr>wp_payload := User_payload p_load\<rparr>, inp')))"

text \<open>\<open>read_header\<close> and \<open>read_payload\<close> are the two halves of \<^verbatim>\<open>read_client_req\<close>.\<close>

definition read_header :: "(nat \<Rightarrow> bool) \<Rightarrow> wire_payload_t reader" where
  "read_header A =
    reads
      [rd_field A H_OPCODE (\<lambda>bs w. w\<lparr>wp_opt_code := enum_of bs\<rparr>),
       rd_field A H_USER_FLAG (\<lambda>bs w. w\<lparr>wp_user_flag := enum_of bs\<rparr>),
       rd_field A H_REQ_RESERVED (\<lambda>bs w. w\<lparr>wp_reserved := load_mem True bs\<rparr>),
       rd_field A H_USERNAME_LEN (\<lambda>bs w. w\<lparr>wp_username_len := ntohs True (load_mem True bs)\<rparr>),
       rd_field A H_PASSWORD_LEN (\<lambda>bs w. w\<lparr>wp_passwd_len := ntohs True (load_mem True bs)\<rparr>),
       rd_field A H_SESSION_ID (\<lambda>bs w. w\<lparr>wp_session_id := ntohl True (load_mem True bs)\<rparr>),
       rd_array A (\<lambda>w. unat (wp_username_len w)) True (\<lambda>a w. w\<lparr>wp_username := map_option cstr a\<rparr>),
       rd_array A (\<lambda>w. unat (wp_passwd_len w)) True (\<lambda>a w. w\<lparr>wp_passwd := map_option cstr a\<rparr>),
       rd_field A H_PAYLOAD_LEN (\<lambda>bs w. w\<lparr>wp_payload_len := ntohll True (load_mem True bs)\<rparr>)]"

definition read_payload :: "(nat \<Rightarrow> bool) \<Rightarrow> wire_payload_t reader" where
  "read_payload A s =
    (case s of (p_wire, inp) \<Rightarrow>
       if wp_opt_code p_wire = ACT_USER_OPERATION then read_client_user_payload A (p_wire, inp)
       else if wp_opt_code p_wire \<noteq> ACT_LOCAL_OPERATION then read_client_std_payload A (p_wire, inp)
       else Inr (OP_SUCCESS, p_wire, inp))"

section \<open>Writing a response\<close>

text \<open>One result of \<^verbatim>\<open>write\<close>: how many bytes it took, at most those offered, or an error.\<close>

datatype wr_event = Wr_sent nat | Wr_failed

text \<open>The two parts of a response and the size of the packets each is sent in.\<close>

datatype part = Msg_part | File_part

fun max_send :: "part \<Rightarrow> nat" where
  "max_send Msg_part = MAX_MSG_SIZE"
| "max_send File_part = MAX_FILE_SIZE"

lemma max_send_pos [simp]: "0 < max_send p"
  by (cases p) (simp_all add: MAX_MSG_SIZE_def MAX_FILE_SIZE_def)

text \<open>
  The loop sends until everything was taken or a write fails; it returns whether it got through, the
  bytes each call took, and the results left. When the list of results ends, writes take all they are
  offered.
\<close>

function send_loop :: "part \<Rightarrow> bytes \<Rightarrow> wr_event list \<Rightarrow> bool \<times> bytes list \<times> wr_event list" where
  "send_loop p stream ws =
    (let send_size = min (length stream) (max_send p) in
     case ws of
       Wr_failed # ws' \<Rightarrow> (False, [], ws')
     | Wr_sent k # ws' \<Rightarrow>
         (let sent_bytes = min k send_size in
          if sent_bytes = length stream then (True, [take sent_bytes stream], ws')
          else
            (let (ok, pkts, ws'') = send_loop p (drop sent_bytes stream) ws' in
             (ok, take sent_bytes stream # pkts, ws'')))
     | [] \<Rightarrow>
         if send_size = length stream then (True, [stream], [])
         else
           (let (ok, pkts, ws'') = send_loop p (drop send_size stream) [] in
            (ok, take send_size stream # pkts, ws'')))"
  by pat_completeness auto
termination
  by (relation "measure (\<lambda>(p, stream, ws). length ws + length stream)")
    (auto simp: less_diff_conv2 min_def split: if_splits)

declare send_loop.simps [simp del]

definition get_base_resp_size :: nat where
  "get_base_resp_size = H_RETURN_CODE + H_RESP_RESERVED + H_SESSION_ID + H_PAYLOAD_LEN + H_MSG_LEN"

text \<open>The digest and the stream of the content, as they are copied into the response.\<close>

definition content_bytes :: "file_content_t \<Rightarrow> bytes run" where
  "content_bytes c =
    (if length (h_array (fc_hash c)) < h_size (fc_hash c) \<or> length (fc_stream c) < fc_stream_size c then Inl Oob_read
     else Inr (take (h_size (fc_hash c)) (h_array (fc_hash c)) @ take (fc_stream_size c) (fc_stream c)))"

text \<open>The buffer \<open>p_stream\<close>, split where its two parts are sent separately.\<close>

definition response_bytes :: "u32 \<Rightarrow> act_resp_t \<Rightarrow> (bytes \<times> bytes) run" where
  "response_bytes worker_session p_resp =
    (case resp_msg p_resp of
       None \<Rightarrow> Inl Null_deref
     | Some msg \<Rightarrow>
         rbind (case resp_content p_resp of None \<Rightarrow> Inr [] | Some c \<Rightarrow> content_bytes c) (\<lambda>data.
           let msg_len = length msg;
               payload_len = word_of_nat (msg_len + H_MSG_LEN + length data) :: u64
           in Inr
             (take H_RETURN_CODE (mem_of True 4 (word_of_nat (ret_code (resp_result p_resp)) :: u32)) @
              replicate H_RESP_RESERVED 0 @
              mem_of True H_SESSION_ID (htonl True worker_session) @
              mem_of True H_PAYLOAD_LEN (htonll True payload_len) @
              take H_MSG_LEN (mem_of True 8 (word_of_nat msg_len :: u64)) @
              str_bytes msg, data)))"

definition write_response ::
  "(nat \<Rightarrow> bool) \<Rightarrow> u32 \<Rightarrow> act_resp_t option \<Rightarrow> wr_event list \<Rightarrow> (bytes list \<times> wr_event list) run" where
  "write_response A worker_session p_resp ws =
    (case p_resp of
       None \<Rightarrow> Inl Null_deref
     | Some resp \<Rightarrow>
         rbind (response_bytes worker_session resp) (\<lambda>(head, data).
           if \<not> A (length head + length data) then Inr ([], ws)
           else
             (let (ok, pkts, ws) = send_loop Msg_part head ws in
              if ok \<and> length data > 0 then
                (let (ok, pkts', ws) = send_loop File_part data ws in Inr (pkts @ pkts', ws))
              else Inr (pkts, ws))))"

section \<open>One connection\<close>

text \<open>
  The result of \<^verbatim>\<open>read_client_req\<close>: the code, the request as far as it was filled, and what was sent.
\<close>

definition read_client_req ::
  "(nat \<Rightarrow> bool) \<Rightarrow> u32 \<Rightarrow> rd_event list \<Rightarrow> wr_event list \<Rightarrow>
     (ret_codes_t \<times> wire_payload_t \<times> bytes list \<times> wr_event list) run" where
  "read_client_req A worker_session inp ws =
    rbind (reads [read_header A, read_payload A] (zero_wire, inp)) (\<lambda>(result, p_wire, inp').
      if result = OP_SUCCESS then Inr (OP_SUCCESS, p_wire, [], ws)
      else if result \<noteq> OP_SOCK_CLOSED then
        rbind (write_response A worker_session (Some (ctrl_populate_resp result)) ws) (\<lambda>(pkts, ws).
          Inr (result, p_wire, pkts, ws))
      else Inr (result, p_wire, [], ws))"

text \<open>What one connection brings: whether the timeout can be set, the input, and the results of the writes.\<close>

record conn =
  cn_sockopt :: bool
  cn_in :: "rd_event list"
  cn_writes :: "wr_event list"

definition serve_client ::
  "('u, 's) lib \<Rightarrow> env \<Rightarrow> (nat \<Rightarrow> bool) \<Rightarrow> ('u, 's) srv \<Rightarrow> conn \<Rightarrow> (bytes list \<times> ('u, 's) srv) run" where
  "serve_client L E A S p_worker =
    (if \<not> cn_sockopt p_worker \<or> \<not> A sizeof_wire then Inr ([], S)
     else
       rbind (read_client_req A 0 (cn_in p_worker) (cn_writes p_worker)) (\<lambda>(result, p_client_req, pkts, ws).
         if result \<noteq> OP_SUCCESS then
           Inr (pkts, S\<lparr>sv_db := (sv_db S)\<lparr>sesh_htable :=
             snd (ht_del (lib_sesh L) (sesh_htable (sv_db S)) (wp_session_id p_client_req))\<rparr>\<rparr>)
         else
           rbind (ctrl_parse_action L E (Some S) (Some p_client_req)) (\<lambda>(resp, req, S').
             case (req, S') of
               (Some req, Some S') \<Rightarrow>
                 rbind (write_response A (wp_session_id req) resp ws) (\<lambda>(pkts', ws'). Inr (pkts @ pkts', S'))
             | _ \<Rightarrow> Inl Null_deref)))"

section \<open>What the readers do on bytes that arrive\<close>

definition arrive :: "bytes \<Rightarrow> rd_event list" where
  "arrive bs = map Rd_byte bs"

lemma arrive_append [simp]: "arrive (xs @ ys) = arrive xs @ arrive ys"
  by (simp add: arrive_def)

lemma read_loop_arrive: "read_loop (length bs) acc (arrive bs @ r) = (Inr (acc @ bs), r)"
  by (induction bs arbitrary: acc) (simp_all add: arrive_def)

lemma read_stream_arrive:
  assumes "\<And>k. A k" and "length bs = n"
  shows "read_stream A n (arrive bs @ r) = (Inr bs, r)"
  using assms read_loop_arrive [of bs "[]" r] by (auto simp: read_stream_def arrive_def)

lemma rd_field_arrive:
  assumes "\<And>k. A k" and "length bs = n"
  shows "rd_field A n store (w, arrive bs @ r) = Inr (OP_SUCCESS, store bs w, r)"
  by (simp add: rd_field_def read_stream_arrive [OF assms])

lemma rd_string_arrive:
  assumes "\<And>k. A k" and "s \<noteq> []" and "len w = length s"
  shows "rd_array A len True store (w, arrive (str_bytes s) @ r) = Inr (OP_SUCCESS, store (Some (str_bytes s)) w, r)"
  using assms(2) by (simp add: rd_array_def make_byte_array_def assms(1, 3) read_stream_arrive [OF assms(1)])

lemma rd_bytes_arrive:
  assumes "\<And>k. A k" and "len w = length bs"
  shows "rd_array A len False store (w, arrive bs @ r) =
    Inr (OP_SUCCESS, store (if bs = [] then None else Some bs) w, r)"
  by (cases bs) (simp_all add: rd_array_def make_byte_array_def assms(2) assms(1) arrive_def [of "[]"]
      read_stream_arrive [OF assms(1)])

text \<open>An enumeration travels as one byte.\<close>

definition enc8 :: "u32 \<Rightarrow> bytes" where
  "enc8 x = [ucast x]"

lemma length_enc8 [simp]: "length (enc8 x) = 1"
  by (simp add: enc8_def)

lemma enum_of_byte: "enum_of [b] = ucast b"
proof -
  have "enum_of [b] = be_dec [0, 0, 0, b]" by (simp add: enum_of_def load_mem_def numeral_3_eq_3)
  also have "\<dots> = word_of_nat (unat b)" by (simp add: be_dec_def)
  also have "\<dots> = ucast b" by (simp add: unsigned_of_nat)
  finally show ?thesis .
qed

lemma enum_round_trip: "unat op < 256 \<Longrightarrow> enum_of (enc8 op) = op"
  unfolding enc8_def enum_of_byte
  by (simp add: word_unat_eq_iff unsigned_ucast_eq unsigned_take_bit_eq take_bit_nat_eq_self)

lemma enc_ntoh:
  "ntohs True (load_mem True (enc16 x)) = x" "htons True (load_mem True (enc16 x)) = x"
  "ntohl True (load_mem True (enc32 y)) = y" "ntohll True (load_mem True (enc64 z)) = z"
  using c16.dec_enc [of x] c32.dec_enc [of y] c64.dec_enc [of z]
  by (simp_all add: dec16_def dec32_def dec64_def htons_eq_ntohs)

context net_codec
begin

text \<open>A field of the width of the codec that arrives is read as the value it encodes.\<close>

lemma read_field:
  assumes "\<And>k. A k" and "n = width"
  shows "rd_field A n store (w, arrive (enc x) @ r) = Inr (OP_SUCCESS, store (enc x) w, r)"
  by (rule rd_field_arrive [OF assms(1)]) (simp add: assms(2) length_enc)

end

section \<open>The wire format\<close>

text \<open>
  The format of the README, as a reference: what a client sends for a request. Numbers are in network
  order.
\<close>

definition enc_std :: "std_payload_t \<Rightarrow> bytes" where
  "enc_std p =
    enc16 (sp_path_len p) @ str_bytes (the (sp_path p)) @
    (case sp_hash_stream p of None \<Rightarrow> [] | Some h \<Rightarrow> h @ (case sp_byte_stream p of None \<Rightarrow> [] | Some bs \<Rightarrow> bs))"

definition enc_user :: "user_payload_t \<Rightarrow> bytes" where
  "enc_user p =
    enc8 (up_user_flag p) @ enc8 (up_user_perm p) @ enc16 (up_username_len p) @
    str_bytes (the (up_username p)) @
    (case up_passwd p of None \<Rightarrow> [] | Some pw \<Rightarrow> enc16 (up_passwd_len p) @ str_bytes pw)"

definition enc_payload :: "payload_ptr \<Rightarrow> bytes" where
  "enc_payload ld =
    (case ld of Null_payload \<Rightarrow> [] | Std_payload p \<Rightarrow> enc_std p | User_payload p \<Rightarrow> enc_user p)"

definition enc_request :: "wire_payload_t \<Rightarrow> bytes" where
  "enc_request w =
    enc8 (wp_opt_code w) @ enc8 (wp_user_flag w) @ mem_of True 2 (wp_reserved w) @
    enc16 (wp_username_len w) @ enc16 (wp_passwd_len w) @ enc32 (wp_session_id w) @
    str_bytes (the (wp_username w)) @ str_bytes (the (wp_passwd w)) @ enc64 (wp_payload_len w) @
    enc_payload (wp_payload w)"

text \<open>A string with its length field.\<close>

definition sized :: "u16 \<Rightarrow> string option \<Rightarrow> bool" where
  "sized n s \<longleftrightarrow> (\<exists>c. s = Some c \<and> c \<noteq> [] \<and> nul_free c \<and> unat n = length c)"

definition std_wf :: "std_payload_t \<Rightarrow> bool" where
  "std_wf p \<longleftrightarrow> sized (sp_path_len p) (sp_path p) \<and>
    (case sp_hash_stream p of
       None \<Rightarrow> sp_byte_stream p = None \<and> sp_byte_stream_len p = 0
     | Some h \<Rightarrow> length h = H_HASH_LEN \<and>
         (case sp_byte_stream p of
            None \<Rightarrow> sp_byte_stream_len p = 0
          | Some bs \<Rightarrow> bs \<noteq> [] \<and> unat (sp_byte_stream_len p) = length bs \<and> length bs < 2 ^ 63))"

definition user_wf :: "user_payload_t \<Rightarrow> bool" where
  "user_wf p \<longleftrightarrow> unat (up_user_flag p) < 256 \<and> unat (up_user_perm p) < 256 \<and>
    sized (up_username_len p) (up_username p) \<and>
    (if up_passwd p = None then up_passwd_len p = 0 else sized (up_passwd_len p) (up_passwd p))"

definition request_wf :: "wire_payload_t \<Rightarrow> bool" where
  "request_wf w \<longleftrightarrow> unat (wp_opt_code w) < 256 \<and> unat (wp_user_flag w) < 256 \<and>
    sized (wp_username_len w) (wp_username w) \<and> sized (wp_passwd_len w) (wp_passwd w) \<and>
    wp_payload_len w = word_of_nat (length (enc_payload (wp_payload w))) \<and>
    (case wp_payload w of
       Null_payload \<Rightarrow> wp_opt_code w = ACT_LOCAL_OPERATION \<and> wp_type w = NO_PAYLOAD
     | User_payload p \<Rightarrow> wp_opt_code w = ACT_USER_OPERATION \<and> wp_type w = USER_PAYLOAD \<and> user_wf p
     | Std_payload p \<Rightarrow> wp_opt_code w \<noteq> ACT_LOCAL_OPERATION \<and> wp_opt_code w \<noteq> ACT_USER_OPERATION \<and>
         wp_type w = NO_PAYLOAD \<and> std_wf p)"

lemma rd_sized_arrive:
  assumes "\<And>k. A k" and "sized n s" and "len w = unat n"
  shows "rd_array A len True store (w, arrive (str_bytes (the s)) @ r) =
    Inr (OP_SUCCESS, store (Some (str_bytes (the s))) w, r)"
  using assms(2, 3) by (auto simp: sized_def intro: rd_string_arrive [OF assms(1)])

lemma sized_cstr: "sized n s \<Longrightarrow> Some (cstr (str_bytes (the s))) = s"
  by (auto simp: sized_def)

lemma read_header_arrive:
  assumes "\<And>k. A k" and "request_wf w"
  shows "read_header A (zero_wire, arrive (enc_request w) @ r) =
    Inr (OP_SUCCESS, w\<lparr>wp_type := NO_PAYLOAD, wp_payload := Null_payload\<rparr>, arrive (enc_payload (wp_payload w)) @ r)"
proof -
  have wf: "unat (wp_opt_code w) < 256" "unat (wp_user_flag w) < 256"
    "sized (wp_username_len w) (wp_username w)" "sized (wp_passwd_len w) (wp_passwd w)"
    using assms(2) by (simp_all add: request_wf_def)
  note f = rd_field_arrive [OF assms(1)] and s = rd_sized_arrive [OF assms(1) wf(3)] rd_sized_arrive [OF assms(1) wf(4)]
  note c = c16.read_field [OF assms(1)] c32.read_field [OF assms(1)] c64.read_field [OF assms(1)]
  show ?thesis
    unfolding read_header_def enc_request_def header_sizes
    by (simp add: f c s enc_ntoh load_mem_mem_of enum_round_trip [OF wf(1)] enum_round_trip [OF wf(2)]
        sized_cstr [OF wf(3)] sized_cstr [OF wf(4)] zero_wire_def)
qed

lemma unat_u16_less: "unat (x :: u16) < 65536"
proof -
  have "unat x < 2 ^ LENGTH(16)" by (rule unsigned_less)
  then show ?thesis by simp
qed

lemma unat_of_nat_u64: "n < 2 ^ 64 \<Longrightarrow> unat (word_of_nat n :: u64) = n"
  by (simp add: unat_of_nat take_bit_nat_eq_self)

lemma ucast_of_nat:
  assumes "unat (x :: u16) = k"
  shows "(ucast x :: u64) = word_of_nat k" and "(ucast x :: u32) = word_of_nat k"
  unfolding assms [symmetric] by (simp_all only: of_nat_unat)

lemma ucast_u32_of_nat:
  assumes "n < 2 ^ 32"
  shows "(ucast (word_of_nat n :: u32) :: u64) = word_of_nat n"
  using assms by (simp add: word_unat_eq_iff unsigned_ucast_eq unat_of_nat take_bit_nat_eq_self)

lemma has_file_iff:
  assumes "unat path_len = k" and "m < 2 ^ 64"
  shows "std_payload_has_file (word_of_nat (k + m)) path_len \<longleftrightarrow> 32 \<le> m"
proof -
  have "word_of_nat (k + m) - ucast path_len = (word_of_nat m :: u64)"
    by (simp add: ucast_of_nat(1) [OF assms(1)])
  then show ?thesis using assms(2)
    by (simp add: std_payload_has_file_def header_sizes word_le_nat_alt unat_of_nat_u64)
qed

lemma file_size_eq:
  assumes "unat path_len = k" and "n < 2 ^ 63"
  shows "get_file_stream_size (word_of_nat (k + 34 + n)) path_len = word_of_nat n"
proof -
  have k: "k < 65536" using assms(1) unat_u16_less [of path_len] by simp
  have r: "ucast path_len + word_of_nat H_HASH_LEN + word_of_nat H_PATH_LEN = (word_of_nat (k + 34) :: u32)"
    by (simp add: ucast_of_nat(2) [OF assms(1)] header_sizes)
  have r': "(ucast (word_of_nat (k + 34) :: u32) :: u64) = word_of_nat (k + 34)"
    by (rule ucast_u32_of_nat) (use k in simp)
  have "\<not> (word_of_nat (k + 34 + n) :: u64) < word_of_nat (k + 34)"
    using k assms(2) by (simp add: word_less_nat_alt unat_of_nat_u64 del: of_nat_add)
  moreover have "(word_of_nat (k + 34 + n) :: u64) - word_of_nat (k + 34) = word_of_nat n" by simp
  ultimately show ?thesis unfolding get_file_stream_size_def r Let_def r' by simp
qed

lemma has_password_iff:
  assumes "unat username_len = k" and "m < 2 ^ 32"
  shows "user_payload_has_password (word_of_nat (4 + k + m)) username_len \<longleftrightarrow> 0 < m"
proof -
  have k: "k < 65536" using assms(1) unat_u16_less [of username_len] by simp
  have r: "word_of_nat (H_USR_ACT_FLAG + H_USR_PERMISSION + H_USERNAME_LEN) + ucast username_len =
      (word_of_nat (4 + k) :: u32)"
    by (simp add: ucast_of_nat(2) [OF assms(1)] header_sizes)
  have r': "(ucast (word_of_nat (4 + k) :: u32) :: u64) = word_of_nat (4 + k)"
    by (rule ucast_u32_of_nat) (use k in simp)
  have "(word_of_nat (4 + k + m) :: u64) \<le> word_of_nat (4 + k) \<longleftrightarrow> m = 0"
    using k assms(2) by (simp add: word_le_nat_alt unat_of_nat_u64 del: of_nat_add)
  then show ?thesis unfolding user_payload_has_password_def r Let_def r' by simp
qed

lemma read_std_arrive:
  assumes "\<And>k. A k" and "std_wf p" and "wp_payload_len w = word_of_nat (length (enc_std p))"
  shows "read_client_std_payload A (w, arrive (enc_std p) @ r) = Inr (OP_SUCCESS, w\<lparr>wp_payload := Std_payload p\<rparr>, r)"
proof -
  obtain c where c: "sp_path p = Some c" "c \<noteq> []" "nul_free c" "unat (sp_path_len p) = length c"
    using assms(2) by (auto simp: std_wf_def sized_def)
  note s = rd_string_arrive [OF assms(1) c(2)] and f = c16.read_field [OF assms(1)]
  show ?thesis
  proof (cases "sp_hash_stream p")
    case None
    then have p: "sp_byte_stream p = None" "sp_byte_stream_len p = 0" using assms(2) by (simp_all add: std_wf_def)
    have len: "wp_payload_len w = word_of_nat (length c + 2)"
      using assms(3) None c by (simp add: enc_std_def c16.length_enc)
    have "\<not> std_payload_has_file (wp_payload_len w) (sp_path_len p)"
      unfolding len using has_file_iff [OF c(4), of 2] by simp
    then show ?thesis using None p c
      by (simp add: read_client_std_payload_def enc_std_def assms(1) header_sizes zero_std_def f s
          read_std_file_def enc_ntoh)
  next
    case (Some h)
    define bs where "bs = (case sp_byte_stream p of None \<Rightarrow> [] | Some bs \<Rightarrow> bs)"
    have h: "length h = 32" using assms(2) Some by (simp add: std_wf_def header_sizes)
    have bs: "unat (sp_byte_stream_len p) = length bs" "length bs < 2 ^ 63"
      "sp_byte_stream p = (if bs = [] then None else Some bs)"
      using assms(2) Some by (auto simp: std_wf_def bs_def split: option.splits)
    have n: "word_of_nat (length bs) = sp_byte_stream_len p" by (simp flip: bs(1))
    have enc: "enc_std p = enc16 (sp_path_len p) @ str_bytes c @ h @ bs"
      using Some c by (simp add: enc_std_def bs_def)
    have len: "wp_payload_len w = word_of_nat (length c + 34 + length bs)"
      using assms(3) h by (simp add: enc c16.length_enc)
    have has: "std_payload_has_file (wp_payload_len w) (sp_path_len p)"
      unfolding len using has_file_iff [OF c(4), of "34 + length bs"] bs(2) by (simp add: add.assoc)
    have size: "get_file_stream_size (wp_payload_len w) (sp_path_len p) = sp_byte_stream_len p"
      unfolding len file_size_eq [OF c(4) bs(2)] n ..
    note b = rd_bytes_arrive [OF assms(1)]
    show ?thesis using Some c has size h bs
      by (cases "h = []")
        (simp_all add: read_client_std_payload_def enc assms(1) header_sizes zero_std_def f s b
          read_std_file_def enc_ntoh)
  qed
qed

lemma read_user_arrive:
  assumes "\<And>k. A k" and "user_wf p" and "wp_payload_len w = word_of_nat (length (enc_user p))"
  shows "read_client_user_payload A (w, arrive (enc_user p) @ r) =
    Inr (OP_SUCCESS, w\<lparr>wp_type := USER_PAYLOAD, wp_payload := User_payload p\<rparr>, r)"
proof -
  obtain c where c: "up_username p = Some c" "c \<noteq> []" "nul_free c" "unat (up_username_len p) = length c"
    using assms(2) by (auto simp: user_wf_def sized_def)
  have e: "enum_of (enc8 (up_user_flag p)) = up_user_flag p" "enum_of (enc8 (up_user_perm p)) = up_user_perm p"
    using assms(2) by (simp_all add: user_wf_def enum_round_trip)
  note s = rd_string_arrive [OF assms(1)] and f = c16.read_field [OF assms(1)] rd_field_arrive [OF assms(1)]
  show ?thesis
  proof (cases "up_passwd p")
    case None
    then have p: "up_passwd_len p = 0" using assms(2) by (simp add: user_wf_def)
    have len: "wp_payload_len w = word_of_nat (4 + length c + 0)"
      using assms(3) None c by (simp add: enc_user_def c16.length_enc)
    have "\<not> user_payload_has_password (wp_payload_len w) (up_username_len p)"
      unfolding len using has_password_iff [OF c(4), of 0] by simp
    then show ?thesis using None p c
      by (simp add: read_client_user_payload_def enc_user_def assms(1) header_sizes zero_user_def f s e
          read_user_password_def enc_ntoh)
  next
    case (Some pw)
    then have p: "pw \<noteq> []" "nul_free pw" "unat (up_passwd_len p) = length pw"
      using assms(2) by (auto simp: user_wf_def sized_def)
    have "length pw < 65536" using p(3) unat_u16_less [of "up_passwd_len p"] by simp
    then have small: "2 + length pw < 2 ^ 32" by simp
    have len: "wp_payload_len w = word_of_nat (4 + length c + (2 + length pw))"
      using assms(3) Some c by (simp add: enc_user_def c16.length_enc)
    have "user_payload_has_password (wp_payload_len w) (up_username_len p)"
      unfolding len using has_password_iff [OF c(4) small] by simp
    then show ?thesis using Some p c
      by (simp add: read_client_user_payload_def enc_user_def assms(1) header_sizes zero_user_def f s e
          read_user_password_def enc_ntoh)
  qed
qed

lemma read_request_arrive:
  assumes "\<And>k. A k" and "request_wf w"
  shows "read_client_req A ws (arrive (enc_request w) @ r) out = Inr (OP_SUCCESS, w, [], out)"
proof -
  define w0 where "w0 = w\<lparr>wp_type := NO_PAYLOAD, wp_payload := Null_payload\<rparr>"
  have h: "read_header A (zero_wire, arrive (enc_request w) @ r) =
      Inr (OP_SUCCESS, w0, arrive (enc_payload (wp_payload w)) @ r)"
    unfolding w0_def by (rule read_header_arrive [OF assms])
  have len: "wp_payload_len w0 = word_of_nat (length (enc_payload (wp_payload w)))"
    and op: "wp_opt_code w0 = wp_opt_code w"
    using assms(2) by (simp_all add: request_wf_def w0_def)
  have "read_payload A (w0, arrive (enc_payload (wp_payload w)) @ r) = Inr (OP_SUCCESS, w, r)"
  proof (cases "wp_payload w")
    case Null_payload
    then have "wp_opt_code w = ACT_LOCAL_OPERATION" "wp_type w = NO_PAYLOAD"
      using assms(2) by (simp_all add: request_wf_def)
    then show ?thesis using Null_payload op
      by (simp add: read_payload_def enc_payload_def arrive_def act_codes) (simp add: w0_def)
  next
    case (Std_payload p)
    then have *: "wp_opt_code w \<noteq> ACT_LOCAL_OPERATION" "wp_opt_code w \<noteq> ACT_USER_OPERATION" "std_wf p"
      "wp_type w = NO_PAYLOAD"
      using assms(2) by (simp_all add: request_wf_def)
    have w: "w0\<lparr>wp_payload := Std_payload p\<rparr> = w" using Std_payload *(4) by (simp add: w0_def)
    have "read_client_std_payload A (w0, arrive (enc_std p) @ r) = Inr (OP_SUCCESS, w, r)"
      using read_std_arrive [where A = A and w = w0 and r = r, OF assms(1) *(3)] len Std_payload unfolding w by (simp add: enc_payload_def)
    then show ?thesis using * op Std_payload by (simp add: read_payload_def enc_payload_def)
  next
    case (User_payload p)
    then have *: "wp_opt_code w = ACT_USER_OPERATION" "user_wf p" "wp_type w = USER_PAYLOAD"
      using assms(2) by (simp_all add: request_wf_def)
    have w: "w0\<lparr>wp_type := USER_PAYLOAD, wp_payload := User_payload p\<rparr> = w"
      using User_payload *(3) by (simp add: w0_def)
    have "read_client_user_payload A (w0, arrive (enc_user p) @ r) = Inr (OP_SUCCESS, w, r)"
      using read_user_arrive [where A = A and w = w0 and r = r, OF assms(1) *(2)] len User_payload unfolding w by (simp add: enc_payload_def)
    then show ?thesis using * op User_payload by (simp add: read_payload_def enc_payload_def)
  qed
  then show ?thesis using h by (simp add: read_client_req_def)
qed

section \<open>What a successful read leaves\<close>

lemma read_loop_code: "fst (read_loop n acc inp) = Inl e \<Longrightarrow> e \<noteq> OP_SUCCESS"
  by (induction n acc inp rule: read_loop.induct) auto

lemma read_stream_code: "read_stream A n inp = (Inl e, inp') \<Longrightarrow> e \<noteq> OP_SUCCESS"
  using read_loop_code [of n "[]" inp e] by (auto simp: read_stream_def split: if_splits)

lemma rd_field_success:
  assumes "rd_field A n store (w, inp) = Inr (OP_SUCCESS, w', inp')"
  shows "\<exists>bs. w' = store bs w"
  using assms read_stream_code [of A n inp]
  by (cases "read_stream A n inp") (auto simp: rd_field_def split: sum.splits)

lemma rd_array_success:
  assumes "rd_array A len mk store (w, inp) = Inr (OP_SUCCESS, w', inp')"
  shows "\<exists>a. w' = store a w \<and> (mk \<longrightarrow> a \<noteq> None)"
proof -
  obtain r inp1 where m: "make_byte_array A (len w) mk inp = Inr (r, inp1)"
    using assms by (cases "make_byte_array A (len w) mk inp") (auto simp: rd_array_def)
  have code: "r = Inl e \<Longrightarrow> e \<noteq> OP_SUCCESS" for e
    using m read_stream_code [of A "len w" inp]
    by (cases "read_stream A (len w) inp") (auto simp: make_byte_array_def split: if_splits sum.splits)
  obtain a where a: "r = Inr a" "w' = store a w"
    using assms m code by (cases r) (auto simp: rd_array_def)
  have "mk \<longrightarrow> a \<noteq> None"
    using m a(1) by (cases "read_stream A (len w) inp") (auto simp: make_byte_array_def split: if_splits sum.splits)
  then show ?thesis using a by blast
qed

lemma reads_success:
  "reads (f # fs) (w, inp) = Inr (OP_SUCCESS, w', inp') \<longleftrightarrow>
    (\<exists>w1 inp1. f (w, inp) = Inr (OP_SUCCESS, w1, inp1) \<and> reads fs (w1, inp1) = Inr (OP_SUCCESS, w', inp'))"
  by (auto simp: rbind_eq_Inr_iff)

lemma reads_Nil_success: "reads [] (w, inp) = Inr (OP_SUCCESS, w', inp') \<longleftrightarrow> w' = w \<and> inp' = inp"
  by auto

text \<open>The union holds the member that belongs to the operation, and the credentials are set.\<close>

definition request_typed :: "wire_payload_t \<Rightarrow> bool" where
  "request_typed w \<longleftrightarrow> wp_username w \<noteq> None \<and> wp_passwd w \<noteq> None \<and>
    (case wp_payload w of
       Null_payload \<Rightarrow> wp_opt_code w = ACT_LOCAL_OPERATION
     | User_payload p \<Rightarrow> wp_opt_code w = ACT_USER_OPERATION \<and> up_username p \<noteq> None
     | Std_payload p \<Rightarrow> wp_opt_code w \<noteq> ACT_LOCAL_OPERATION \<and> wp_opt_code w \<noteq> ACT_USER_OPERATION \<and>
         sp_path p \<noteq> None)"

lemma read_header_success:
  assumes "read_header A (zero_wire, inp) = Inr (OP_SUCCESS, w, inp')"
  shows "wp_username w \<noteq> None \<and> wp_passwd w \<noteq> None \<and> wp_payload w = Null_payload \<and> wp_type w = NO_PAYLOAD"
  using assms unfolding read_header_def reads_success reads_Nil_success
  by (auto simp: zero_wire_def dest!: rd_field_success rd_array_success)

lemma read_std_success:
  assumes "read_client_std_payload A (w, inp) = Inr (OP_SUCCESS, w', inp')"
  shows "\<exists>p. w' = w\<lparr>wp_payload := Std_payload p\<rparr> \<and> sp_path p \<noteq> None"
proof -
  obtain p where p: "w' = w\<lparr>wp_payload := Std_payload p\<rparr>"
    and r: "reads [rd_field A H_PATH_LEN (\<lambda>bs p. p\<lparr>sp_path_len := htons True (load_mem True bs)\<rparr>),
        rd_array A (\<lambda>p. unat (sp_path_len p)) True (\<lambda>a p. p\<lparr>sp_path := map_option cstr a\<rparr>),
        read_std_file A (wp_payload_len w)] (zero_std, inp) = Inr (OP_SUCCESS, p, inp')"
    using assms by (auto simp: read_client_std_payload_def rbind_eq_Inr_iff split: if_splits simp del: reads.simps)
  have keep: "sp_path q' = sp_path q"
    if "read_std_file A n (q, i) = Inr (OP_SUCCESS, q', i')" for n q q' i i'
    using that unfolding read_std_file_def prod.case
    by (cases "std_payload_has_file n (sp_path_len q)")
      (auto simp del: reads.simps simp: reads_success reads_Nil_success dest!: rd_array_success)
  show ?thesis using p r unfolding reads_success reads_Nil_success
    by (auto dest!: rd_field_success rd_array_success keep)
qed

lemma read_user_success:
  assumes "read_client_user_payload A (w, inp) = Inr (OP_SUCCESS, w', inp')"
  shows "\<exists>p. w' = w\<lparr>wp_type := USER_PAYLOAD, wp_payload := User_payload p\<rparr> \<and> up_username p \<noteq> None"
proof -
  obtain p where p: "w' = w\<lparr>wp_type := USER_PAYLOAD, wp_payload := User_payload p\<rparr>"
    and r: "reads [rd_field A H_USR_ACT_FLAG (\<lambda>bs p. p\<lparr>up_user_flag := enum_of bs\<rparr>),
        rd_field A H_USR_PERMISSION (\<lambda>bs p. p\<lparr>up_user_perm := enum_of bs\<rparr>),
        rd_field A H_USERNAME_LEN (\<lambda>bs p. p\<lparr>up_username_len := ntohs True (load_mem True bs)\<rparr>),
        rd_array A (\<lambda>p. unat (up_username_len p)) True (\<lambda>a p. p\<lparr>up_username := map_option cstr a\<rparr>),
        read_user_password A (wp_payload_len w)] (zero_user, inp) = Inr (OP_SUCCESS, p, inp')"
    using assms
    by (auto simp: read_client_user_payload_def rbind_eq_Inr_iff Let_def split: if_splits simp del: reads.simps)
  have keep: "up_username q' = up_username q"
    if "read_user_password A n (q, i) = Inr (OP_SUCCESS, q', i')" for n q q' i i'
    using that unfolding read_user_password_def prod.case
    by (cases "user_payload_has_password n (up_username_len q)")
      (auto simp del: reads.simps simp: reads_success reads_Nil_success dest!: rd_array_success rd_field_success)
  show ?thesis using p r unfolding reads_success reads_Nil_success
    by (auto dest!: rd_field_success rd_array_success keep)
qed

lemma read_request_shape:
  assumes "read_client_req A ws inp out = Inr (OP_SUCCESS, w, pkts, out')"
  shows "request_typed w \<and> wp_type w = (case wp_payload w of User_payload p \<Rightarrow> USER_PAYLOAD | _ \<Rightarrow> NO_PAYLOAD)"
proof -
  have "\<exists>inp'. reads [read_header A, read_payload A] (zero_wire, inp) = Inr (OP_SUCCESS, w, inp')"
    using assms by (auto simp: read_client_req_def rbind_eq_Inr_iff simp del: reads.simps split: if_splits)
  then obtain w1 inp1 inp' where h: "read_header A (zero_wire, inp) = Inr (OP_SUCCESS, w1, inp1)"
    and p: "read_payload A (w1, inp1) = Inr (OP_SUCCESS, w, inp')"
    unfolding reads_success reads_Nil_success by blast
  note w1 = read_header_success [OF h]
  show ?thesis
  proof (cases "wp_opt_code w1 = ACT_USER_OPERATION")
    case True
    then have "read_client_user_payload A (w1, inp1) = Inr (OP_SUCCESS, w, inp')"
      using p by (simp add: read_payload_def)
    then show ?thesis using read_user_success w1 True by (fastforce simp: request_typed_def)
  next
    case False
    show ?thesis
    proof (cases "wp_opt_code w1 = ACT_LOCAL_OPERATION")
      case True
      then show ?thesis using p w1 False by (auto simp: read_payload_def request_typed_def)
    next
      case f: False
      then have "read_client_std_payload A (w1, inp1) = Inr (OP_SUCCESS, w, inp')"
        using p False by (simp add: read_payload_def)
      then show ?thesis using read_std_success w1 False f by (fastforce simp: request_typed_def)
    qed
  qed
qed

lemmas read_request_typed = conjunct1 [OF read_request_shape]

section \<open>Sending\<close>

lemma send_loop_spec:
  "send_loop p stream ws = (ok, pkts, ws') \<Longrightarrow>
    (\<forall>k \<in> set pkts. length k \<le> max_send p) \<and> (\<exists>rest. stream = concat pkts @ rest \<and> (ok \<longrightarrow> rest = [])) \<and>
    (ws = [] \<longrightarrow> ok \<and> ws' = [])"
proof (induction p stream ws arbitrary: ok pkts ws' rule: send_loop.induct)
  case (1 p stream ws)
  let ?n = "min (length stream) (max_send p)"
  show ?case
  proof (cases ws)
    case Nil
    show ?thesis
    proof (cases "?n = length stream")
      case True
      then have "ok" "pkts = [stream]" "ws' = []"
        using "1.prems" Nil by (subst (asm) (1) send_loop.simps, simp add: Let_def)+
      then show ?thesis using True by simp
    next
      case False
      obtain ok1 pkts1 ws1 where r: "send_loop p (drop ?n stream) [] = (ok1, pkts1, ws1)" by (metis prod_cases3)
      have e: "ok = ok1" "pkts = take ?n stream # pkts1" "ws' = ws1"
        using "1.prems" Nil False r by (subst (asm) (1) send_loop.simps, simp add: Let_def)+
      have "drop ?n stream = concat pkts1 @ rest \<Longrightarrow> stream = concat pkts @ rest" for rest
        using append_take_drop_id [of ?n stream] unfolding e by (simp only: concat.simps append_assoc)
      moreover have "length (take ?n stream) \<le> max_send p" by simp
      ultimately show ?thesis using "1.IH"(1) [OF refl Nil False r] Nil e(1, 3) unfolding e(2)
        by (metis set_ConsD)
    qed
  next
    case (Cons x xs)
    show ?thesis
    proof (cases x)
      case Wr_failed
      then have "\<not> ok" "pkts = []"
        using "1.prems" Cons by (subst (asm) (1) send_loop.simps, simp add: Let_def)+
      then show ?thesis using Cons by simp
    next
      case (Wr_sent k)
      let ?s = "min k ?n"
      show ?thesis
      proof (cases "?s = length stream")
        case True
        then have "ok" "pkts = [take ?s stream]"
          using "1.prems" Cons Wr_sent by (subst (asm) (1) send_loop.simps, simp add: Let_def)+
        then show ?thesis using True Cons by simp
      next
        case False
        obtain ok1 pkts1 ws1 where r: "send_loop p (drop ?s stream) xs = (ok1, pkts1, ws1)" by (metis prod_cases3)
        have e: "ok = ok1" "pkts = take ?s stream # pkts1"
          using "1.prems" Cons Wr_sent False r by (subst (asm) (1) send_loop.simps, simp add: Let_def)+
        have "drop ?s stream = concat pkts1 @ rest \<Longrightarrow> stream = concat pkts @ rest" for rest
          using append_take_drop_id [of ?s stream] unfolding e by (simp only: concat.simps append_assoc)
        moreover have "length (take ?s stream) \<le> max_send p" by simp
        ultimately show ?thesis using "1.IH"(2) [OF refl Cons Wr_sent refl False r] Cons e(1) unfolding e(2)
          by (metis list.distinct(1) set_ConsD)
      qed
    qed
  qed
qed

section \<open>Reading a response back\<close>

text \<open>What a client takes out of the bytes of a response: the code, the session, the message, the data.\<close>

definition dec_response :: "bytes \<Rightarrow> (u8 \<times> u32 \<times> string \<times> bytes) option" where
  "dec_response bs =
    (if length bs < get_base_resp_size then None
     else
       (let payload_len = unat (dec64 (take 8 (drop 6 bs)));
            msg_len = unat (bs ! 14);
            payload = drop 15 bs
        in if payload_len \<noteq> length payload + 1 \<or> length payload < msg_len then None
           else Some (hd bs, dec32 (take 4 (drop 2 bs)), map chr_of (take msg_len payload), drop msg_len payload)))"

lemma msg_short: "length (get_err_msg c) < 256"
  by (cases c) (simp_all add: OP_1_def OP_2_def OP_3_def OP_4_def OP_5_def OP_6_def OP_7_def OP_8_def OP_9_def
      OP_10_def OP_11_def OP_12_def OP_13_def OP_14_def OP_15_def OP_16_def OP_254_def OP_255_def)

lemma ret_code_short: "ret_code c < 256"
  by (cases c) simp_all

lemma low_byte: "0 < n \<Longrightarrow> take 1 (mem_of True n w) = [mem_byte 0 w]"
  by (cases n) (simp_all add: mem_of_def upt_rec del: upt_Suc)

lemma low_byte_of_nat:
  "k < 256 \<Longrightarrow> (mem_byte 0 (word_of_nat k :: u32) :: u8) = word_of_nat k"
  "k < 256 \<Longrightarrow> (mem_byte 0 (word_of_nat k :: u64) :: u8) = word_of_nat k"
  by (simp_all add: word_unat_eq_iff unat_mem_byte unat_of_nat take_bit_nat_eq_self)

text \<open>A response with its message set, over content that is what it claims to be.\<close>

definition resp_ok :: "act_resp_t \<Rightarrow> bool" where
  "resp_ok p_resp \<longleftrightarrow> resp_msg p_resp = Some (get_err_msg (resp_result p_resp)) \<and>
    (case resp_content p_resp of None \<Rightarrow> True
     | Some c \<Rightarrow> hash_ok (fc_hash c) \<and> fc_stream_size c = length (fc_stream c) \<and>
         h_size (fc_hash c) + fc_stream_size c < 2 ^ 63)"

definition resp_data :: "act_resp_t \<Rightarrow> bytes" where
  "resp_data p_resp = (case resp_content p_resp of None \<Rightarrow> [] | Some c \<Rightarrow> h_array (fc_hash c) @ fc_stream c)"

lemma response_bytes_ok:
  assumes "resp_ok r"
  shows "response_bytes sid r =
    Inr ([word_of_nat (ret_code (resp_result r)), 0] @ enc32 sid @
         enc64 (word_of_nat (length (get_err_msg (resp_result r)) + 1 + length (resp_data r))) @
         [word_of_nat (length (get_err_msg (resp_result r)))] @ str_bytes (get_err_msg (resp_result r)),
       resp_data r)"
proof -
  have d: "(case resp_content r of None \<Rightarrow> Inr [] | Some c \<Rightarrow> content_bytes c) = Inr (resp_data r)"
    using assms by (auto simp: resp_ok_def resp_data_def content_bytes_def hash_ok_def split: option.splits)
  have m: "resp_msg r = Some (get_err_msg (resp_result r))" using assms by (simp add: resp_ok_def)
  have b: "take (Suc 0) (mem_of True 4 (word_of_nat (ret_code (resp_result r)) :: u32)) =
      [word_of_nat (ret_code (resp_result r))]"
    "take (Suc 0) (mem_of True 8 (word_of_nat (length (get_err_msg (resp_result r))) :: u64)) =
      [word_of_nat (length (get_err_msg (resp_result r)))]"
    using low_byte [of 4 "word_of_nat (ret_code (resp_result r)) :: u32"]
      low_byte [of 8 "word_of_nat (length (get_err_msg (resp_result r))) :: u64"]
      low_byte_of_nat(1) [OF ret_code_short] low_byte_of_nat(2) [OF msg_short]
    by simp_all
  show ?thesis
    unfolding response_bytes_def m option.case d rbind_Inr Let_def header_sizes
    by (simp add: b enc32_def enc64_def)
qed

lemma dec_response_bytes:
  assumes "resp_ok r" and "response_bytes sid r = Inr (head, data)"
  shows "dec_response (head @ data) =
      Some (word_of_nat (ret_code (resp_result r)), sid, get_err_msg (resp_result r), resp_data r)"
    and "data = resp_data r"
proof -
  let ?m = "get_err_msg (resp_result r)" and ?d = "resp_data r"
  let ?n = "word_of_nat (length ?m + 1 + length ?d) :: u64"
  have hd: "head = [word_of_nat (ret_code (resp_result r)), 0] @ enc32 sid @ enc64 ?n @ [word_of_nat (length ?m)] @ str_bytes ?m"
    and data: "data = ?d"
    using assms(2) unfolding response_bytes_ok [OF assms(1)] sum.inject prod.inject by blast+
  show "data = ?d" by (rule data)
  have "length ?d < 2 ^ 63 "
    using assms(1) by (auto simp: resp_ok_def resp_data_def hash_ok_def split: option.splits)
  then have n: "unat ?n = length ?m + 1 + length ?d"
    using msg_short [of "resp_result r"] by (intro unat_of_nat_u64) simp
  have k: "unat (word_of_nat (length ?m) :: u8) = length ?m"
    using msg_short [of "resp_result r"] by (simp add: unat_of_nat take_bit_nat_eq_self)
  define bs where "bs = head @ data"
  have bs: "bs = [word_of_nat (ret_code (resp_result r)), 0] @ enc32 sid @ enc64 ?n @ word_of_nat (length ?m) # str_bytes ?m @ ?d"
    by (simp add: bs_def hd data)
  have l: "length (enc32 sid) = 4" "length (enc64 ?n) = 8" by (rule c32.length_enc, rule c64.length_enc)
  have "hd bs = word_of_nat (ret_code (resp_result r))" by (simp add: bs)
  moreover have "take 4 (drop 2 bs) = enc32 sid" using l by (simp add: bs)
  moreover have "unat (dec64 (take 8 (drop 6 bs))) = length ?m + 1 + length ?d"
  proof -
    have "take 8 (drop 6 bs) = enc64 ?n" using l by (simp add: bs)
    then show ?thesis by (simp only: c64.dec_enc n)
  qed
  moreover have "bs ! 14 = word_of_nat (length ?m)" using l by (simp add: bs nth_append)
  moreover have "drop 15 bs = str_bytes ?m @ ?d" using l by (simp add: bs)
  moreover have "\<not> length bs < get_base_resp_size"
    using l by (simp add: bs get_base_resp_size_def header_sizes)
  ultimately show "dec_response (head @ data) = Some (word_of_nat (ret_code (resp_result r)), sid, ?m, ?d)"
    unfolding bs_def [symmetric] dec_response_def
    by (simp add: c32.dec_enc k Let_def)
qed

section \<open>The responses of the controller\<close>

definition content_ok :: "('u, 's) lib \<Rightarrow> file_content_t \<Rightarrow> bool" where
  "content_ok L c \<longleftrightarrow> fc_hash c = \<lparr>h_size = SHA256_DIGEST_LENGTH, h_array = digest L (fc_stream c)\<rparr> \<and>
     fc_stream_size c = length (fc_stream c)"

definition resp_made :: "('u, 's) lib \<Rightarrow> act_resp_t \<Rightarrow> bool" where
  "resp_made L r \<longleftrightarrow> resp_msg r = Some (get_err_msg (resp_result r)) \<and>
     (case resp_content r of None \<Rightarrow> True | Some c \<Rightarrow> content_ok L c)"

lemma read_content:
  "f_read_file (lib_sha256 L) F pp = Inr (Some c, code) \<Longrightarrow> content_ok L c"
  by (auto simp: f_read_file_def content_ok_def digest_def hash_byte_array_def Let_def
      split: option.splits sum.splits node.splits prod.splits if_splits)

lemma list_content:
  "f_list_dir (lib_sha256 L) F pp = Inr (Some c, code) \<Longrightarrow> content_ok L c"
  by (auto simp: f_list_dir_def content_ok_def digest_def hash_byte_array_def Let_def rbind_eq_Inr_iff
      split: option.splits sum.splits node.splits prod.splits if_splits)

lemma set_resp_made [simp]: "resp_made L (set_resp code)"
  by (simp add: resp_made_def set_resp_def)

lemma content_resp_made: "content_ok L c \<Longrightarrow> resp_made L (set_resp code\<lparr>resp_content := Some c\<rparr>)"
  by (simp add: resp_made_def set_resp_def)

lemma do_get_file_made: "do_get_file L S req = Inr resp \<Longrightarrow> resp_made L resp"
  by (auto simp: do_get_file_def rbind_eq_Inr_iff intro!: content_resp_made dest!: read_content
      split: if_splits option.splits)

lemma do_list_dir_made: "do_list_dir L S req = Inr resp \<Longrightarrow> resp_made L resp"
  by (auto simp: do_list_dir_def rbind_eq_Inr_iff intro!: content_resp_made dest!: list_content
      split: if_splits option.splits)

lemma fs_result_made: "fs_result S r = Inr (resp, S') \<Longrightarrow> resp_made L resp"
  using fs_result_effect by fastforce

lemma db_result_made: "db_result S r = Inr (resp, S') \<Longrightarrow> resp_made L resp"
  using db_result_effect by fastforce

lemma dispatch_made: "dispatch L S u req = Inr (resp, S') \<Longrightarrow> resp_made L resp"
  unfolding dispatch_def Let_def
  by (auto simp: rbind_eq_Inr_iff intro: fs_result_made db_result_made do_get_file_made do_list_dir_made
      split: if_splits)

lemma ctrl_request_made: "ctrl_request L E S req = Inr (resp, req', S') \<Longrightarrow> resp_made L resp"
  by (auto simp: ctrl_request_def rbind_eq_Inr_iff Let_def split: if_splits option.splits dest!: dispatch_made)

lemma resp_made_ok:
  assumes "lib_ok L" and "resp_made L r" and "length (resp_data r) < 2 ^ 63"
  shows "resp_ok r"
  using assms length_digest [OF assms(1)]
  by (auto simp: resp_made_def resp_ok_def content_ok_def hash_ok_def resp_data_def SHA256_DIGEST_LENGTH_def
      split: option.splits)

section \<open>Whole packets\<close>

lemma write_response_sends:
  assumes "\<And>k. A k" and "resp_ok r"
  shows "\<exists>pkts. write_response A sid (Some r) [] = Inr (pkts, []) \<and>
    dec_response (concat pkts) =
      Some (word_of_nat (ret_code (resp_result r)), sid, get_err_msg (resp_result r), resp_data r)"
proof -
  obtain head where rb: "response_bytes sid r = Inr (head, resp_data r)"
    using response_bytes_ok [OF assms(2)] by blast
  note d = dec_response_bytes(1) [OF assms(2) rb]
  obtain ok p1 ws1 where m: "send_loop Msg_part head [] = (ok, p1, ws1)" by (metis prod_cases3)
  obtain ok2 p2 ws2 where f: "send_loop File_part (resp_data r) [] = (ok2, p2, ws2)" by (metis prod_cases3)
  have "ok" "ws1 = []" "concat p1 = head" using send_loop_spec [OF m] by auto
  moreover have "ws2 = []" "concat p2 = resp_data r" using send_loop_spec [OF f] by auto
  ultimately show ?thesis using d m f
    by (cases "resp_data r = []") (simp_all add: write_response_def rb assms(1))
qed

lemma write_response_packets:
  assumes "write_response A sid (Some r) ws = Inr (pkts, ws')"
  shows "\<forall>k \<in> set pkts. length k \<le> MAX_MSG_SIZE"
proof -
  obtain head data where rb: "response_bytes sid r = Inr (head, data)"
    using assms by (cases "response_bytes sid r") (auto simp: write_response_def)
  obtain ok p1 ws1 where m: "send_loop Msg_part head ws = (ok, p1, ws1)" by (metis prod_cases3)
  obtain ok2 p2 ws2 where f: "send_loop File_part data ws1 = (ok2, p2, ws2)" by (metis prod_cases3)
  have 1: "\<forall>k \<in> set p1. length k \<le> MAX_MSG_SIZE" using send_loop_spec [OF m] by simp
  have "\<forall>k \<in> set p2. length k \<le> MAX_FILE_SIZE" using send_loop_spec [OF f] by simp
  then have "\<forall>k \<in> set p2. length k \<le> MAX_MSG_SIZE" by (fastforce simp: MAX_MSG_SIZE_def MAX_FILE_SIZE_def)
  with 1 show ?thesis using assms by (auto simp: write_response_def rb m f split: if_splits)
qed

lemma serve_client_eq:
  assumes "\<And>k. A k" and "request_wf w"
  shows "serve_client L E A S \<lparr>cn_sockopt = True, cn_in = arrive (enc_request w) @ r, cn_writes = ws\<rparr> =
    rbind (ctrl_request L E S w) (\<lambda>(resp, w', S').
    rbind (write_response A (wp_session_id w') (Some resp) ws) (\<lambda>(pkts, _). Inr (pkts, S')))"
  by (cases "ctrl_request L E S w")
    (auto simp: serve_client_def read_request_arrive [OF assms] assms(1) ctrl_parse_action_def)

section \<open>Connections\<close>

lemma serve_client_changes:
  assumes "lib_ok L" and "db_inv L (sv_db S)" and "serve_client L E A S c = Inr (out, S')"
    and "sv_fs S' \<noteq> sv_fs S \<or> accounts_of L S' \<noteq> accounts_of L S"
  obtains w ws where "read_client_req A 0 (cn_in c) (cn_writes c) = Inr (OP_SUCCESS, w, [], ws)"
    and "\<exists>resp w'. ctrl_request L E S w = Inr (resp, w', S')"
proof -
  have n: "cn_sockopt c" "A sizeof_wire" using assms(3, 4) by (auto simp: serve_client_def split: if_splits)
  obtain result w pkts ws where r: "read_client_req A 0 (cn_in c) (cn_writes c) = Inr (result, w, pkts, ws)"
    using assms(3) n by (cases "read_client_req A 0 (cn_in c) (cn_writes c)") (auto simp: serve_client_def)
  have res: "result = OP_SUCCESS"
  proof (rule ccontr)
    assume "result \<noteq> OP_SUCCESS"
    then have "sv_fs S' = sv_fs S" "accounts_of L S' = accounts_of L S"
      using assms(3) n r by (auto simp: serve_client_def accounts_of_def db_users_def)
    then show False using assms(4) by simp
  qed
  then have "pkts = []" using r by (auto simp: read_client_req_def rbind_eq_Inr_iff simp del: reads.simps split: if_splits)
  moreover have "\<exists>resp w'. ctrl_request L E S w = Inr (resp, w', S')"
    using assms(3) n r res
    by (cases "ctrl_request L E S w") (auto simp: serve_client_def ctrl_parse_action_def rbind_eq_Inr_iff)
  ultimately show thesis using that r res by blast
qed

text \<open>A request that arrives whole is handed to the controller, and its response is sent.\<close>

lemma serve_client_answers:
  assumes "lib_ok L" and "request_wf w" and "ctrl_request L E S w = Inr (resp, w', S')"
    and "length (resp_data resp) < 2 ^ 63"
  shows "\<exists>pkts. serve_client L E (\<lambda>_. True) S
      \<lparr>cn_sockopt = True, cn_in = arrive (enc_request w) @ r, cn_writes = []\<rparr> = Inr (pkts, S') \<and>
    dec_response (concat pkts) =
      Some (word_of_nat (ret_code (resp_result resp)), wp_session_id w', get_err_msg (resp_result resp), resp_data resp)"
proof -
  have ok: "resp_ok resp" by (rule resp_made_ok [OF assms(1) ctrl_request_made [OF assms(3)] assms(4)])
  show ?thesis
    using write_response_sends [where A = "\<lambda>_. True" and sid = "wp_session_id w'", OF TrueI ok]
    unfolding serve_client_eq [where A = "\<lambda>_. True", OF TrueI assms(2)] assms(3) by auto
qed

section \<open>Properties\<close>

text \<open>Alice asks for the file \<^verbatim>\<open>a\<close> in session 7.\<close>

definition sample_get :: wire_payload_t where
  "sample_get = sample_req ''alice'' ''secret'' 7 ACT_GET_REMOTE_FILE (sample_path ''a'')"

lemma sample_get_wf: "request_wf sample_get" "request_wf sample_delete"
  by (simp_all add: request_wf_def sample_get_def sample_delete_def sample_path_def sample_req_def sized_def std_wf_def act_codes enc_payload_def enc_std_def
      c16.length_enc)

text \<open>Property C37: what a client sends is what the server reads.\<close>

theorem request_round_trip:
  assumes "request_wf w"
  shows "read_client_req (\<lambda>_. True) sid (arrive (enc_request w) @ r) ws = Inr (OP_SUCCESS, w, [], ws)"
  by (rule read_request_arrive [OF TrueI assms])

theorem request_round_trip_witness:
  "read_client_req (\<lambda>_. True) 0 (arrive (enc_request sample_get)) [] = Inr (OP_SUCCESS, sample_get, [], [])"
  using request_round_trip [OF sample_get_wf(1), of 0 "[]" "[]"] by simp

text \<open>What the server sends is what a client reads.\<close>

theorem response_round_trip:
  assumes "lib_ok L" and "ctrl_request L E S req = Inr (resp, req', S')"
    and "length (resp_data resp) < 2 ^ 63"
  shows "\<exists>pkts. write_response (\<lambda>_. True) sid (Some resp) [] = Inr (pkts, []) \<and>
    dec_response (concat pkts) =
      Some (word_of_nat (ret_code (resp_result resp)), sid, get_err_msg (resp_result resp), resp_data resp)"
  by (rule write_response_sends [OF TrueI resp_made_ok [OF assms(1) ctrl_request_made [OF assms(2)] assms(3)]])

theorem response_round_trip_witness:
  "\<exists>pkts. write_response (\<lambda>_. True) 7 (Some (set_resp OP_SUCCESS)) [] = Inr (pkts, []) \<and>
    dec_response (concat pkts) = Some (1, 7, ''Server action was successful'', [])"
  using response_round_trip [OF sample_lib_ok sample_local, of 7]
  by (simp add: set_resp_def resp_data_def OP_1_def)

text \<open>Property C39: packets keep their size limit and their order, however the writes turn out.\<close>

theorem packets_bounded:
  assumes "write_response A sid (Some r) ws = Inr (pkts, ws')"
  shows "(\<forall>k \<in> set pkts. length k \<le> 2048) \<and>
    (\<exists>head data. response_bytes sid r = Inr (head, data) \<and> prefix (concat pkts) (head @ data))"
proof -
  obtain head data where rb: "response_bytes sid r = Inr (head, data)"
    using assms by (cases "response_bytes sid r") (auto simp: write_response_def)
  obtain ok p1 ws1 where m: "send_loop Msg_part head ws = (ok, p1, ws1)" by (metis prod_cases3)
  obtain ok2 p2 ws2 where f: "send_loop File_part data ws1 = (ok2, p2, ws2)" by (metis prod_cases3)
  have p: "pkts = [] \<or> pkts = p1 \<or> ok \<and> pkts = p1 @ p2"
    using assms by (auto simp: write_response_def rb m f split: if_splits)
  have "prefix (concat p1) head" "ok \<longrightarrow> concat p1 = head" using send_loop_spec [OF m] by auto
  moreover have "prefix (concat p2) data" using send_loop_spec [OF f] by auto
  ultimately have "prefix (concat pkts) (head @ data)"
    using p by (auto intro: prefix_order.trans same_prefix_prefix [THEN iffD2])
  then show ?thesis using rb write_response_packets [OF assms] by (simp add: MAX_MSG_SIZE_def)
qed

theorem packets_bounded_witness:
  "\<exists>pkts ws'. write_response (\<lambda>_. True) 7 (Some (set_resp OP_FAILURE)) [Wr_sent 10, Wr_failed] = Inr (pkts, ws') \<and>
    (\<forall>k \<in> set pkts. length k \<le> 2048) \<and> pkts \<noteq> []"
proof -
  have ok: "resp_ok (set_resp OP_FAILURE)" by (simp add: resp_ok_def set_resp_def)
  obtain head where rb: "response_bytes 7 (set_resp OP_FAILURE) = Inr (head, [])" and l: "10 < length head"
    using response_bytes_ok [OF ok, of 7] by (simp add: resp_data_def set_resp_def c32.length_enc c64.length_enc)
  have "send_loop Msg_part (drop 10 head) [Wr_failed] = (False, [], [])" by (subst send_loop.simps) simp
  then have "send_loop Msg_part head [Wr_sent 10, Wr_failed] = (False, [take 10 head], [])"
    using l by (subst send_loop.simps) (simp add: Let_def MAX_MSG_SIZE_def)
  then have "write_response (\<lambda>_. True) 7 (Some (set_resp OP_FAILURE)) [Wr_sent 10, Wr_failed] = Inr ([take 10 head], [])"
    by (simp add: write_response_def rb)
  from packets_bounded [OF this] this show ?thesis by blast
qed

text \<open>Property C38: the request that was read is well typed, so the controller reads the member that is stored.\<close>

theorem read_request_well_typed:
  assumes "read_client_req A ws inp out = Inr (OP_SUCCESS, w, pkts, out')"
  shows "request_typed w \<and>
    (wp_opt_code w = ACT_USER_OPERATION \<longrightarrow> (\<exists>p. p_user_payload (wp_payload w) = Inr p)) \<and>
    (wp_opt_code w \<noteq> ACT_USER_OPERATION \<longrightarrow> wp_opt_code w \<noteq> ACT_LOCAL_OPERATION \<longrightarrow>
      (\<exists>p. p_std_payload (wp_payload w) = Inr p))"
  using read_request_typed [OF assms] by (auto simp: request_typed_def act_codes split: payload_ptr.splits)

theorem read_request_well_typed_witness:
  "request_typed sample_get \<and> (\<exists>p. p_std_payload (wp_payload sample_get) = Inr p)"
proof -
  have "read_client_req (\<lambda>_. True) 0 (arrive (enc_request sample_get) @ []) [] = Inr (OP_SUCCESS, sample_get, [], [])"
    by (rule read_request_arrive [OF TrueI sample_get_wf(1)])
  from read_request_well_typed [OF this] show ?thesis by (simp add: sample_get_def act_codes)
qed

text \<open>Property C2: over a working connection, sending the bytes of a request is the same as calling the
  controller with it, and the bytes that come back are the controller's response.
\<close>

theorem connection_serves_request:
  assumes "lib_ok L" and "request_wf w" and "ctrl_request L E S w = Inr (resp, w', S')"
    and "length (resp_data resp) < 2 ^ 63"
  shows "\<exists>pkts. serve_client L E (\<lambda>_. True) S
      \<lparr>cn_sockopt = True, cn_in = arrive (enc_request w) @ r, cn_writes = []\<rparr> = Inr (pkts, S') \<and>
    dec_response (concat pkts) =
      Some (word_of_nat (ret_code (resp_result resp)), wp_session_id w', get_err_msg (resp_result resp), resp_data resp)"
  by (rule serve_client_answers [OF assms])

theorem connection_serves_request_witness:
  "\<exists>pkts S'. serve_client sample_lib (sample_env 300) (\<lambda>_. True) sample_srv
      \<lparr>cn_sockopt = True, cn_in = arrive (enc_request sample_get) @ [], cn_writes = []\<rparr> = Inr (pkts, S') \<and>
    dec_response (concat pkts) = Some (2, 7, ''Provided Session ID was invalid or expired'', [])"
proof -
  have u: "login sample_lib (accounts_of sample_lib sample_srv) sample_get =
      Some (new_account sample_lib ''alice'' ''secret'' 1)"
    unfolding sample_get_def by (rule sample_login)
  have sid: "wp_session_id sample_get = 7" by (simp add: sample_get_def)
  have nz: "wp_session_id sample_get \<noteq> 0" by (simp add: sid)
  have stale: "case sessions_of sample_lib sample_srv (wp_session_id sample_get) of
      None \<Rightarrow> True | Some t \<Rightarrow> e_now (sample_env 300) - t > e_timeout (sample_env 300)"
    by (simp add: sid sample_srv_sessions sample_env_def)
  obtain S' where c: "ctrl_request sample_lib (sample_env 300) sample_srv sample_get =
      Inr (set_resp OP_SESSION_ERROR, sample_get, S')"
    by (rule request_stale [OF sample_lib_ok sample_srv_inv u nz stale])
  have "length (resp_data (set_resp OP_SESSION_ERROR)) < 2 ^ 63" by (simp add: set_resp_def resp_data_def)
  from connection_serves_request [where r = "[]", OF sample_lib_ok sample_get_wf(1) c this]
  obtain pkts where p: "serve_client sample_lib (sample_env 300) (\<lambda>_. True) sample_srv
      \<lparr>cn_sockopt = True, cn_in = arrive (enc_request sample_get) @ [], cn_writes = []\<rparr> = Inr (pkts, S')"
    and d: "dec_response (concat pkts) = Some (word_of_nat (ret_code (resp_result (set_resp OP_SESSION_ERROR))),
      wp_session_id sample_get, get_err_msg (resp_result (set_resp OP_SESSION_ERROR)),
      resp_data (set_resp OP_SESSION_ERROR))"
    by blast
  have "dec_response (concat pkts) = Some (2, 7, ''Provided Session ID was invalid or expired'', [])"
    unfolding d sid by (simp add: set_resp_def resp_data_def OP_2_def)
  with p show ?thesis by blast
qed

text \<open>Property C1: a connection that changes files or accounts carried valid credentials and permissions.\<close>

theorem connection_changes_need_credentials:
  assumes "lib_ok L" and "db_inv L (sv_db S)" and "serve_client L E A S c = Inr (out, S')"
    and "sv_fs S' \<noteq> sv_fs S \<or> accounts_of L S' \<noteq> accounts_of L S"
  shows "\<exists>w ws u. read_client_req A 0 (cn_in c) (cn_writes c) = Inr (OP_SUCCESS, w, [], ws) \<and>
    login L (accounts_of L S) w = Some u \<and> authorised u w \<and>
    (wp_session_id w = 0 \<or> (\<exists>t. sessions_of L S (wp_session_id w) = Some t \<and> e_now E - t \<le> e_timeout E))"
proof -
  obtain w ws where r: "read_client_req A 0 (cn_in c) (cn_writes c) = Inr (OP_SUCCESS, w, [], ws)"
    and "\<exists>resp w'. ctrl_request L E S w = Inr (resp, w', S')"
    by (rule serve_client_changes [OF assms])
  then show ?thesis using ctrl_request_authorised [OF assms(1, 2) _ assms(4)] by blast
qed

theorem connection_changes_need_credentials_witness:
  "\<exists>pkts S' u. serve_client sample_lib (sample_env 130) (\<lambda>_. True) sample_srv2
      \<lparr>cn_sockopt = True, cn_in = arrive (enc_request sample_delete) @ [], cn_writes = []\<rparr> = Inr (pkts, S') \<and>
    lookup (sv_fs S') [''srv'', ''home'', ''a''] = None \<and>
    login sample_lib (accounts_of sample_lib sample_srv2) sample_delete = Some u \<and> authorised u sample_delete"
proof -
  let ?c = "\<lparr>cn_sockopt = True, cn_in = arrive (enc_request sample_delete) @ [], cn_writes = []\<rparr>"
  obtain S' where c: "ctrl_request sample_lib (sample_env 130) sample_srv2 sample_delete =
      Inr (set_resp OP_SUCCESS, sample_delete, S')"
    and F: "sv_fs S' = del_node [''srv'', ''home'', ''a''] sample_store"
    using sample_delete_runs by blast
  have ok: "resp_ok (set_resp OP_SUCCESS)" by (simp add: resp_ok_def set_resp_def)
  obtain pkts where s: "serve_client sample_lib (sample_env 130) (\<lambda>_. True) sample_srv2 ?c = Inr (pkts, S')"
    using write_response_sends [where A = "\<lambda>_. True" and sid = "wp_session_id sample_delete", OF TrueI ok]
    unfolding serve_client_eq [where A = "\<lambda>_. True", OF TrueI sample_get_wf(2)] c by auto
  have here: "lookup sample_store [''srv'', ''home'', ''a''] \<noteq> None" by code_simp
  have gone: "lookup (sv_fs S') [''srv'', ''home'', ''a''] = None" by (simp add: F)
  then have ch: "sv_fs S' \<noteq> sv_fs sample_srv2 \<or> accounts_of sample_lib S' \<noteq> accounts_of sample_lib sample_srv2"
    using here unfolding sample_srv2_simps(1) by metis
  have r: "read_client_req (\<lambda>_. True) 0 (cn_in ?c) (cn_writes ?c) = Inr (OP_SUCCESS, sample_delete, [], [])"
    using read_request_arrive [where A = "\<lambda>_. True", OF TrueI sample_get_wf(2), of 0 "[]" "[]"] by simp
  obtain u where "login sample_lib (accounts_of sample_lib sample_srv2) sample_delete = Some u" "authorised u sample_delete"
    using connection_changes_need_credentials [OF sample_lib_ok sample_srv2_simps(2) s ch] unfolding r by auto
  then show ?thesis using s gone by blast
qed

text \<open>A header that breaks off ends the session it names, without any credentials.\<close>

theorem unauthenticated_logout:
  assumes "lib_ok L" and "db_inv L (sv_db S)" and "0 < unat (ulen :: u16)"
  shows "\<exists>S'. serve_client L E (\<lambda>_. True) S
      \<lparr>cn_sockopt = True,
       cn_in = arrive (enc8 op @ enc8 flag @ mem_of True 2 (rsv :: u16) @ enc16 ulen @ enc16 plen @ enc32 sid) @ [Rd_closed],
       cn_writes = ws\<rparr> = Inr ([], S') \<and>
    sessions_of L S' = (sessions_of L S)(sid := None) \<and> accounts_of L S' = accounts_of L S"
proof -
  let ?A = "\<lambda>_ :: nat. True"
  note f = rd_field_arrive [where A = ?A, OF TrueI]
    and c = c16.read_field [where A = ?A, OF TrueI] c32.read_field [where A = ?A, OF TrueI]
  obtain n where n: "unat ulen = Suc n" using assms(3) by (metis not0_implies_Suc less_numeral_extra(3))
  have stop: "rd_array ?A (\<lambda>w. unat (wp_username_len w)) True st (w, [Rd_closed]) = Inr (OP_SOCK_CLOSED, w, [])"
    if "wp_username_len w = ulen" for st w
    using that n by (simp add: rd_array_def make_byte_array_def read_stream_def)
  have h: "\<exists>w. read_header ?A (zero_wire, arrive (enc8 op @ enc8 flag @ mem_of True 2 rsv @ enc16 ulen @ enc16 plen @
      enc32 sid) @ [Rd_closed]) = Inr (OP_SOCK_CLOSED, w, []) \<and> wp_session_id w = sid"
    unfolding read_header_def header_sizes by (simp add: f c enc_ntoh stop)
  then obtain w where "read_client_req ?A 0 (arrive (enc8 op @ enc8 flag @ mem_of True 2 rsv @ enc16 ulen @ enc16 plen @
      enc32 sid) @ [Rd_closed]) ws = Inr (OP_SOCK_CLOSED, w, [], ws)" and sid: "wp_session_id w = sid"
    by (auto simp: read_client_req_def)
  then show ?thesis
    using htable_lawsD(7) [OF db_inv_laws(2, 4) [OF assms(1, 2)], of sid]
    by (simp add: serve_client_def sid accounts_of_def sessions_of_def db_users_def)
qed

theorem unauthenticated_logout_witness:
  "\<exists>S'. serve_client sample_lib (sample_env 110) (\<lambda>_. True) sample_srv
      \<lparr>cn_sockopt = True,
       cn_in = arrive (enc8 0 @ enc8 0 @ mem_of True 2 (0 :: u16) @ enc16 1 @ enc16 0 @ enc32 7) @ [Rd_closed],
       cn_writes = []\<rparr> = Inr ([], S') \<and> sessions_of sample_lib S' = Map.empty"
  using unauthenticated_logout [OF sample_lib_ok sample_srv_inv, of 1 "sample_env 110" 0 0 0 0 7 "[]"]
  by (simp add: sample_srv_sessions) blast

end
