(* ===== verification/Answer.thy ===== *)
theory Answer
  imports Sock
begin

text \<open>
  When the controller answers at all: the conditions under which a request runs into no undefined
  behaviour and the search for a session identifier ends.
\<close>

section \<open>Lengths of resolved names\<close>

text \<open>The length of a path as text, with a slash before every component.\<close>

definition path_len :: "path \<Rightarrow> nat" where
  "path_len p = sum_list (map (\<lambda>c. length c + 1) p)"

lemma path_len_simps [simp]:
  "path_len [] = 0" "path_len (c # p) = length c + 1 + path_len p" "path_len (p @ q) = path_len p + path_len q"
  by (simp_all add: path_len_def)

lemma path_len_butlast: "path_len (butlast p) \<le> path_len p"
  by (cases p rule: rev_cases) simp_all

lemma path_len_split: "path_len (split_slash s) = length s + 1"
  by (induction s) (auto split: list.splits)

lemma length_render: "length (render p) = (if p = [] then 1 else path_len p)"
  by (simp add: render_def path_len_def length_concat comp_def)

lemma resolve_length:
  "resolve F mk k cur cs = Inr p \<Longrightarrow> link_free F \<Longrightarrow> path_len p \<le> path_len cur + path_len cs"
proof (induction F mk k cur cs rule: resolve.induct)
  case (1 F mk n cur)
  then show ?case by simp
next
  case (2 F mk n cur c cs)
  consider "c = [] \<or> c = ''.''" | "c = ''..''" | "c \<noteq> []" "c \<noteq> ''.''" "c \<noteq> ''..''" by blast
  then show ?case
  proof cases
    case 1
    then have "is_dir F cur" "resolve F mk n cur cs = Inr p" using 2(5) by (auto simp: resolve.simps(2) split: if_splits)
    then have "path_len p \<le> path_len cur + path_len cs" using 2(1, 6) 1 by blast
    then show ?thesis by simp
  next
    case up: 2
    then have "is_dir F cur" "resolve F mk n (butlast cur) cs = Inr p" using 2(5) by (auto simp: resolve.simps(2) split: if_splits)
    then have "path_len p \<le> path_len (butlast cur) + path_len cs" using 2(2, 6) up by simp
    then show ?thesis using path_len_butlast [of cur] by simp
  next
    case 3
    show ?thesis
    proof (cases "lookup F (cur @ [c])")
      case None
      then show ?thesis using 2(5) 3 by (auto simp: resolve.simps(2) split: if_splits)
    next
      case (Some nd)
      then have nl: "link_text nd = None"
        using link_free_lookup [OF 2(6) Some] by (cases nd) (auto simp: link_text_def)
      then have "resolve F mk n (cur @ [c]) cs = Inr p" using 2(5) 3 Some by (auto simp: resolve.simps(2) split: if_splits)
      moreover have "is_dir F cur" "length c \<le> NAME_MAX" using 2(5) 3 by (auto simp: resolve.simps(2) split: if_splits)
      ultimately have "path_len p \<le> path_len (cur @ [c]) + path_len cs"
        using 2(3) [OF _ _ _ _ Some nl] 2(6) 3 by simp
      then show ?thesis by simp
    qed
  qed
qed

lemma realpath_length:
  assumes "realpath F s = Inr r" and "is_abs s" and "link_free F"
  shows "length r \<le> length s"
proof -
  obtain p where p: "namei F False s = Inr p" "r = render p"
    using assms(1) by (auto simp: realpath_def split: sum.splits if_splits)
  then have s: "resolve F False SYMLOOP_MAX [] (split_slash s) = Inr p" "s \<noteq> []"
    using assms(2) by (auto simp: namei_def split: if_splits)
  obtain t where t: "s = CHR ''/'' # t" using assms(2) by (cases s) (auto simp: is_abs_def)
  then have "resolve F False SYMLOOP_MAX [] (split_slash t) = Inr p"
    using s(1) by (simp add: resolve.simps(2) split: if_splits)
  from resolve_length [OF this assms(3)] have "path_len p \<le> length s"
    by (simp add: path_len_split t)
  then show ?thesis using s(2) by (simp add: p(2) length_render Suc_le_eq)
qed

lemma dirname_basename_length: "length (dirname s) + length (basename s) \<le> length s + 2"
proof -
  define r where "r = dropWhile (\<lambda>c. c = CHR ''/'') (rev s)"
  define d where "d = dropWhile (\<lambda>c. c \<noteq> CHR ''/'') r"
  define e where "e = dropWhile (\<lambda>c. c = CHR ''/'') d"
  define w where "w = takeWhile (\<lambda>c. c \<noteq> CHR ''/'') r"
  have "length r \<le> length s" unfolding r_def by (metis length_dropWhile_le length_rev)
  moreover have "length w + length d = length r"
    unfolding w_def d_def by (metis length_append takeWhile_dropWhile_id)
  moreover have "length e \<le> length d" unfolding e_def by (rule length_dropWhile_le)
  ultimately have "length w + length e \<le> length s" "length w \<le> length s" by simp_all
  then show ?thesis
    unfolding dirname_def basename_def Let_def r_def [symmetric] d_def [symmetric] e_def [symmetric] w_def [symmetric]
    by simp
qed

section \<open>The file operations\<close>

text \<open>Resolving for a new entry stays within its buffers when home directory and path leave four bytes.\<close>

definition path_fits :: "path \<Rightarrow> string \<Rightarrow> bool" where
  "path_fits hp c \<longleftrightarrow> nul_free c \<and> length (render hp) + length c + 4 < PATH_MAX"

lemma joined_abs: "is_abs h \<Longrightarrow> is_abs (joined h c)"
  by (simp add: is_abs_def joined_def hd_append)

lemma valid_resolve_defined:
  assumes "home_ok F hp" and "path_fits hp c"
  shows "\<exists>v. f_valid_resolve F (Some (render hp)) (Some c) = Inr v"
proof -
  note F = home_okD [OF assms(1)]
  let ?s = "joined (render hp) (dirname c)"
  have len: "length (render hp) + length c + 4 < PATH_MAX" using assms(2) by (simp add: path_fits_def)
  have a: "length ?s \<le> length (render hp) + length (dirname c) + 1" by (rule length_joined)
  note b = dirname_basename_length [of c]
  show ?thesis
  proof (cases "realpath F ?s")
    case (Inl e)
    then show ?thesis using len a b by (simp add: f_valid_resolve_eq [OF F(5)])
  next
    case (Inr d)
    have "length d \<le> length ?s" by (rule realpath_length [OF Inr joined_abs [OF is_abs_render] F(2)])
    moreover have "length (joined d (basename c)) \<le> length d + length (basename c) + 1" by (rule length_joined)
    ultimately have "length (joined d (basename c)) < PATH_MAX" "length ?s < PATH_MAX"
      using len a b by linarith+
    then show ?thesis using Inr by (simp add: f_valid_resolve_eq [OF F(5)])
  qed
qed

lemma path_resolve_defined:
  assumes "home_ok F hp" and "path_fits hp c"
  obtains v where "f_path_resolve F (Some (render hp)) (Some c) = Inr v"
    and "v = None \<or> (\<exists>p n. v = Some \<lparr>p_path = render p\<rparr> \<and> lookup F p = Some n \<and> not_link n \<and> p \<noteq> [] \<and>
      length (render p) < PATH_MAX)"
proof -
  note F = home_okD [OF assms(1)]
  obtain v where v: "f_path_resolve F (Some (render hp)) (Some c) = Inr v"
    by (simp add: f_path_resolve_eq [OF F(5)])
  have "\<exists>p n. v = Some \<lparr>p_path = render p\<rparr> \<and> lookup F p = Some n \<and> not_link n \<and> p \<noteq> [] \<and>
      length (render p) < PATH_MAX" if "v = Some w" for w
  proof -
    note r = f_path_resolve_Some [OF F(5) v [unfolded that]]
    have "nul_free (joined (render hp) c)"
      using assms(2) F(5) by (intro nul_free_joined) (auto simp: path_fits_def)
    from realpath_sound [OF F(1) r(1) this] obtain p n where p: "p_path w = render p" "lookup F p = Some n"
      "not_link n" "length (p_path w) < PATH_MAX" by metis
    have "2 \<le> length (render hp)"
      using home_okD(1, 3, 4) [OF assms(1)] wf_fs_lookup(1) [of F hp Dir]
      by (cases hp) (auto simp: is_dir_def render_def valid_name_def Suc_le_eq)
    then have "p \<noteq> []" using prefix_length_le [OF r(2)] p(1) by (auto simp: render_def)
    moreover have "v = Some \<lparr>p_path = render p\<rparr>" using p(1) that by (cases w) simp
    ultimately show ?thesis using p by metis
  qed
  then show thesis using that v by (cases v) auto
qed

text \<open>The listings of all directories fit the first allocation, and the names in them a path.\<close>

definition list_room :: "fs \<Rightarrow> bool" where
  "list_room F \<longleftrightarrow> list_all (\<lambda>(d, n). n = Dir \<longrightarrow> length (render d) + NAME_MAX + 1 < PATH_MAX \<and>
     length (listing F (children F d)) < 1024) (fs_nodes F)"

lemma list_roomD:
  assumes "list_room F" and "is_dir F d" and "d \<noteq> []"
  shows "length (render d) + NAME_MAX + 1 < PATH_MAX" and "length (listing F (children F d)) < 1024"
  using assms by (auto simp: list_room_def is_dir_def lookup_def list_all_iff dest!: map_of_SomeD)

lemma list_dir_defined:
  assumes "home_ok F hp" and "no_failures F" and "list_room F" and "lookup F p = Some n" and "not_link n"
    and "p \<noteq> []" and "length (render p) < PATH_MAX"
  shows "\<exists>r. f_list_dir sha F (Some \<lparr>p_path = render p\<rparr>) = Inr r"
proof (cases "n = Dir")
  case True
  then have d: "is_dir F p" using assms(4) by (simp add: is_dir_def)
  show ?thesis
    using f_list_dir_small [OF home_okD(1) [OF assms(1)] d assms(6) _ list_roomD [OF assms(3) d assms(6)]] assms(2)
    by (simp add: no_failures_def Let_def)
next
  case False
  then show ?thesis using stat_canonical [OF home_okD(1) [OF assms(1)] assms(4, 5, 7)] assms(5)
    by (cases n) (simp_all add: f_list_dir_def)
qed

lemma read_file_defined:
  assumes "no_failures F"
  shows "\<exists>r. f_read_file sha F v = Inr r"
proof -
  have "fread_all F h = file_bytes F h" for h using assms by (simp add: fread_all_def no_failures_def)
  moreover obtain rc h F' where "f_open_file F v Mode_r = (rc, h, F')" by (metis prod_cases3)
  ultimately show ?thesis
    by (cases v; cases h)
      (auto simp: f_read_file_def hash_byte_array_def Let_def split: sum.splits node.splits)
qed

lemma del_file_defined:
  assumes "home_ok F hp" and "no_failures F" and "lookup F p = Some n" and "not_link n"
    and "p \<noteq> []" and "length (render p) < PATH_MAX"
  shows "\<exists>r. f_del_file F (Some \<lparr>p_path = render p\<rparr>) = Inr r"
  using f_del_file_canonical [OF home_okD(1) [OF assms(1)] assms(3-6)] assms(2, 4)
  by (cases n) (simp_all add: no_failures_def)

section \<open>The operations of the controller\<close>

text \<open>
  A request as \<open>read_client_req\<close> leaves it, whose path fits, and whose stream has the length that goes
  with it.
\<close>

definition request_sound :: "path \<Rightarrow> wire_payload_t \<Rightarrow> bool" where
  "request_sound hp req \<longleftrightarrow> request_typed req \<and>
    (case wp_payload req of
       Std_payload p \<Rightarrow>
         (case sp_path p of None \<Rightarrow> True | Some c \<Rightarrow> path_fits hp c) \<and>
         (case sp_byte_stream p of None \<Rightarrow> True | Some bs \<Rightarrow> length bs = unat (sp_byte_stream_len p))
     | _ \<Rightarrow> True)"

lemma file_payload:
  assumes "request_sound hp req" and "wp_opt_code req \<noteq> ACT_LOCAL_OPERATION"
    and "wp_opt_code req \<noteq> ACT_USER_OPERATION"
  obtains p c where "wp_payload req = Std_payload p" and "sp_path p = Some c" and "path_fits hp c"
    and "\<exists>bs. stream_arg p = Inr bs"
  using assms by (cases "wp_payload req")
    (auto simp: request_sound_def request_typed_def stream_arg_def split: option.splits)

lemma file_ops_defined:
  assumes "home_ok (sv_fs S) hp" and "no_failures (sv_fs S)"
    and "p_home_dir (sv_db S) = Some \<lparr>p_path = render hp\<rparr>"
    and "wp_payload req = Std_payload p" and "sp_path p = Some c" and "path_fits hp c"
    and "stream_arg p = Inr bs"
  shows "\<exists>r. do_del_file S req = Inr r" and "\<exists>r. do_make_dir S req = Inr r"
    and "\<exists>r. do_put_file S req = Inr r" and "\<exists>r. do_get_file L S req = Inr r"
    and "list_room (sv_fs S) \<Longrightarrow> \<exists>r. do_list_dir L S req = Inr r"
proof -
  obtain v where v: "f_path_resolve (sv_fs S) (Some (render hp)) (Some c) = Inr v"
    "v = None \<or> (\<exists>p n. v = Some \<lparr>p_path = render p\<rparr> \<and> lookup (sv_fs S) p = Some n \<and> not_link n \<and> p \<noteq> [] \<and>
      length (render p) < PATH_MAX)"
    using path_resolve_defined [OF assms(1, 6)] .
  obtain w where w: "f_valid_resolve (sv_fs S) (Some (render hp)) (Some c) = Inr w"
    using valid_resolve_defined [OF assms(1, 6)] by blast
  obtain pc code where rd: "f_read_file (lib_sha256 L) (sv_fs S) v = Inr (pc, code)"
    using read_file_defined [OF assms(2)] by (metis surj_pair)
  have del: "\<exists>r. f_del_file (sv_fs S) v = Inr r" if "v \<noteq> None"
    using v(2) that del_file_defined [OF assms(1, 2)] by auto
  have ls: "\<exists>r. f_list_dir (lib_sha256 L) (sv_fs S) v = Inr r" if "v \<noteq> None" "list_room (sv_fs S)"
    using v(2) that(1) list_dir_defined [OF assms(1, 2) that(2)] by auto
  note run = assms(3-5, 7) v(1) w f_ver_path_resolve_def f_ver_valid_resolve_def
  show "\<exists>r. do_del_file S req = Inr r" using del by (simp add: do_del_file_def run)
  show "\<exists>r. do_make_dir S req = Inr r" by (simp add: do_make_dir_def run)
  show "\<exists>r. do_put_file S req = Inr r" by (simp add: do_put_file_def run)
  show "\<exists>r. do_get_file L S req = Inr r"
    using rd by (cases pc) (simp_all add: do_get_file_def run)
  assume "list_room (sv_fs S)"
  then show "\<exists>r. do_list_dir L S req = Inr r"
    using ls by (cases v) (auto simp: do_list_dir_def run rbind_Inr split: option.splits)
qed

text \<open>Changing accounts returns, because saving them does.\<close>

lemma save_defined:
  assumes "lib_ok L" and "storage_ok F hp" and "db_inv L db" and "p_home_dir db = Some \<lparr>p_path = render hp\<rparr>"
    and "\<not> db_debug db"
  shows "\<exists>F'. db_update_db L F (Some db) = Inr F'"
  using db_update_db_fmt [OF assms(1, 2) db_inv_accts [OF assms(1, 3)] assms(4, 5)] by blast

lemma remove_user_defined:
  assumes "lib_ok L" and "storage_ok F hp" and "db_inv L db" and "p_home_dir db = Some \<lparr>p_path = render hp\<rparr>"
    and "\<not> db_debug db"
  shows "\<exists>r. db_remove_user L F (Some db) (Some n) = Inr r"
proof -
  let ?db' = "db\<lparr>users_htable := snd (ht_del (lib_users L) (users_htable db) n)\<rparr>"
  obtain F' where "db_update_db L F (Some ?db') = Inr F'"
    using save_defined [OF assms(1, 2) db_inv_del(1) [OF assms(1, 3)], of n] assms(4, 5) by auto
  then show ?thesis by (simp add: db_remove_eq [OF assms(1, 3)] Let_def)
qed

lemma create_user_defined:
  assumes "lib_ok L" and "storage_ok F hp" and "db_inv L db" and "p_home_dir db = Some \<lparr>p_path = render hp\<rparr>"
    and "\<not> db_debug db" and "unat q < 10"
  shows "\<exists>r. db_create_user L F (Some db) n pw q = Inr r"
proof (cases n)
  case (Some name)
  show ?thesis
  proof (cases pw)
    case pw: (Some p)
    let ?a = "new_account L name p q"
    let ?db' = "db\<lparr>users_htable := ht_set (lib_users L) (users_htable db) (ua_username ?a) ?a\<rparr>"
    have "ua_username ?a = name" by (simp add: new_account_def)
    moreover obtain F' where "db_update_db L F (Some ?db') = Inr F'"
      using save_defined [OF assms(1, 2) db_inv_set(1) [OF assms(1, 3) new_account_fmt [OF assms(1, 6)]]] assms(4, 5)
      by auto
    ultimately show ?thesis
      by (auto simp: Some pw db_create_user_def hash_byte_array_def Let_def new_account_def digest_def)
  qed (simp add: Some db_create_user_def)
qed (simp add: db_create_user_def)

section \<open>Whole requests\<close>

lemma user_request_defined:
  assumes "lib_ok L" and "storage_ok (sv_fs S) hp" and "db_inv L (sv_db S)"
    and "p_home_dir (sv_db S) = Some \<lparr>p_path = render hp\<rparr>" and "\<not> db_debug (sv_db S)"
    and "request_sound hp req" and "unat (ua_permission u) < 10" and "wp_opt_code req = ACT_USER_OPERATION"
  shows "\<exists>r. dispatch L S u req = Inr r"
proof -
  obtain p n where p: "wp_payload req = User_payload p" "up_username p = Some n"
    using assms(6, 8) by (cases "wp_payload req") (auto simp: request_sound_def request_typed_def act_codes)
  obtain r where r: "db_remove_user L (sv_fs S) (Some (sv_db S)) (Some n) = Inr r"
    using remove_user_defined [OF assms(1-5)] by blast
  have "\<exists>r. db_create_user L (sv_fs S) (Some (sv_db S)) (Some n) (up_passwd p) (up_user_perm p) = Inr r"
    if "\<not> ua_permission u < up_user_perm p"
    using create_user_defined [OF assms(1-5)] that assms(7) by (simp add: word_less_nat_alt)
  then show ?thesis using r
    by (cases r) (auto simp: dispatch_def assms(8) p user_action_def db_result_def Let_def act_codes usr_codes)
qed

lemma dispatch_defined:
  assumes "lib_ok L" and "storage_ok (sv_fs S) hp" and "db_inv L (sv_db S)"
    and "p_home_dir (sv_db S) = Some \<lparr>p_path = render hp\<rparr>" and "\<not> db_debug (sv_db S)"
    and "request_sound hp req" and "unat (ua_permission u) < 10"
    and "wp_opt_code req = ACT_LIST_REMOTE_DIRECTORY \<Longrightarrow> list_room (sv_fs S)"
  shows "\<exists>r. dispatch L S u req = Inr r"
proof -
  consider (local_op) "wp_opt_code req = ACT_LOCAL_OPERATION" | (user) "wp_opt_code req = ACT_USER_OPERATION"
    | (other) "wp_opt_code req \<noteq> ACT_LOCAL_OPERATION" "wp_opt_code req \<noteq> ACT_USER_OPERATION" by blast
  then show ?thesis
  proof cases
    case other
    obtain p c bs where p: "wp_payload req = Std_payload p" "sp_path p = Some c" "path_fits hp c"
      "stream_arg p = Inr bs"
      using file_payload [OF assms(6) other] by blast
    note s = storage_okD(1, 3) [OF assms(2)]
    note d = file_ops_defined [OF s assms(4) p]
    obtain c1 f1 c2 f2 c3 f3 r where r: "do_del_file S req = Inr (c1, f1)" "do_make_dir S req = Inr (c2, f2)"
      "do_put_file S req = Inr (c3, f3)" "do_get_file L S req = Inr r"
      using d(1-4) by (metis surj_pair)
    moreover have "\<exists>r. do_list_dir L S req = Inr r" if "wp_opt_code req = ACT_LIST_REMOTE_DIRECTORY"
      using d(5) assms(8) that by blast
    ultimately show ?thesis using other by (auto simp: dispatch_def fs_result_def Let_def)
  next
    case user
    then show ?thesis by (rule user_request_defined [OF assms(1-7)])
  qed (simp add: dispatch_def)
qed

lemma check_session_defined:
  assumes "lib_ok L" and "db_inv L (sv_db S)"
    and "sid = 0 \<Longrightarrow> \<exists>k. sessions_of L S (draw (e_rand E) (sv_rand S) k) = None"
  obtains res sesh S' where "check_session L E S sid = Inr (res, sesh, S')"
proof -
  note ht = htable_lawsD(8) [OF db_inv_laws(2, 4) [OF assms(1, 2)]]
  have "\<exists>r. generate_session_id L E (sesh_htable (sv_db S)) (sv_rand S) = Inr r" if zero: "sid = 0"
  proof -
    obtain k where k: "\<not> ht_key_exists (lib_sesh L) (sesh_htable (sv_db S)) (draw (e_rand E) (sv_rand S) k)"
      using assms(3) [OF zero] ht by (auto simp: sessions_of_def)
    then obtain x where "session_loop L (sesh_htable (sv_db S)) (e_rand E) (sv_rand S) = Some x"
      using session_loop_finds [OF k] by auto
    then show ?thesis by (cases x) (simp add: generate_session_id_def)
  qed
  then have "\<exists>r. check_session L E S sid = Inr r" using ht
    by (cases "sid = 0"; cases "ht_get (lib_sesh L) (sesh_htable (sv_db S)) sid")
      (auto simp: check_session_def Let_def)
  then show thesis using that by auto
qed

section \<open>Properties\<close>



end
