(* ===== verification/Workers.thy ===== *)
theory Workers
  imports Answer
begin

text \<open>
  The workers of the thread pool running at the same time. \<^verbatim>\<open>serve_client\<close> and \<^verbatim>\<open>ctrl_parse_action\<close> take no
  locks, so other workers may move between any two accesses to the tables. A worker is cut at these
  accesses: authentication, the look-up of the session, its use, and the operation. Everything up to the
  next access belongs to the step.
\<close>

section \<open>A worker\<close>

text \<open>
  After authentication a worker holds a pointer into the table of accounts: the name, the account it
  points to, and whether that account is still allocated.
\<close>

record user_ptr =
  pu_name :: string
  pu_account :: user_account_t
  pu_valid :: bool

datatype wstate =
    W_start wire_payload_t
  | W_session wire_payload_t user_ptr
  | W_alive wire_payload_t user_ptr
  | W_dispatch wire_payload_t user_ptr
  | W_done act_resp_t wire_payload_t
  | W_broken u32
  | W_closed

text \<open>The operations that read the permission of the account.\<close>

definition reads_user :: "wire_payload_t \<Rightarrow> bool" where
  "reads_user req \<longleftrightarrow>
    wp_opt_code req = ACT_DELETE_REMOTE_FILE \<or> wp_opt_code req = ACT_MAKE_REMOTE_DIRECTORY \<or>
    wp_opt_code req = ACT_PUT_REMOTE_FILE \<or>
    wp_opt_code req = ACT_USER_OPERATION \<and>
      (case wp_payload req of
         User_payload p \<Rightarrow> up_user_flag p = USR_ACT_CREATE_USER \<or> up_user_flag p = USR_ACT_DELETE_USER
       | _ \<Rightarrow> False)"

text \<open>A worker whose request could not be read goes on with the session the header named.\<close>

fun w_step :: "('u, 's) lib \<Rightarrow> env \<Rightarrow> ('u, 's) srv \<times> wstate \<Rightarrow> (('u, 's) srv \<times> wstate) run" where
  "w_step L E (S, W_start req) =
    rbind (db_authenticate_user L (Some (sv_db S)) (wp_username req) (wp_passwd req)) (\<lambda>(res, p_user).
      if res \<noteq> OP_SUCCESS then Inr (S, W_done (set_resp res) req)
      else
        (case (wp_username req, p_user) of
           (Some n, Some u) \<Rightarrow> Inr (S, W_session req \<lparr>pu_name = n, pu_account = u, pu_valid = True\<rparr>)
         | _ \<Rightarrow> Inl Null_deref))"
| "w_step L E (S, W_session req p) =
    (let db = sv_db S; t = sesh_htable db; session_id = wp_session_id req in
     if session_id = 0 then
       rbind (generate_session_id L E t (sv_rand S)) (\<lambda>(res, sesh, t', i').
         let req = req\<lparr>wp_session_id := sesh\<rparr>; S = S\<lparr>sv_db := db\<lparr>sesh_htable := t'\<rparr>, sv_rand := i'\<rparr> in
         if res \<noteq> OP_SUCCESS then Inr (S, W_done (set_resp res) req) else Inr (S, W_dispatch req p))
     else if \<not> ht_key_exists (lib_sesh L) t session_id then
       Inr (S, W_done (set_resp OP_SESSION_ERROR) req)
     else Inr (S, W_alive req p))"
| "w_step L E (S, W_alive req p) =
    (let db = sv_db S; t = sesh_htable db; session_id = wp_session_id req in
     case ht_get (lib_sesh L) t session_id of
       None \<Rightarrow> Inl Null_deref
     | Some session_time \<Rightarrow>
         if e_now E - session_time > e_timeout E then
           Inr (S\<lparr>sv_db := db\<lparr>sesh_htable := snd (ht_del (lib_sesh L) t session_id)\<rparr>\<rparr>,
             W_done (set_resp OP_SESSION_ERROR) req)
         else
           Inr (S\<lparr>sv_db := db\<lparr>sesh_htable := ht_set (lib_sesh L) t session_id (e_now E)\<rparr>\<rparr>,
             W_dispatch req p))"
| "w_step L E (S, W_dispatch req p) =
    (if reads_user req \<and> \<not> pu_valid p then Inl Use_after_free
     else rbind (dispatch L S (pu_account p) req) (\<lambda>(resp, S'). Inr (S', W_done resp req)))"
| "w_step L E (S, W_broken session_id) =
    Inr (S\<lparr>sv_db := (sv_db S)\<lparr>sesh_htable :=
      snd (ht_del (lib_sesh L) (sesh_htable (sv_db S)) session_id)\<rparr>\<rparr>, W_closed)"
| "w_step L E (S, W_done resp req) = Inr (S, W_done resp req)"
| "w_step L E (S, W_closed) = Inr (S, W_closed)"

fun w_steps :: "('u, 's) lib \<Rightarrow> env \<Rightarrow> nat \<Rightarrow> ('u, 's) srv \<times> wstate \<Rightarrow> (('u, 's) srv \<times> wstate) run" where
  "w_steps L E 0 c = Inr c"
| "w_steps L E (Suc n) c = rbind (w_step L E c) (w_steps L E n)"

section \<open>The pool\<close>

text \<open>\<^verbatim>\<open>db_remove_user\<close> frees the account: every pointer to it dangles from then on.\<close>

definition stale :: "accounts \<Rightarrow> accounts \<Rightarrow> user_ptr \<Rightarrow> user_ptr" where
  "stale U U' p = (if U (pu_name p) \<noteq> None \<and> U' (pu_name p) = None then p\<lparr>pu_valid := False\<rparr> else p)"

fun dangle :: "accounts \<Rightarrow> accounts \<Rightarrow> wstate \<Rightarrow> wstate" where
  "dangle U U' (W_session req p) = W_session req (stale U U' p)"
| "dangle U U' (W_alive req p) = W_alive req (stale U U' p)"
| "dangle U U' (W_dispatch req p) = W_dispatch req (stale U U' p)"
| "dangle U U' w = w"

text \<open>Jobs arrive, and any worker may take the next step, at any time.\<close>

inductive pool_step :: "('u, 's) lib \<Rightarrow> ('u, 's) srv \<times> wstate list \<Rightarrow> ('u, 's) srv \<times> wstate list \<Rightarrow> bool"
  for L where
  pool_request: "pool_step L (S, ws) (S, ws @ [W_start req])"
| pool_broken: "pool_step L (S, ws) (S, ws @ [W_broken sid])"
| pool_work: "i < length ws \<Longrightarrow> w_step L E (S, ws ! i) = Inr (S', w') \<Longrightarrow>
    pool_step L (S, ws) (S', map (dangle (accounts_of L S) (accounts_of L S')) (ws[i := w']))"

inductive_cases pool_stepE: "pool_step L (S, ws) (S', ws')"

section \<open>A worker on its own\<close>

lemma auth_success:
  assumes "db_authenticate_user L db n pw = Inr (OP_SUCCESS, p)"
  shows "n \<noteq> None \<and> p \<noteq> None"
  using assms
  by (cases db; cases n; cases pw; cases p)
    (auto simp: db_authenticate_user_def rbind_eq_Inr_iff split: option.split_asm if_split_asm)

lemma w_steps_done [simp]: "w_steps L E n (S, W_done resp req) = Inr (S, W_done resp req)"
  by (induction n) simp_all

text \<open>The two steps on the session are those of \<open>check_session\<close>.\<close>

lemma w_session_steps:
  "w_steps L E 3 (S, W_session req p) =
    rbind (check_session L E S (wp_session_id req)) (\<lambda>(res, sesh, S).
      let req = req\<lparr>wp_session_id := sesh\<rparr> in
      if res \<noteq> OP_SUCCESS then Inr (S, W_done (set_resp res) req)
      else w_step L E (S, W_dispatch req p))"
proof -
  have "rbind (w_step L E (S', W_dispatch r p)) (w_step L E) = w_step L E (S', W_dispatch r p)" for S' r
    by (cases "dispatch L S' (pu_account p) r") auto
  then show ?thesis
    by (auto simp: eval_nat_numeral check_session_def Let_def rbind_assoc split: option.splits
        intro!: rbind_cong)
qed

text \<open>Alone, the steps of a worker are the function of the sequential model.\<close>

lemma w_steps_alone:
  "w_steps L E 4 (S, W_start req) =
    rbind (ctrl_request L E S req) (\<lambda>(resp, req', S'). Inr (S', W_done resp req'))"
proof (cases "db_authenticate_user L (Some (sv_db S)) (wp_username req) (wp_passwd req)")
  case (Inr r)
  obtain res p_user where r: "r = (res, p_user)" by (cases r)
  show ?thesis
  proof (cases "res = OP_SUCCESS")
    case True
    then obtain n u where n: "wp_username req = Some n" "p_user = Some u"
      using auth_success Inr r by blast
    have "w_steps L E 4 (S, W_start req) =
        w_steps L E 3 (S, W_session req \<lparr>pu_name = n, pu_account = u, pu_valid = True\<rparr>)"
      using Inr r True n by (simp add: eval_nat_numeral)
    then show ?thesis using Inr r True n
      by (auto simp: w_session_steps ctrl_request_def rbind_assoc Let_def intro!: rbind_cong)
  next
    case False
    then show ?thesis using Inr r by (simp add: ctrl_request_def eval_nat_numeral)
  qed
qed (simp add: ctrl_request_def eval_nat_numeral)

section \<open>The invariant of the pool\<close>

fun holds :: "wstate \<Rightarrow> (wire_payload_t \<times> user_ptr) option" where
  "holds (W_session req p) = Some (req, p)"
| "holds (W_alive req p) = Some (req, p)"
| "holds (W_dispatch req p) = Some (req, p)"
| "holds w = None"

text \<open>A worker that authenticated matched the password of the account; while the pointer is valid, that account is in the table.\<close>

definition ptr_ok :: "('u, 's) lib \<Rightarrow> u32 \<Rightarrow> accounts \<Rightarrow> wire_payload_t \<Rightarrow> user_ptr \<Rightarrow> bool" where
  "ptr_ok L M U req p \<longleftrightarrow> unat (ua_permission (pu_account p)) < 10 \<and> ua_permission (pu_account p) \<le> M \<and>
    wp_username req = Some (pu_name p) \<and>
    (case wp_passwd req of None \<Rightarrow> False | Some pw \<Rightarrow> pw_matches L (pu_account p) pw) \<and>
    (pu_valid p \<longrightarrow> U (pu_name p) = Some (pu_account p))"

definition worker_ok :: "('u, 's) lib \<Rightarrow> u32 \<Rightarrow> accounts \<Rightarrow> wstate \<Rightarrow> bool" where
  "worker_ok L M U w \<longleftrightarrow> (case holds w of None \<Rightarrow> True | Some (req, p) \<Rightarrow> ptr_ok L M U req p)"

fun pool_inv :: "('u, 's) lib \<Rightarrow> u32 \<Rightarrow> ('u, 's) srv \<times> wstate list \<Rightarrow> bool" where
  "pool_inv L M (S, ws) \<longleftrightarrow>
    db_inv L (sv_db S) \<and> bounded_perms L M S \<and> list_all (worker_ok L M (accounts_of L S)) ws"

lemma ptr_ok_login:
  "ptr_ok L M U req p \<Longrightarrow> pu_valid p \<Longrightarrow> login L U req = Some (pu_account p)"
  by (auto simp: ptr_ok_def login_def split: option.splits)

lemma ptr_ok_request [simp]: "ptr_ok L M U (req\<lparr>wp_session_id := i\<rparr>) p = ptr_ok L M U req p"
  by (simp add: ptr_ok_def)

text \<open>Steps on the sessions leave files and accounts alone.\<close>

lemma w_step_session:
  assumes "lib_ok L" and "db_inv L (sv_db S)" and "w_step L E (S, w) = Inr (S', w')"
    and "\<And>req p. w \<noteq> W_dispatch req p"
  shows "db_inv L (sv_db S') \<and> accounts_of L S' = accounts_of L S \<and> sv_fs S' = sv_fs S"
proof -
  note laws = db_inv_laws [OF assms(1, 2)]
  note ht = htable_lawsD [OF laws(2)]
  have "sv_fs S' = sv_fs S \<and> users_htable (sv_db S') = users_htable (sv_db S) \<and>
    ht_valid (lib_sesh L) (sesh_htable (sv_db S'))"
  proof (cases w)
    case (W_start req)
    then show ?thesis using assms(3) laws(4) by (auto simp: rbind_eq_Inr_iff split: option.splits if_splits)
  next
    case (W_session req p)
    then show ?thesis using assms(3) laws(4) ht(3)
      by (auto simp: generate_session_id_def rbind_eq_Inr_iff Let_def split: if_splits)
  next
    case (W_alive req p)
    then show ?thesis using assms(3) laws(4) ht(3, 5) by (auto simp: Let_def split: option.splits if_splits)
  qed (use assms(3, 4) laws(4) ht(5) in auto)
  then show ?thesis using assms(2) by (simp add: db_inv_def db_users_def accounts_of_def)
qed

text \<open>A step keeps the invariant of the worker and of the shared state.\<close>

lemma worker_ok_cong: "holds w = holds w' \<Longrightarrow> worker_ok L M U w = worker_ok L M U w'"
  by (simp add: worker_ok_def)

lemma w_start_ok:
  assumes "lib_ok L" and "db_inv L (sv_db S)" and "bounded_perms L M S"
    and "w_step L E (S, W_start req) = Inr (S', w')"
  shows "worker_ok L M (accounts_of L S) w'"
proof (cases "login L (accounts_of L S) req")
  case None
  then show ?thesis using assms(4) auth_login [OF assms(1, 2), of req]
    by (auto simp: worker_ok_def accounts_of_def split: if_splits)
next
  case (Some u)
  note a = auth_login [OF assms(1, 2), of req, folded accounts_of_def, unfolded Some option.case]
  obtain n pw where n: "wp_username req = Some n" "wp_passwd req = Some pw"
    "accounts_of L S n = Some u" "pw_matches L u pw"
    using Some by (auto simp: login_def split: option.splits if_splits)
  then show ?thesis using assms(3, 4) a login_fmt [OF assms(2) Some]
    by (auto simp: worker_ok_def ptr_ok_def bounded_perms_def)
qed

lemma w_session_ok:
  assumes "w_step L E (S, w) = Inr (S', w')" and "worker_ok L M U w" and "\<And>req. w \<noteq> W_start req"
  shows "worker_ok L M U w'"
  using assms
  by (cases w) (auto simp: worker_ok_def rbind_eq_Inr_iff Let_def split: if_splits option.splits prod.splits)

text \<open>No step changes an account that is in the table other than by removing it.\<close>

definition users_kept :: "accounts \<Rightarrow> accounts \<Rightarrow> bool" where
  "users_kept U U' \<longleftrightarrow> (\<forall>n a. U n = Some a \<longrightarrow> U' n = Some a \<or> U' n = None)"

lemma users_kept_refl [simp]: "users_kept U U"
  by (simp add: users_kept_def)

lemma users_kept_spec: "users_kept U (spec_users L U req)"
  by (auto simp: users_kept_def spec_users_def split: payload_ptr.splits option.splits)

lemma spec_users_unread: "\<not> reads_user req \<Longrightarrow> spec_users L U req = U"
  by (auto simp: reads_user_def spec_users_def split: payload_ptr.splits)

lemma stale_ok:
  assumes "users_kept U U'" and "ptr_ok L M U req p"
  shows "ptr_ok L M U' req (stale U U' p)"
  using assms by (auto simp: users_kept_def ptr_ok_def stale_def split: option.splits) fastforce+

lemma dangle_ok:
  assumes "users_kept U U'" and "worker_ok L M U w"
  shows "worker_ok L M U' (dangle U U' w)"
  using assms stale_ok [OF assms(1)] by (cases w) (simp_all add: worker_ok_def)

lemma w_dispatch_effect:
  assumes "lib_ok L" and "db_inv L (sv_db S)" and "bounded_perms L M S"
    and "ptr_ok L M (accounts_of L S) req p" and "w_step L E (S, W_dispatch req p) = Inr (S', w')"
  shows "db_inv L (sv_db S')" and "bounded_perms L M S'" and "users_kept (accounts_of L S) (accounts_of L S')"
    and "holds w' = None"
    and "sv_fs S' \<noteq> sv_fs S \<or> accounts_of L S' \<noteq> accounts_of L S \<Longrightarrow>
      pu_valid p \<and> authorised (pu_account p) req"
proof -
  let ?U = "accounts_of L S" and ?u = "pu_account p"
  obtain resp where d: "dispatch L S ?u req = Inr (resp, S')" "w' = W_done resp req"
    using assms(5) by (auto simp: rbind_eq_Inr_iff split: if_splits)
  have v: "reads_user req \<Longrightarrow> pu_valid p" using assms(5) by (auto split: if_splits)
  have p10: "unat (ua_permission ?u) < 10" using assms(4) by (simp add: ptr_ok_def)
  note e = dispatch_effect [OF assms(1, 2) p10 d(1)]
  show "db_inv L (sv_db S')" "holds w' = None" using e d(2) by simp_all
  show "users_kept ?U (accounts_of L S')" using e by (simp add: users_kept_spec)
  have "bounded_perms L M S'" if changed: "accounts_of L S' \<noteq> ?U"
  proof -
    have a: "authorised ?u req" "accounts_of L S' = spec_users L ?U req" using e changed by (auto split: if_splits)
    then have "pu_valid p" using changed v spec_users_unread by metis
    then show ?thesis
      using spec_users_bounded [OF _ ptr_ok_login [OF assms(4)] a(1)] assms(3) a(2) by (simp add: bounded_perms_def)
  qed
  then show "bounded_perms L M S'" using assms(3) by (fastforce simp: bounded_perms_def)
  assume c: "sv_fs S' \<noteq> sv_fs S \<or> accounts_of L S' \<noteq> ?U"
  have "reads_user req"
  proof (rule ccontr)
    assume n: "\<not> reads_user req"
    then have "accounts_of L S' = ?U" using e spec_users_unread [OF n, of L] by simp
    then have "sv_fs S' \<noteq> sv_fs S" using c by simp
    then have "wp_opt_code req = ACT_USER_OPERATION" using e n by (auto simp: reads_user_def file_ops_def)
    then show False using n c d(1) \<open>sv_fs S' \<noteq> sv_fs S\<close>
      by (cases "wp_payload req") (auto simp: reads_user_def dispatch_def act_codes Let_def)
  qed
  then show "pu_valid p \<and> authorised ?u req" using v e c by auto
qed

lemma w_step_inv:
  assumes "lib_ok L" and "pool_inv L M (S, ws)" and "i < length ws"
    and "w_step L E (S, ws ! i) = Inr (S', w')"
  shows "db_inv L (sv_db S') \<and> bounded_perms L M S' \<and> users_kept (accounts_of L S) (accounts_of L S') \<and>
    (worker_ok L M (accounts_of L S) w')"
proof -
  have S: "db_inv L (sv_db S)" "bounded_perms L M S" and w: "worker_ok L M (accounts_of L S) (ws ! i)"
    using assms(2, 3) by (simp_all add: list_all_length)
  show ?thesis
  proof (cases "\<exists>req p. ws ! i = W_dispatch req p")
    case True
    then obtain req p where q: "ws ! i = W_dispatch req p" by blast
    then have "ptr_ok L M (accounts_of L S) req p" using w by (simp add: worker_ok_def)
    from w_dispatch_effect(1-4) [OF assms(1) S this assms(4) [unfolded q]] show ?thesis
      by (simp add: worker_ok_def)
  next
    case False
    then have same: "db_inv L (sv_db S')" "accounts_of L S' = accounts_of L S"
      using w_step_session [OF assms(1) S(1) assms(4)] by auto
    moreover have "worker_ok L M (accounts_of L S) w'"
      using w_start_ok [OF assms(1) S] w_session_ok [OF assms(4) w] assms(4)
      by (cases "ws ! i") auto
    ultimately show ?thesis using S(2) by (simp add: bounded_perms_def)
  qed
qed

lemma pool_step_inv:
  assumes "lib_ok L" and "pool_step L c c'" and "pool_inv L M c"
  shows "pool_inv L M c'"
  using assms(2, 3)
proof cases
  case (pool_work i ws E S S' w')
  have inv: "pool_inv L M (S, ws)" using assms(3) pool_work by simp
  note e = w_step_inv [OF assms(1) inv pool_work(3, 4)]
  have "list_all (worker_ok L M (accounts_of L S)) (ws[i := w'])"
    using inv e by (auto simp: list_all_iff dest!: set_update_subset_insert [THEN subsetD])
  then have "list_all (worker_ok L M (accounts_of L S')) (map (dangle (accounts_of L S) (accounts_of L S')) (ws[i := w']))"
    using e by (auto simp: list_all_iff intro: dangle_ok)
  then show ?thesis using e pool_work(2) by simp
qed (auto simp: worker_ok_def)

lemma pool_steps_inv:
  assumes "(pool_step L)\<^sup>*\<^sup>* c c'" and "lib_ok L" and "pool_inv L M c"
  shows "pool_inv L M c'"
  using assms by (induction rule: rtranclp_induct) (auto dest: pool_step_inv)

section \<open>Runs of the pool\<close>

lemma dangle_same [simp]: "dangle U U w = w"
  by (cases w) (auto simp: stale_def)

lemma dangle_holds_None: "holds w = None \<Longrightarrow> dangle U U' w = w"
  by (cases w) simp_all

lemma pool_same:
  assumes "i < length ws" and "w_step L E (S, ws ! i) = Inr (S', w')" and "accounts_of L S' = accounts_of L S"
  shows "pool_step L (S, ws) (S', ws[i := w'])"
  using pool_step.pool_work [OF assms(1, 2)] by (simp add: assms(3) map_idI)

text \<open>The worker that moves is not touched by its own removal of an account.\<close>

lemma w_step_own:
  assumes "w_step L E (S, w) = Inr (S', w')"
  shows "dangle (accounts_of L S) (accounts_of L S') w' = w'"
proof -
  have "holds w' = None \<or> accounts_of L S' = accounts_of L S"
    using assms
    by (cases w) (auto simp: rbind_eq_Inr_iff Let_def accounts_of_def db_users_def
        split: if_splits option.splits prod.splits)
  then show ?thesis using dangle_holds_None by auto
qed

lemma pool_run:
  assumes "w_steps L E n (S, ws ! i) = Inr (S', w')" and "i < length ws"
  shows "\<exists>ws'. (pool_step L)\<^sup>*\<^sup>* (S, ws) (S', ws') \<and> length ws' = length ws \<and> ws' ! i = w'"
  using assms
proof (induction n arbitrary: S ws)
  case (Suc n)
  then obtain S1 w1 where w1: "w_step L E (S, ws ! i) = Inr (S1, w1)" "w_steps L E n (S1, w1) = Inr (S', w')"
    by (auto simp: rbind_eq_Inr_iff)
  let ?ws1 = "map (dangle (accounts_of L S) (accounts_of L S1)) (ws[i := w1])"
  have "?ws1 ! i = w1" using Suc.prems(2) w_step_own [OF w1(1)] by simp
  then obtain ws' where r: "(pool_step L)\<^sup>*\<^sup>* (S1, ?ws1) (S', ws')" "length ws' = length ws" "ws' ! i = w'"
    using Suc.IH [of S1 ?ws1] w1(2) Suc.prems(2) by auto
  have "(pool_step L)\<^sup>*\<^sup>* (S, ws) (S', ws')"
    by (rule converse_rtranclp_into_rtranclp [OF pool_step.pool_work [OF Suc.prems(2) w1(1)] r(1)])
  then show ?case using r(2, 3) by blast
qed auto

text \<open>Requests one after the other are one way the pool can run.\<close>

lemma serves_pool:
  assumes "serves L S S'"
  shows "\<exists>ws. (pool_step L)\<^sup>*\<^sup>* (S, []) (S', ws)"
  using assms
proof (induction rule: serves.induct)
  case (serves_step S S' E req resp req' S'')
  then obtain ws where "(pool_step L)\<^sup>*\<^sup>* (S, []) (S', ws)" by blast
  then have "(pool_step L)\<^sup>*\<^sup>* (S, []) (S', ws @ [W_start req])"
    using pool_step.pool_request [of L S' ws req] by (meson rtranclp.rtrancl_into_rtrancl)
  moreover have "w_steps L E 4 (S', (ws @ [W_start req]) ! length ws) = Inr (S'', W_done resp req')"
    using serves_step.hyps(2) by (simp add: w_steps_alone)
  then obtain ws' where "(pool_step L)\<^sup>*\<^sup>* (S', ws @ [W_start req]) (S'', ws')"
    using pool_run [of L E 4 S' "ws @ [W_start req]" "length ws"] by auto
  ultimately show ?case by (meson rtranclp_trans)
qed auto

text \<open>A request in a live session, up to the step that uses the session and up to the operation.\<close>

lemma pool_alive:
  assumes "lib_ok L" and "db_inv L (sv_db S)" and "login L (accounts_of L S) req = Some u"
    and "wp_session_id req \<noteq> 0" and "sessions_of L S (wp_session_id req) = Some t"
  shows "(pool_step L)\<^sup>*\<^sup>* (S, ws)
    (S, ws @ [W_alive req \<lparr>pu_name = the (wp_username req), pu_account = u, pu_valid = True\<rparr>])"
proof -
  let ?i = "length ws" and ?p = "\<lparr>pu_name = the (wp_username req), pu_account = u, pu_valid = True\<rparr>"
  obtain n where n: "wp_username req = Some n" using assms(3) by (auto simp: login_def split: option.splits)
  have a: "w_step L E (S, W_start req) = Inr (S, W_session req ?p)" for E
    using auth_login [OF assms(1, 2), of req] assms(3) n by (simp add: accounts_of_def)
  have b: "w_step L E (S, W_session req ?p) = Inr (S, W_alive req ?p)" for E
    using assms(4, 5) htable_lawsD(8) [OF db_inv_laws(2, 4) [OF assms(1, 2)]] by (simp add: sessions_of_def)
  have "pool_step L (S, ws @ [W_start req]) (S, ws @ [W_session req ?p])"
    using pool_same [of ?i "ws @ [W_start req]" L _ S S "W_session req ?p"] a by simp
  moreover have "pool_step L (S, ws @ [W_session req ?p]) (S, ws @ [W_alive req ?p])"
    using pool_same [of ?i "ws @ [W_session req ?p]" L _ S S "W_alive req ?p"] b by simp
  ultimately show ?thesis using pool_step.pool_request [of L S ws req]
    by (meson converse_rtranclp_into_rtranclp r_into_rtranclp)
qed

lemma pool_live:
  assumes "lib_ok L" and "db_inv L (sv_db S)" and "login L (accounts_of L S) req = Some u"
    and "wp_session_id req \<noteq> 0" and "sessions_of L S (wp_session_id req) = Some t" and "e_now E - t \<le> e_timeout E"
  shows "(pool_step L)\<^sup>*\<^sup>* (S, ws) (touch L E S (wp_session_id req),
    ws @ [W_dispatch req \<lparr>pu_name = the (wp_username req), pu_account = u, pu_valid = True\<rparr>])"
proof -
  let ?i = "length ws" and ?p = "\<lparr>pu_name = the (wp_username req), pu_account = u, pu_valid = True\<rparr>"
  have "w_step L E (S, W_alive req ?p) = Inr (touch L E S (wp_session_id req), W_dispatch req ?p)"
    using assms(5, 6) by (simp add: sessions_of_def touch_def Let_def)
  then have "pool_step L (S, ws @ [W_alive req ?p]) (touch L E S (wp_session_id req), ws @ [W_dispatch req ?p])"
    using pool_same [of ?i "ws @ [W_alive req ?p]" L E S "touch L E S (wp_session_id req)" "W_dispatch req ?p"]
    by simp
  then show ?thesis using pool_alive [OF assms(1-5)] by (meson rtranclp.rtrancl_into_rtrancl)
qed

section \<open>Properties\<close>


text \<open>Sequences of requests are among the runs of the pool.\<close>

theorem pool_covers_sequences:
  assumes "serves L S S'"
  shows "\<exists>ws. (pool_step L)\<^sup>*\<^sup>* (S, []) (S', ws)"
  by (rule serves_pool [OF assms])

theorem pool_covers_sequences_witness:
  "\<exists>ws. (pool_step sample_lib)\<^sup>*\<^sup>* (sample_srv, []) (touch sample_lib (sample_env 130) sample_srv 7, ws)"
  by (rule pool_covers_sequences [OF serves_step [OF serves_start sample_local]])

text \<open>No interleaving of workers breaks the tables or raises the highest permission.\<close>

theorem pool_keeps_permissions:
  assumes "lib_ok L" and "db_inv L (sv_db S)" and "bounded_perms L M S"
    and "(pool_step L)\<^sup>*\<^sup>* (S, []) (S', ws)"
  shows "db_inv L (sv_db S') \<and> bounded_perms L M S'"
  using pool_steps_inv [OF assms(4, 1)] assms(2, 3) by simp

theorem pool_keeps_permissions_witness:
  "bounded_perms sample_lib perm_ADMIN (touch sample_lib (sample_env 130) sample_srv 7)"
proof -
  have b: "bounded_perms sample_lib perm_ADMIN sample_srv"
    unfolding bounded_perms_def sample_srv_accounts by (simp add: new_account_def perm_codes)
  obtain ws where "(pool_step sample_lib)\<^sup>*\<^sup>* (sample_srv, []) (touch sample_lib (sample_env 130) sample_srv 7, ws)"
    using serves_pool [OF serves_step [OF serves_start sample_local]] by blast
  from pool_keeps_permissions [OF sample_lib_ok sample_srv_inv b this] show ?thesis by blast
qed



text \<open>Property C23: the session of a request in progress can be deleted by a broken header; the worker then
  reads through NULL.
\<close>

theorem broken_header_race:
  assumes "lib_ok L" and "db_inv L (sv_db S)" and "login L (accounts_of L S) req = Some u"
    and "wp_session_id req \<noteq> 0" and "sessions_of L S (wp_session_id req) = Some t"
  shows "\<exists>S' p. (pool_step L)\<^sup>*\<^sup>* (S, []) (S', [W_alive req p, W_closed]) \<and>
    (\<forall>E. w_step L E (S', W_alive req p) = Inl Null_deref)"
proof -
  let ?sid = "wp_session_id req" and ?p = "\<lparr>pu_name = the (wp_username req), pu_account = u, pu_valid = True\<rparr>"
  let ?S = "S\<lparr>sv_db := (sv_db S)\<lparr>sesh_htable := snd (ht_del (lib_sesh L) (sesh_htable (sv_db S)) ?sid)\<rparr>\<rparr>"
  have "(pool_step L)\<^sup>*\<^sup>* (S, []) (S, [W_alive req ?p, W_broken ?sid])"
    using pool_alive [OF assms, of "[]"] pool_step.pool_broken [of L S "[W_alive req ?p]" ?sid]
    by (simp add: rtranclp.rtrancl_into_rtrancl)
  moreover have "pool_step L (S, [W_alive req ?p, W_broken ?sid]) (?S, [W_alive req ?p, W_closed])"
    using pool_same [of 1 "[W_alive req ?p, W_broken ?sid]" L _ S ?S W_closed]
    by (simp add: accounts_of_def db_users_def)
  ultimately have "(pool_step L)\<^sup>*\<^sup>* (S, []) (?S, [W_alive req ?p, W_closed])"
    by (rule rtranclp.rtrancl_into_rtrancl)
  moreover have "w_step L E (?S, W_alive req ?p) = Inl Null_deref" for E
    using htable_lawsD(7) [OF db_inv_laws(2, 4) [OF assms(1, 2)]] by simp
  ultimately show ?thesis by blast
qed

theorem broken_header_race_witness:
  "\<exists>S' p. (pool_step sample_lib)\<^sup>*\<^sup>* (sample_srv, [])
      (S', [W_alive (sample_req ''alice'' ''secret'' 7 ACT_LOCAL_OPERATION Null_payload) p, W_closed])"
  using broken_header_race [OF sample_lib_ok sample_srv_inv sample_login(1),
      of 7 ACT_LOCAL_OPERATION Null_payload 100] sample_srv_sessions by auto

text \<open>Property C24: an account can be removed while one of its requests is in progress; the worker then reads
  the permission of a freed account.
\<close>

theorem removed_account_race:
  fixes E :: env
  assumes "lib_ok L" and "db_inv L (sv_db S)" and "storage_ok (sv_fs S) hp"
    and "p_home_dir (sv_db S) = Some \<lparr>p_path = render hp\<rparr>" and "\<not> db_debug (sv_db S)"
    and "login L (accounts_of L S) req = Some u" and "reads_user req" and "wp_username req = Some n"
    and "wp_session_id req \<noteq> 0" and "sessions_of L S (wp_session_id req) = Some t" and "e_now E - t \<le> e_timeout E"
    and "login L (accounts_of L S) del = Some v" and "ua_permission v = perm_ADMIN"
    and "wp_session_id del \<noteq> 0" and "sessions_of L S (wp_session_id del) = Some t'" and "e_now E - t' \<le> e_timeout E"
    and "0 \<le> e_timeout E" and "wp_opt_code del = ACT_USER_OPERATION" and "wp_payload del = User_payload ld"
    and "up_user_flag ld = USR_ACT_DELETE_USER" and "up_username ld = Some n"
  shows "\<exists>S' p resp. (pool_step L)\<^sup>*\<^sup>* (S, []) (S', [W_dispatch req p, W_done resp del]) \<and>
    (\<forall>E. w_step L E (S', W_dispatch req p) = Inl Use_after_free)"
proof -
  let ?p = "\<lparr>pu_name = n, pu_account = u, pu_valid = True\<rparr>"
    and ?q = "\<lparr>pu_name = the (wp_username del), pu_account = v, pu_valid = True\<rparr>"
  let ?S1 = "touch L E S (wp_session_id req)" and ?S2 = "touch L E (touch L E S (wp_session_id req)) (wp_session_id del)"
  note t1 = touch_ok [OF assms(1, 2), of E "wp_session_id req"]
  note t2 = touch_ok [OF assms(1) t1(1), of E "wp_session_id del"]
  have r1: "(pool_step L)\<^sup>*\<^sup>* (S, []) (?S1, [W_dispatch req ?p])"
    using pool_live [OF assms(1, 2, 6, 9-11), of "[]"] assms(8) by simp
  obtain t'' where t'': "sessions_of L ?S1 (wp_session_id del) = Some t''" "e_now E - t'' \<le> e_timeout E"
    using t1(2) assms(15-17) by (cases "wp_session_id del = wp_session_id req") auto
  have r2: "(pool_step L)\<^sup>*\<^sup>* (?S1, [W_dispatch req ?p]) (?S2, [W_dispatch req ?p, W_dispatch del ?q])"
    using pool_live [OF assms(1) t1(1) _ assms(14) t'', of v "[W_dispatch req ?p]"] assms(12) by simp
  have p10: "unat (ua_permission v) < 10" by (rule login_fmt [OF assms(2, 12)])
  obtain x where "db_remove_user L (sv_fs ?S2) (Some (sv_db ?S2)) (Some n) = Inr x"
    using remove_user_defined [OF assms(1) _ t2(1), of "sv_fs ?S2" hp n] assms(3-5) by (auto simp: touch_def)
  then obtain resp S' where d: "dispatch L ?S2 v del = Inr (resp, S')"
    using assms(13, 18-21)
    by (cases x) (simp add: dispatch_def user_action_def db_result_def act_codes usr_codes)
  have a: "authorised v del" using assms(13, 18-20) by (simp add: authorised_def usr_codes)
  have gone: "accounts_of L S' = (accounts_of L S)(n := None)"
    using dispatch_effect [OF assms(1) t2(1) p10 d] a assms(18-21) by (simp add: spec_users_def usr_codes)
  have "accounts_of L S n \<noteq> None" using assms(6, 8) by (auto simp: login_def split: option.splits)
  moreover have "w_step L E (?S2, W_dispatch del ?q) = Inr (S', W_done resp del)" using d by simp
  ultimately have "pool_step L (?S2, [W_dispatch req ?p, W_dispatch del ?q])
      (S', [W_dispatch req (?p\<lparr>pu_valid := False\<rparr>), W_done resp del])"
    using pool_step.pool_work [of 1 "[W_dispatch req ?p, W_dispatch del ?q]" L E ?S2 S' "W_done resp del"]
    by (simp add: gone stale_def)
  then have "(pool_step L)\<^sup>*\<^sup>* (S, []) (S', [W_dispatch req (?p\<lparr>pu_valid := False\<rparr>), W_done resp del])"
    using r1 r2 by (meson rtranclp_trans rtranclp.rtrancl_into_rtrancl)
  then show ?thesis using assms(7) by fastforce
qed

text \<open>Alice asks for a deletion while the administrator removes her account.\<close>

definition sample_removal :: wire_payload_t where
  "sample_removal = sample_req ''boss1'' ''hunter2'' 7 ACT_USER_OPERATION
     (User_payload \<lparr>up_user_flag = 20, up_user_perm = 0, up_username_len = 5, up_username = Some ''alice'',
        up_passwd_len = 0, up_passwd = None\<rparr>)"

theorem removed_account_race_witness:
  "\<exists>S' p resp. (pool_step sample_lib)\<^sup>*\<^sup>* (sample_srv, [])
      (S', [W_dispatch (sample_req ''alice'' ''secret'' 7 ACT_DELETE_REMOTE_FILE (sample_path ''a'')) p,
            W_done resp sample_removal]) \<and>
    w_step sample_lib (sample_env 130)
      (S', W_dispatch (sample_req ''alice'' ''secret'' 7 ACT_DELETE_REMOTE_FILE (sample_path ''a'')) p) =
      Inl Use_after_free"
proof -
  let ?req = "sample_req ''alice'' ''secret'' 7 ACT_DELETE_REMOTE_FILE (sample_path ''a'')"
  have t: "sessions_of sample_lib sample_srv (wp_session_id ?req) = Some 100"
    "sessions_of sample_lib sample_srv (wp_session_id sample_removal) = Some 100"
    by (simp_all add: sample_srv_sessions sample_removal_def)
  have v: "login sample_lib (accounts_of sample_lib sample_srv) sample_removal =
      Some (new_account sample_lib ''boss1'' ''hunter2'' 3)"
    unfolding sample_removal_def by (rule sample_login)
  have "\<exists>S' p resp. (pool_step sample_lib)\<^sup>*\<^sup>* (sample_srv, []) (S', [W_dispatch ?req p, W_done resp sample_removal]) \<and>
    (\<forall>E. w_step sample_lib E (S', W_dispatch ?req p) = Inl Use_after_free)"
    by (rule removed_account_race [OF sample_lib_ok sample_srv_inv sample_srv_storage _ sample_login(1) _ _ _ t(1)
          _ v _ _ t(2), where E = "sample_env 130" and n = "''alice''" and
          ld = "\<lparr>up_user_flag = 20, up_user_perm = 0, up_username_len = 5, up_username = Some ''alice'',
            up_passwd_len = 0, up_passwd = None\<rparr>"])
      (simp_all add: sample_srv_def loaded_db_def sample_env_def sample_removal_def reads_user_def new_account_def
        perm_codes usr_codes act_codes sample_req_def)
  then show ?thesis by blast
qed

end
