(* ===== verification/Transfers.thy ===== *)
theory Transfers
  imports Answer
begin

text \<open>
  Files that travel through the whole server: a client stores a file over one connection, and a later
  connection gives its bytes back, or finds it gone after a deletion.
\<close>

section \<open>Splitting a path into its directory and its name\<close>

lemma hd_rev_slash_free: "b \<noteq> [] \<Longrightarrow> CHR ''/'' \<notin> set b \<Longrightarrow> dropWhile (\<lambda>c. c = CHR ''/'') (rev b @ s) = rev b @ s"
  by (cases b rule: rev_cases) auto

lemma basename_snoc:
  assumes "b \<noteq> []" and "CHR ''/'' \<notin> set b"
  shows "basename b = b" and "basename (s @ CHR ''/'' # b) = b"
proof -
  have t: "takeWhile (\<lambda>c. c \<noteq> CHR ''/'') (rev b @ r) = rev b @ takeWhile (\<lambda>c. c \<noteq> CHR ''/'') r" for r
    using assms(2) by (intro takeWhile_append2) auto
  show "basename b = b" "basename (s @ CHR ''/'' # b) = b"
    using assms hd_rev_slash_free [OF assms, of "[]"] hd_rev_slash_free [OF assms, of "CHR ''/'' # rev s"] t [of "[]"]
      t [of "CHR ''/'' # rev s"]
    by (simp_all add: basename_def Let_def del: takeWhile_eq_all_conv)
qed

lemma dirname_snoc:
  assumes "b \<noteq> []" and "CHR ''/'' \<notin> set b"
  shows "dirname b = ''.''"
    and "s = [] \<or> last s \<noteq> CHR ''/'' \<Longrightarrow> dirname (s @ CHR ''/'' # b) = (if s = [] then ''/'' else s)"
proof -
  have t: "dropWhile (\<lambda>c. c \<noteq> CHR ''/'') (rev b @ r) = dropWhile (\<lambda>c. c \<noteq> CHR ''/'') r" for r
    using assms(2) by (intro dropWhile_append2) auto
  show "dirname b = ''.''"
    using assms hd_rev_slash_free [OF assms, of "[]"] t [of "[]"] by (simp add: dirname_def Let_def)
  assume s: "s = [] \<or> last s \<noteq> CHR ''/''"
  then have "dropWhile (\<lambda>c. c = CHR ''/'') (rev s) = rev s"
    by (cases s rule: rev_cases) auto
  then show "dirname (s @ CHR ''/'' # b) = (if s = [] then ''/'' else s)"
    using assms hd_rev_slash_free [OF assms, of "CHR ''/'' # rev s"] t [of "CHR ''/'' # rev s"]
    by (simp add: dirname_def Let_def)
qed

section \<open>Paths as clients write them\<close>

text \<open>A client names the path \<open>q\<close> below the home directory with or without a slash in front.\<close>

definition names_path :: "string \<Rightarrow> path \<Rightarrow> bool" where
  "names_path c q \<longleftrightarrow> c = render q \<or> c = tl (render q)"

lemma render_last:
  assumes "list_all valid_name p" and "p \<noteq> []"
  shows "last (render p) \<noteq> CHR ''/''" and "tl (render p) \<noteq> []" and "last (tl (render p)) \<noteq> CHR ''/''"
    and "\<not> is_abs (tl (render p))"
proof -
  obtain d b where p: "p = d @ [b]" using assms(2) by (cases p rule: rev_cases) auto
  have b: "b \<noteq> []" "CHR ''/'' \<notin> set b" using assms(1) p by (simp_all add: valid_name_def)
  then have "last b \<noteq> CHR ''/''" using last_in_set by metis
  then show "last (render p) \<noteq> CHR ''/''" using b p by (cases "d = []") (simp_all add: render_snoc render_def)
  obtain x y where q: "p = x # y" using assms(2) by (cases p) auto
  have x: "x \<noteq> []" "CHR ''/'' \<notin> set x" using assms(1) q by (simp_all add: valid_name_def)
  have "hd x \<noteq> CHR ''/''" using x by (cases x) auto
  then show "tl (render p) \<noteq> []" "\<not> is_abs (tl (render p))"
    using x q by (auto simp: render_def is_abs_def hd_append)
  then show "last (tl (render p)) \<noteq> CHR ''/''"
    using \<open>last (render p) \<noteq> CHR ''/''\<close> by (metis last_tl)
qed

lemma names_path_joined:
  assumes "names_path c q" and "list_all valid_name q" and "q \<noteq> []" and "hp \<noteq> []"
  shows "joined (render hp) c = render (hp @ q)" and "length c \<le> length (render q)"
proof -
  have "render q = CHR ''/'' # tl (render q)" using assms(3) by (cases q) (simp_all add: render_def)
  then show "joined (render hp) c = render (hp @ q)" "length c \<le> length (render q)"
    using assms render_last(4) [OF assms(2, 3)]
    by (auto simp: names_path_def joined_def render_append)
qed

text \<open>The directory part names the directory, and the last part is the name of the entry.\<close>

lemma names_path_split:
  assumes "names_path c (d @ [b])" and "list_all valid_name (d @ [b])"
  shows "basename c = b" and "dirname c = ''.'' \<and> d = [] \<or> dirname c = ''/'' \<and> d = [] \<or> d \<noteq> [] \<and> names_path (dirname c) d"
proof -
  have b: "b \<noteq> []" "CHR ''/'' \<notin> set b" and vd: "list_all valid_name d"
    using assms(2) by (simp_all add: valid_name_def)
  have "basename c = b \<and>
    (dirname c = ''.'' \<and> d = [] \<or> dirname c = ''/'' \<and> d = [] \<or> d \<noteq> [] \<and> names_path (dirname c) d)"
  proof (cases "d = []")
    case True
    then have "c = [] @ CHR ''/'' # b \<or> c = b" using assms(1) by (auto simp: names_path_def render_def)
    then show ?thesis using True basename_snoc [OF b] basename_snoc(2) [OF b, of "[]"] dirname_snoc(1) [OF b] dirname_snoc(2) [OF b, of "[]"] by auto
  next
    case False
    have "tl (render d @ CHR ''/'' # b) = tl (render d) @ CHR ''/'' # b" by (cases "render d") simp_all
    then have "c = render d @ CHR ''/'' # b \<or> c = tl (render d) @ CHR ''/'' # b"
      using assms(1) False by (simp add: names_path_def render_snoc)
    then show ?thesis
      using False basename_snoc(2) [OF b] dirname_snoc(2) [OF b] render_last(1-3) [OF vd False]
      by (auto simp: names_path_def)
  qed
  then show "basename c = b" "dirname c = ''.'' \<and> d = [] \<or> dirname c = ''/'' \<and> d = [] \<or> d \<noteq> [] \<and> names_path (dirname c) d"
    by blast+
qed

section \<open>Resolving them\<close>

text \<open>An entry \<open>b\<close> of a directory \<open>d\<close> below the home directory, whose name leaves room in the buffers.\<close>

definition entry_ok :: "fs \<Rightarrow> path \<Rightarrow> path \<Rightarrow> string \<Rightarrow> bool" where
  "entry_ok F hp d b \<longleftrightarrow> home_ok F hp \<and> no_failures F \<and> is_dir F (hp @ d) \<and> valid_name b \<and>
     length (render (hp @ d @ [b])) + 2 \<le> PATH_MAX"

lemma entry_okD:
  assumes "entry_ok F hp d b"
  shows "home_ok F hp" and "no_failures F" and "is_dir F (hp @ d)" and "valid_name b"
    and "length (render (hp @ d @ [b])) + 2 \<le> PATH_MAX" and "wf_fs F" and "link_free F" and "hp \<noteq> []"
    and "list_all valid_name (hp @ d @ [b])" and "nul_free (render hp)"
proof -
  note F = home_okD [OF conjunct1 [OF assms [unfolded entry_ok_def]]]
  show e: "home_ok F hp" "no_failures F" "is_dir F (hp @ d)" "valid_name b"
    "length (render (hp @ d @ [b])) + 2 \<le> PATH_MAX" "wf_fs F" "link_free F" "hp \<noteq> []"
    using assms F by (simp_all add: entry_ok_def)
  show "nul_free (render hp)" by (rule F(5))
  have "list_all valid_name (hp @ d)" by (rule wf_fs_lookup(1) [OF e(6) e(3) [unfolded is_dir_def]])
  then show "list_all valid_name (hp @ d @ [b])" using e(4) by simp
qed

lemma entry_ok_put: "entry_ok F hp d b \<Longrightarrow> plain_file F (hp @ d @ [b]) \<Longrightarrow>
  entry_ok (put_node (hp @ d @ [b]) (File bs) F) hp d b"
  using home_ok_put_file [of F hp "hp @ d" b bs] by (simp add: entry_ok_def no_failures_def is_dir_def)

lemma entry_ok_del:
  assumes "entry_ok F hp d b" and "lookup F (hp @ d @ [b]) = Some (File bs)"
  shows "entry_ok (del_node (hp @ d @ [b]) F) hp d b"
proof -
  note e = entry_okD [OF assms(1)]
  have ne: "hp \<noteq> hp @ d @ [b]" "hp @ d \<noteq> hp @ d @ [b]" by simp_all
  have "wf_fs (del_node (hp @ d @ [b]) F)" using assms(2) by (intro wf_del_leaf [OF e(6)]) (auto simp: is_dir_def)
  moreover have "link_free (del_node (hp @ d @ [b]) F)" by (rule link_free_del_node [OF e(7)])
  ultimately show ?thesis using e ne home_okD(3) [OF e(1)]
    by (simp add: entry_ok_def home_ok_def is_dir_def no_failures_def)
qed

lemma resolve_dir:
  assumes "entry_ok F hp d b" and "x = ''.'' \<and> d = [] \<or> x = ''/'' \<and> d = [] \<or> d \<noteq> [] \<and> names_path x d"
  shows "realpath F (joined (render hp) x) = Inr (render (hp @ d))" and "length (joined (render hp) x) < PATH_MAX"
proof -
  note e = entry_okD [OF assms(1)]
  have hd: "hp @ d \<noteq> []" using e(8) by simp
  have b: "1 \<le> length b" using e(4) by (cases b) (simp_all add: valid_name_def)
  have len: "length (render (hp @ d)) + 4 \<le> PATH_MAX"
    using e(5) b render_snoc [OF hd, of b] by simp
  show "length (joined (render hp) x) < PATH_MAX"
    using assms(2)
  proof (elim disjE conjE)
    assume "d \<noteq> []" "names_path x d"
    then show ?thesis using names_path_joined(1) [of x d hp] e(8, 9) len by simp
  qed (use len in \<open>simp_all add: joined_def is_abs_def\<close>)
  have root: "realpath F (render hp @ CHR ''/'' # t) = Inr (render hp)" if "d = []" "t = [] \<or> t = ''.''" for t
  proof -
    have "resolve F False SYMLOOP_MAX [] (split_slash (render hp @ CHR ''/'' # t)) = Inr hp"
      using resolve_from [OF e(6), of hp Dir] e(3, 8) that by (auto simp: is_dir_def resolve.simps(2))
    then show ?thesis using that len by (auto simp: realpath_def namei_def)
  qed
  show "realpath F (joined (render hp) x) = Inr (render (hp @ d))"
    using assms(2)
  proof (elim disjE conjE)
    assume "d \<noteq> []" "names_path x d"
    then have "joined (render hp) x = render (hp @ d)" using names_path_joined(1) e(8, 9) by simp
    then show ?thesis using realpath_canonical [OF e(6), of "hp @ d" Dir] e(3) len by (simp add: is_dir_def)
  qed (use root [of "[]"] root [of "''.''"] in \<open>simp_all add: joined_def is_abs_def\<close>)
qed

lemma entry_prefix: "hp \<noteq> [] \<Longrightarrow> prefix (render hp) (render (hp @ q))"
  by (simp add: render_append)

lemma entry_valid:
  assumes "entry_ok F hp d b" and "names_path c (d @ [b])"
  shows "f_ver_valid_resolve F (Some \<lparr>p_path = render hp\<rparr>) (Some c) = Inr (Some \<lparr>p_path = render (hp @ d @ [b])\<rparr>)"
proof -
  note e = entry_okD [OF assms(1)]
  have vq: "list_all valid_name (d @ [b])" using e(9) by simp
  note n = names_path_split [OF assms(2) vq]
  note r = resolve_dir [OF assms(1) n(2)]
  have b: "b \<noteq> ''.''" "b \<noteq> []" "\<not> is_abs b"
    using e(4) by (cases b; auto simp: valid_name_def is_abs_def)+
  then have dot: "\<not> (length b = 1 \<and> hd b = CHR ''.'')" by (cases b) auto
  have "joined (render (hp @ d)) b = render (hp @ d @ [b])"
    using b(3) render_snoc [of "hp @ d" b] e(8) by (simp add: joined_def)
  then show ?thesis using r n(1) dot e(5) entry_prefix [OF e(8), of "d @ [b]"]
    by (simp add: f_ver_valid_resolve_def f_valid_resolve_eq [OF e(10)])
qed

lemma entry_path:
  assumes "entry_ok F hp d b" and "names_path c (d @ [b])"
  shows "f_ver_path_resolve F (Some \<lparr>p_path = render hp\<rparr>) (Some c) =
    Inr (if lookup F (hp @ d @ [b]) = None then None else Some \<lparr>p_path = render (hp @ d @ [b])\<rparr>)"
proof -
  note e = entry_okD [OF assms(1)]
  note j = names_path_joined [OF assms(2) _ _ e(8)]
  have q: "joined (render hp) c = render (hp @ d @ [b])" "length c \<le> length (render (d @ [b]))"
    using j e(9) by simp_all
  have l: "length (render (hp @ d @ [b])) < PATH_MAX" using e(5) by simp
  have size: "\<not> PATH_MAX < length (render hp) + length c + SLASH_PLUS_NULL"
    using q(2) e(5) render_append [OF e(8), of "d @ [b]"] by (simp add: SLASH_PLUS_NULL_def)
  show ?thesis
  proof (cases "lookup F (hp @ d @ [b])")
    case None
    then have "realpath F (render (hp @ d @ [b])) = Inl ENOENT"
      using namei_missing [OF e(6, 3, 4)] l by (simp add: realpath_def)
    then show ?thesis using None size q(1)
      by (simp add: f_ver_path_resolve_def f_path_resolve_eq [OF e(10)])
  next
    case (Some n)
    then have "realpath F (render (hp @ d @ [b])) = Inr (render (hp @ d @ [b]))"
      using realpath_canonical [OF e(6) Some link_free_lookup [OF e(7) Some] l] by simp
    then show ?thesis using Some size q(1) entry_prefix [OF e(8), of "d @ [b]"]
      by (simp add: f_ver_path_resolve_def f_path_resolve_eq [OF e(10)])
  qed
qed

section \<open>Requests about one entry\<close>

text \<open>A request of an account in a session that is alive.\<close>

definition live :: "('u, 's) lib \<Rightarrow> env \<Rightarrow> ('u, 's) srv \<Rightarrow> wire_payload_t \<Rightarrow> user_account_t \<Rightarrow> bool" where
  "live L E S req u \<longleftrightarrow> login L (accounts_of L S) req = Some u \<and> wp_session_id req \<noteq> 0 \<and>
     (case sessions_of L S (wp_session_id req) of None \<Rightarrow> False | Some t \<Rightarrow> e_now E - t \<le> e_timeout E)"

lemma live_request:
  assumes "lib_ok L" and "db_inv L (sv_db S)" and "live L E S req u"
    and "dispatch L (touch L E S (wp_session_id req)) u req = Inr (resp, S')"
  shows "ctrl_request L E S req = Inr (resp, req, S')"
  using assms(3, 4) request_live [OF assms(1, 2)] by (auto simp: live_def split: option.splits)

text \<open>A request for the operation \<open>op\<close> on the entry \<open>b\<close> of the directory \<open>d\<close>.\<close>

definition entry_request :: "wire_payload_t \<Rightarrow> u32 \<Rightarrow> path \<Rightarrow> string \<Rightarrow> bool" where
  "entry_request req op d b \<longleftrightarrow> wp_opt_code req = op \<and>
     (case wp_payload req of
        Std_payload p \<Rightarrow> (case sp_path p of None \<Rightarrow> False | Some c \<Rightarrow> names_path c (d @ [b]))
      | _ \<Rightarrow> False)"

definition upload_of :: "wire_payload_t \<Rightarrow> bytes option" where
  "upload_of req =
    (case wp_payload req of
       Std_payload p \<Rightarrow>
         (case sp_byte_stream p of
            Some bs \<Rightarrow> if length bs = unat (sp_byte_stream_len p) then Some bs else None
          | None \<Rightarrow> None)
     | _ \<Rightarrow> None)"

lemma entry_requestE:
  assumes "entry_request req op d b"
  obtains p c where "wp_opt_code req = op" and "wp_payload req = Std_payload p" and "sp_path p = Some c"
    and "names_path c (d @ [b])"
  using assms by (auto simp: entry_request_def split: payload_ptr.splits option.splits)

section \<open>Uploading\<close>

text \<open>
  \<^verbatim>\<open>do_put_file\<close> looks whether the file exists, and writes it later. The two parts: the code of a refusal or
  what is to be written, and the writing, on a file system that may have changed in between.
\<close>

definition put_checked ::
  "('u, 's) srv \<Rightarrow> wire_payload_t \<Rightarrow> (ret_codes_t + verified_path_t option \<times> bytes option) run" where
  "put_checked S p_ld =
    rbind (p_std_payload (wp_payload p_ld)) (\<lambda>p_std.
    rbind (f_ver_path_resolve (sv_fs S) (p_home_dir (sv_db S)) (sp_path p_std)) (\<lambda>p_path.
      if p_path \<noteq> None then Inr (Inl OP_FILE_EXISTS)
      else
        rbind (f_ver_valid_resolve (sv_fs S) (p_home_dir (sv_db S)) (sp_path p_std)) (\<lambda>p_path.
          if p_path = None then Inr (Inl OP_RESOLVE_ERROR)
          else rbind (stream_arg p_std) (\<lambda>p_byte_stream. Inr (Inr (p_path, p_byte_stream))))))"

definition put_write :: "fs \<Rightarrow> ret_codes_t + verified_path_t option \<times> bytes option \<Rightarrow> ret_codes_t \<times> fs" where
  "put_write F c = (case c of Inl code \<Rightarrow> (code, F) | Inr (path, p_byte_stream) \<Rightarrow> f_write_file F path p_byte_stream)"

lemma do_put_file_parts:
  "do_put_file S p_ld = rbind (put_checked S p_ld) (\<lambda>c. Inr (put_write (sv_fs S) c))"
  by (auto simp: do_put_file_def put_checked_def put_write_def rbind_assoc intro!: rbind_cong)

lemma put_checked_new:
  assumes "p_home_dir (sv_db S) = Some \<lparr>p_path = render hp\<rparr>" and "entry_ok (sv_fs S) hp d b"
    and "entry_request req ACT_PUT_REMOTE_FILE d b" and "upload_of req = Some bs"
  shows "put_checked S req =
    Inr (if lookup (sv_fs S) (hp @ d @ [b]) = None then Inr (Some \<lparr>p_path = render (hp @ d @ [b])\<rparr>, Some bs)
         else Inl OP_FILE_EXISTS)"
proof -
  obtain p c where p: "wp_opt_code req = ACT_PUT_REMOTE_FILE" "wp_payload req = Std_payload p" "sp_path p = Some c"
    "names_path c (d @ [b])" by (rule entry_requestE [OF assms(3)])
  have "stream_arg p = Inr (Some bs)"
    using assms(4) p(2) by (auto simp: upload_of_def stream_arg_def split: option.splits if_splits)
  then show ?thesis using entry_path [OF assms(2) p(4)] entry_valid [OF assms(2) p(4)] assms(1)
    by (simp add: put_checked_def p)
qed

lemma put_write_plain:
  assumes "entry_ok F hp d b" and "plain_file F (hp @ d @ [b])"
  shows "put_write F (Inr (Some \<lparr>p_path = render (hp @ d @ [b])\<rparr>, Some bs)) =
    (OP_SUCCESS, put_node (hp @ d @ [b]) (File bs) F)"
proof -
  note e = entry_okD [OF assms(1)]
  have "f_write_file F (Some \<lparr>p_path = render ((hp @ d) @ [b])\<rparr>) (Some bs) =
      (OP_SUCCESS, put_node ((hp @ d) @ [b]) (File bs) F)"
    using e(5) assms(2) by (intro f_write_file_plain [OF e(6, 3, 4) _ _ e(2)]) simp_all
  then show ?thesis by (simp add: put_write_def)
qed

section \<open>The operations on one entry\<close>

lemma put_runs:
  assumes "lib_ok L" and "db_inv L (sv_db S)" and "p_home_dir (sv_db S) = Some \<lparr>p_path = render hp\<rparr>"
    and "entry_ok (sv_fs S) hp d b" and "lookup (sv_fs S) (hp @ d @ [b]) = None"
    and "live L E S req u" and "perm_READ_WRITE \<le> ua_permission u"
    and "entry_request req ACT_PUT_REMOTE_FILE d b" and "upload_of req = Some bs"
  shows "ctrl_request L E S req = Inr (set_resp OP_SUCCESS, req,
    (touch L E S (wp_session_id req))\<lparr>sv_fs := put_node (hp @ d @ [b]) (File bs) (sv_fs S)\<rparr>)"
proof (rule live_request [OF assms(1, 2, 6)])
  have op: "wp_opt_code req = ACT_PUT_REMOTE_FILE" using assms(8) by (simp add: entry_request_def)
  have "plain_file (sv_fs S) (hp @ d @ [b])" using assms(5) by (simp add: plain_file_def)
  then have "do_put_file (touch L E S (wp_session_id req)) req =
      Inr (OP_SUCCESS, put_node (hp @ d @ [b]) (File bs) (sv_fs S))"
    using put_checked_new [of "touch L E S (wp_session_id req)", OF _ _ assms(8, 9)] assms(3-5) put_write_plain [OF assms(4)]
    by (simp add: do_put_file_parts)
  then show "dispatch L (touch L E S (wp_session_id req)) u req = Inr (set_resp OP_SUCCESS,
      (touch L E S (wp_session_id req))\<lparr>sv_fs := put_node (hp @ d @ [b]) (File bs) (sv_fs S)\<rparr>)"
    using assms(7) by (simp add: dispatch_def op act_codes fs_result_def not_less)
qed

lemma get_runs:
  assumes "lib_ok L" and "db_inv L (sv_db S)" and "p_home_dir (sv_db S) = Some \<lparr>p_path = render hp\<rparr>"
    and "entry_ok (sv_fs S) hp d b" and "live L E S req u" and "entry_request req ACT_GET_REMOTE_FILE d b"
  shows "lookup (sv_fs S) (hp @ d @ [b]) = Some (File bs) \<Longrightarrow> bs \<noteq> [] \<Longrightarrow>
      ctrl_request L E S req = Inr ((set_resp OP_SUCCESS)\<lparr>resp_content :=
        Some \<lparr>fc_hash = \<lparr>h_size = SHA256_DIGEST_LENGTH, h_array = digest L bs\<rparr>, fc_stream = bs,
          fc_stream_size = length bs, fc_path = render (hp @ d @ [b])\<rparr>\<rparr>, req, touch L E S (wp_session_id req))"
    and "lookup (sv_fs S) (hp @ d @ [b]) = None \<Longrightarrow>
      ctrl_request L E S req = Inr (set_resp OP_RESOLVE_ERROR, req, touch L E S (wp_session_id req))"
proof -
  note e = entry_okD [OF assms(4)]
  obtain p c where p: "wp_opt_code req = ACT_GET_REMOTE_FILE" "wp_payload req = Std_payload p" "sp_path p = Some c"
    "names_path c (d @ [b])" by (rule entry_requestE [OF assms(6)])
  note path = entry_path [OF assms(4) p(4)]
  note live = live_request [OF assms(1, 2, 5)]
  show "ctrl_request L E S req = Inr ((set_resp OP_SUCCESS)\<lparr>resp_content :=
        Some \<lparr>fc_hash = \<lparr>h_size = SHA256_DIGEST_LENGTH, h_array = digest L bs\<rparr>, fc_stream = bs,
          fc_stream_size = length bs, fc_path = render (hp @ d @ [b])\<rparr>\<rparr>, req, touch L E S (wp_session_id req))"
    if f: "lookup (sv_fs S) (hp @ d @ [b]) = Some (File bs)" "bs \<noteq> []"
  proof (rule live)
    have "length (render (hp @ d @ [b])) < PATH_MAX" using e(5) by simp
    note rd = f_read_file_plain [OF e(6) f(1) this e(2), of "lib_sha256 L"]
    show "dispatch L (touch L E S (wp_session_id req)) u req = Inr ((set_resp OP_SUCCESS)\<lparr>resp_content :=
        Some \<lparr>fc_hash = \<lparr>h_size = SHA256_DIGEST_LENGTH, h_array = digest L bs\<rparr>, fc_stream = bs,
          fc_stream_size = length bs, fc_path = render (hp @ d @ [b])\<rparr>\<rparr>, touch L E S (wp_session_id req))"
      using path f rd by (simp add: dispatch_def do_get_file_def p assms(3) act_codes digest_def)
  qed
  show "ctrl_request L E S req = Inr (set_resp OP_RESOLVE_ERROR, req, touch L E S (wp_session_id req))"
    if "lookup (sv_fs S) (hp @ d @ [b]) = None"
    using path that by (intro live) (simp add: dispatch_def do_get_file_def p assms(3) act_codes)
qed

lemma del_runs:
  assumes "lib_ok L" and "db_inv L (sv_db S)" and "p_home_dir (sv_db S) = Some \<lparr>p_path = render hp\<rparr>"
    and "entry_ok (sv_fs S) hp d b" and "lookup (sv_fs S) (hp @ d @ [b]) = Some (File bs)"
    and "live L E S req u" and "perm_READ_WRITE \<le> ua_permission u"
    and "entry_request req ACT_DELETE_REMOTE_FILE d b"
  shows "ctrl_request L E S req = Inr (set_resp OP_SUCCESS, req,
    (touch L E S (wp_session_id req))\<lparr>sv_fs := del_node (hp @ d @ [b]) (sv_fs S)\<rparr>)"
proof (rule live_request [OF assms(1, 2, 6)])
  note e = entry_okD [OF assms(4)]
  obtain p c where p: "wp_opt_code req = ACT_DELETE_REMOTE_FILE" "wp_payload req = Std_payload p" "sp_path p = Some c"
    "names_path c (d @ [b])" by (rule entry_requestE [OF assms(8)])
  have "f_del_file (sv_fs S) (Some \<lparr>p_path = render (hp @ d @ [b])\<rparr>) = Inr (OP_SUCCESS, del_node (hp @ d @ [b]) (sv_fs S))"
    using f_del_file_canonical [OF e(6) assms(5)] e(2, 5) by (simp add: no_failures_def)
  then have "do_del_file (touch L E S (wp_session_id req)) req = Inr (OP_SUCCESS, del_node (hp @ d @ [b]) (sv_fs S))"
    using entry_path [OF assms(4) p(4)] assms(3, 5) by (simp add: do_del_file_def p)
  then show "dispatch L (touch L E S (wp_session_id req)) u req = Inr (set_resp OP_SUCCESS,
      (touch L E S (wp_session_id req))\<lparr>sv_fs := del_node (hp @ d @ [b]) (sv_fs S)\<rparr>)"
    using assms(7) by (simp add: dispatch_def p(1) act_codes fs_result_def not_less)
qed

section \<open>Over connections\<close>

text \<open>A connection over which the bytes of a request arrive and every write succeeds.\<close>

definition connection :: "wire_payload_t \<Rightarrow> conn" where
  "connection w = \<lparr>cn_sockopt = True, cn_in = arrive (enc_request w), cn_writes = []\<rparr>"

lemma connection_answers:
  assumes "lib_ok L" and "request_wf w" and "ctrl_request L E S w = Inr (resp, w', S')"
    and "length (resp_data resp) < 2 ^ 63"
  shows "\<exists>out. serve_client L E (\<lambda>_. True) S (connection w) = Inr (out, S') \<and>
    dec_response (concat out) =
      Some (word_of_nat (ret_code (resp_result resp)), wp_session_id w', get_err_msg (resp_result resp), resp_data resp)"
  using serve_client_answers [OF assms, of "[]"] by (simp add: connection_def)

lemma set_resp_data [simp]: "resp_data (set_resp code) = []" "resp_result (set_resp code) = code"
  by (simp_all add: resp_data_def set_resp_def)

text \<open>After an operation in a session, the next request in that session is served as well.\<close>

lemma live_next:
  assumes "lib_ok L" and "db_inv L (sv_db S)" and "login L (accounts_of L S) req = Some v" and "sid \<noteq> 0"
    and "wp_session_id req = sid" and "e_now E' - e_now E \<le> e_timeout E'"
  shows "live L E' ((touch L E S sid)\<lparr>sv_fs := F\<rparr>) req v"
    and "db_inv L (sv_db ((touch L E S sid)\<lparr>sv_fs := F\<rparr>))"
  using assms touch_ok [OF assms(1, 2), of E sid] by (simp_all add: live_def)

section \<open>Properties\<close>

text \<open>Property C11: a file sent over one connection comes back over a later one in the same session, with its
  digest in front.
\<close>

theorem upload_then_download:
  fixes E E' :: env
  assumes "lib_ok L" and "db_inv L (sv_db S)" and "p_home_dir (sv_db S) = Some \<lparr>p_path = render hp\<rparr>"
    and "entry_ok (sv_fs S) hp d b" and "lookup (sv_fs S) (hp @ d @ [b]) = None"
    and "request_wf put" and "live L E S put u" and "perm_READ_WRITE \<le> ua_permission u"
    and "entry_request put ACT_PUT_REMOTE_FILE d b" and "upload_of put = Some bs" and "bs \<noteq> []" and "length bs < 2 ^ 62"
    and "request_wf get" and "login L (accounts_of L S) get = Some v" and "wp_session_id get = wp_session_id put"
    and "e_now E' - e_now E \<le> e_timeout E'" and "entry_request get ACT_GET_REMOTE_FILE d b"
  shows "\<exists>out S1 out' S2. serve_client L E (\<lambda>_. True) S (connection put) = Inr (out, S1) \<and>
    serve_client L E' (\<lambda>_. True) S1 (connection get) = Inr (out', S2) \<and>
    dec_response (concat out') = Some (1, wp_session_id put, OP_1, digest L bs @ bs)"
proof -
  let ?q = "hp @ d @ [b]" and ?sid = "wp_session_id put"
  let ?S1 = "(touch L E S ?sid)\<lparr>sv_fs := put_node ?q (File bs) (sv_fs S)\<rparr>"
  note put = put_runs [OF assms(1-5, 7-10)]
  obtain out where out: "serve_client L E (\<lambda>_. True) S (connection put) = Inr (out, ?S1)"
    using connection_answers [OF assms(1, 6) put] by auto
  have sid: "?sid \<noteq> 0" using assms(7) by (simp add: live_def)
  note next_ok = live_next [OF assms(1, 2, 14) sid assms(15, 16), where F = "put_node ?q (File bs) (sv_fs S)"]
  have e1: "entry_ok (sv_fs ?S1) hp d b" using entry_ok_put [OF assms(4)] assms(5) by (simp add: plain_file_def)
  have f1: "lookup (sv_fs ?S1) ?q = Some (File bs)" by simp
  have h1: "p_home_dir (sv_db ?S1) = Some \<lparr>p_path = render hp\<rparr>" using assms(3) by simp
  note get = get_runs(1) [OF assms(1) next_ok(2) h1 e1 next_ok(1) assms(17) f1 assms(11)]
  have "length (digest L bs @ bs) < 2 ^ 63" using assms(1, 12) by (simp add: length_digest SHA256_DIGEST_LENGTH_def)
  then obtain out' S2 where "serve_client L E' (\<lambda>_. True) ?S1 (connection get) = Inr (out', S2)"
    "dec_response (concat out') = Some (1, ?sid, OP_1, digest L bs @ bs)"
    using connection_answers [OF assms(1, 13) get] assms(15) by (auto simp: resp_data_def set_resp_def)
  then show ?thesis using out by blast
qed

text \<open>The administrator stores three bytes as \<^verbatim>\<open>b\<close>, and Alice reads them.\<close>

definition sample_put :: wire_payload_t where
  "sample_put = (sample_req ''boss1'' ''hunter2'' 7 ACT_PUT_REMOTE_FILE
     (Std_payload \<lparr>sp_path_len = 1, sp_path = Some ''b'', sp_byte_stream = Some [1, 2, 3],
        sp_hash_stream = Some (replicate 32 0), sp_byte_stream_len = 3\<rparr>))\<lparr>wp_payload_len := 38\<rparr>"

definition sample_get_of :: "string \<Rightarrow> wire_payload_t" where
  "sample_get_of c = sample_req ''alice'' ''secret'' 7 ACT_GET_REMOTE_FILE (sample_path c)"

lemma sample_transfer_wf:
  "request_wf sample_put" "request_wf (sample_get_of ''/b'')" "request_wf (sample_get_of ''a'')"
  by (simp_all add: request_wf_def sample_put_def sample_get_of_def sample_path_def sample_req_def sized_def std_wf_def
      act_codes enc_payload_def enc_std_def c16.length_enc H_HASH_LEN_def SHA256_DIGEST_LENGTH_def)

lemma sample_transfer_names:
  "entry_request sample_put ACT_PUT_REMOTE_FILE [] ''b''" "upload_of sample_put = Some [1, 2, 3]"
  "entry_request (sample_get_of ''/b'') ACT_GET_REMOTE_FILE [] ''b''"
  "entry_request (sample_get_of ''a'') ACT_GET_REMOTE_FILE [] ''a''"
  "entry_request sample_delete ACT_DELETE_REMOTE_FILE [] ''a''"
  by (simp_all add: entry_request_def upload_of_def sample_put_def sample_get_of_def sample_delete_def sample_path_def
      sample_req_def names_path_def render_def)

lemma sample_transfer_users:
  "login sample_lib (accounts_of sample_lib sample_srv2) sample_put = Some (new_account sample_lib ''boss1'' ''hunter2'' 3)"
  "login sample_lib (accounts_of sample_lib sample_srv2) sample_delete = Some (new_account sample_lib ''boss1'' ''hunter2'' 3)"
  "login sample_lib (accounts_of sample_lib sample_srv2) (sample_get_of c) = Some (new_account sample_lib ''alice'' ''secret'' 1)"
  "perm_READ_WRITE \<le> ua_permission (new_account sample_lib ''boss1'' ''hunter2'' 3)"
proof -
  have "login L U (req\<lparr>wp_payload_len := n\<rparr>) = login L U req" for L :: "('a, 'b) lib" and U req n
    by (simp add: login_def)
  then show "login sample_lib (accounts_of sample_lib sample_srv2) sample_put = Some (new_account sample_lib ''boss1'' ''hunter2'' 3)"
    "login sample_lib (accounts_of sample_lib sample_srv2) sample_delete = Some (new_account sample_lib ''boss1'' ''hunter2'' 3)"
    "login sample_lib (accounts_of sample_lib sample_srv2) (sample_get_of c) = Some (new_account sample_lib ''alice'' ''secret'' 1)"
    unfolding sample_srv2_simps(6) sample_put_def sample_delete_def sample_get_of_def
    using sample_login by (simp_all add: login_def)
  show "perm_READ_WRITE \<le> ua_permission (new_account sample_lib ''boss1'' ''hunter2'' 3)"
    by (simp add: new_account_def perm_codes)
qed

lemma sample_transfer_session:
  "wp_session_id sample_put = 7" "wp_session_id sample_delete = 7" "wp_session_id (sample_get_of c) = 7"
  by (simp_all add: sample_put_def sample_delete_def sample_get_of_def)

lemma sample_transfer_live:
  "live sample_lib (sample_env 130) sample_srv2 sample_put (new_account sample_lib ''boss1'' ''hunter2'' 3)"
  "live sample_lib (sample_env 130) sample_srv2 sample_delete (new_account sample_lib ''boss1'' ''hunter2'' 3)"
  using sample_transfer_users sample_transfer_session sample_srv2_simps(5) by (simp_all add: live_def sample_env_def)

lemma sample_entry_ok:
  "valid_name b \<Longrightarrow> length b \<le> 20 \<Longrightarrow> entry_ok (sv_fs sample_srv2) sample_home [] b"
proof -
  assume b: "valid_name b" "length b \<le> 20"
  note s = storage_okD [OF sample_srv2_simps(3)]
  have "length (render (sample_home @ [b])) = 10 + length b"
    using render_snoc [OF s(8), of b] by (simp add: render_sample_home)
  then show ?thesis using s(1, 3) b home_okD(3) [OF s(1)] by (simp add: entry_ok_def PATH_MAX_def)
qed

theorem upload_then_download_witness:
  "\<exists>out S1 out' S2. serve_client sample_lib (sample_env 130) (\<lambda>_. True) sample_srv2 (connection sample_put) = Inr (out, S1) \<and>
    serve_client sample_lib (sample_env 150) (\<lambda>_. True) S1 (connection (sample_get_of ''/b'')) = Inr (out', S2) \<and>
    dec_response (concat out') = Some (1, 7, OP_1, digest sample_lib [1, 2, 3] @ [1, 2, 3])"
proof -
  note S = sample_srv2_simps and n = sample_transfer_names and l = sample_transfer_session
  have e: "entry_ok (sv_fs sample_srv2) sample_home [] ''b''" by (rule sample_entry_ok) (simp_all add: valid_name_def NAME_MAX_def)
  have none: "lookup (sv_fs sample_srv2) (sample_home @ [] @ [''b'']) = None"
    unfolding S(1) by code_simp
  show ?thesis
    using upload_then_download [OF sample_lib_ok S(2, 4) e none sample_transfer_wf(1) sample_transfer_live(1)
        sample_transfer_users(4) n(1, 2) _ _ sample_transfer_wf(2) sample_transfer_users(3) _ _ n(3), of "sample_env 150"]
    by (simp add: l sample_env_def)
qed

text \<open>A file that was deleted over one connection is no longer found over a later one.\<close>

theorem delete_then_download:
  fixes E E' :: env
  assumes "lib_ok L" and "db_inv L (sv_db S)" and "p_home_dir (sv_db S) = Some \<lparr>p_path = render hp\<rparr>"
    and "entry_ok (sv_fs S) hp d b" and "lookup (sv_fs S) (hp @ d @ [b]) = Some (File bs)"
    and "request_wf del" and "live L E S del u" and "perm_READ_WRITE \<le> ua_permission u"
    and "entry_request del ACT_DELETE_REMOTE_FILE d b"
    and "request_wf get" and "login L (accounts_of L S) get = Some v" and "wp_session_id get = wp_session_id del"
    and "e_now E' - e_now E \<le> e_timeout E'" and "entry_request get ACT_GET_REMOTE_FILE d b"
  shows "\<exists>out S1 out' S2. serve_client L E (\<lambda>_. True) S (connection del) = Inr (out, S1) \<and>
    serve_client L E' (\<lambda>_. True) S1 (connection get) = Inr (out', S2) \<and>
    dec_response (concat out') =
      Some (word_of_nat (ret_code OP_RESOLVE_ERROR), wp_session_id del, get_err_msg OP_RESOLVE_ERROR, [])"
proof -
  let ?q = "hp @ d @ [b]" and ?sid = "wp_session_id del"
  let ?S1 = "(touch L E S ?sid)\<lparr>sv_fs := del_node ?q (sv_fs S)\<rparr>"
  note del = del_runs [OF assms(1-5, 7-9)]
  obtain out where out: "serve_client L E (\<lambda>_. True) S (connection del) = Inr (out, ?S1)"
    using connection_answers [OF assms(1, 6) del] by auto
  have sid: "?sid \<noteq> 0" using assms(7) by (simp add: live_def)
  note next_ok = live_next [OF assms(1, 2, 11) sid assms(12, 13), where F = "del_node ?q (sv_fs S)"]
  have e1: "entry_ok (sv_fs ?S1) hp d b" using entry_ok_del [OF assms(4, 5)] by simp
  have f1: "lookup (sv_fs ?S1) ?q = None" by simp
  have h1: "p_home_dir (sv_db ?S1) = Some \<lparr>p_path = render hp\<rparr>" using assms(3) by simp
  note get = get_runs(2) [OF assms(1) next_ok(2) h1 e1 next_ok(1) assms(14) f1]
  obtain out' S2 where "serve_client L E' (\<lambda>_. True) ?S1 (connection get) = Inr (out', S2)"
    "dec_response (concat out') =
      Some (word_of_nat (ret_code OP_RESOLVE_ERROR), ?sid, get_err_msg OP_RESOLVE_ERROR, [])"
    using connection_answers [OF assms(1, 10) get] assms(12) by auto
  then show ?thesis using out by blast
qed

theorem delete_then_download_witness:
  "\<exists>out S1 out' S2. serve_client sample_lib (sample_env 130) (\<lambda>_. True) sample_srv2 (connection sample_delete) = Inr (out, S1) \<and>
    serve_client sample_lib (sample_env 150) (\<lambda>_. True) S1 (connection (sample_get_of ''a'')) = Inr (out', S2) \<and>
    dec_response (concat out') =
      Some (word_of_nat (ret_code OP_RESOLVE_ERROR), 7, get_err_msg OP_RESOLVE_ERROR, [])"
proof -
  note S = sample_srv2_simps and n = sample_transfer_names and l = sample_transfer_session
  have e: "entry_ok (sv_fs sample_srv2) sample_home [] ''a''" by (rule sample_entry_ok) (simp_all add: valid_name_def NAME_MAX_def)
  have "case lookup (sv_fs sample_srv2) (sample_home @ [] @ [''a'']) of Some (File bs) \<Rightarrow> True | _ \<Rightarrow> False"
    unfolding S(1) by code_simp
  then obtain bs where f: "lookup (sv_fs sample_srv2) (sample_home @ [] @ [''a'']) = Some (File bs)"
    by (auto split: option.splits node.splits)
  show ?thesis
    using delete_then_download [OF sample_lib_ok S(2, 4) e f sample_get_wf(2) sample_transfer_live(2)
        sample_transfer_users(4) n(5) sample_transfer_wf(3) sample_transfer_users(3) _ _ n(4), of "sample_env 150"]
    by (simp add: l sample_env_def)
qed

text \<open>Property C10: two uploads of the same new file, one after the other and at the same time. In order, the second
  is refused. When both look before either writes, both report success, and the first upload is lost.
\<close>

theorem concurrent_uploads:
  assumes "p_home_dir (sv_db S) = Some \<lparr>p_path = render hp\<rparr>" and "entry_ok (sv_fs S) hp d b"
    and "lookup (sv_fs S) (hp @ d @ [b]) = None"
    and "entry_request w1 ACT_PUT_REMOTE_FILE d b" and "upload_of w1 = Some bs1"
    and "entry_request w2 ACT_PUT_REMOTE_FILE d b" and "upload_of w2 = Some bs2"
  shows "\<exists>F1 F2 c1 c2. do_put_file S w1 = Inr (OP_SUCCESS, F1) \<and>
    do_put_file (S\<lparr>sv_fs := F1\<rparr>) w2 = Inr (OP_FILE_EXISTS, F1) \<and>
    put_checked S w1 = Inr c1 \<and> put_checked S w2 = Inr c2 \<and>
    put_write (sv_fs S) c1 = (OP_SUCCESS, F1) \<and> put_write F1 c2 = (OP_SUCCESS, F2) \<and>
    lookup F1 (hp @ d @ [b]) = Some (File bs1) \<and> lookup F2 (hp @ d @ [b]) = Some (File bs2)"
proof -
  let ?q = "hp @ d @ [b]"
  let ?F1 = "put_node ?q (File bs1) (sv_fs S)"
  have plain: "plain_file (sv_fs S) ?q" using assms(3) by (simp add: plain_file_def)
  have e1: "entry_ok ?F1 hp d b" by (rule entry_ok_put [OF assms(2) plain])
  have plain1: "plain_file ?F1 ?q" by (simp add: plain_file_def)
  note c = put_checked_new [OF assms(1, 2, 4, 5)] put_checked_new [OF assms(1, 2, 6, 7)]
  note c' = put_checked_new [of "S\<lparr>sv_fs := ?F1\<rparr>", OF _ _ assms(6, 7)]
  note w = put_write_plain [OF assms(2) plain, of bs1] put_write_plain [OF e1 plain1, of bs2]
  have "do_put_file S w1 = Inr (OP_SUCCESS, ?F1)" using c(1) assms(3) w(1) by (simp add: do_put_file_parts)
  moreover have "do_put_file (S\<lparr>sv_fs := ?F1\<rparr>) w2 = Inr (OP_FILE_EXISTS, ?F1)"
    using c' [of hp] assms(1) e1 by (simp add: do_put_file_parts put_write_def)
  ultimately show ?thesis using c assms(3) w by auto
qed

theorem concurrent_uploads_witness:
  "\<exists>F1 F2 c1 c2. put_checked sample_srv2 sample_put = Inr c1 \<and>
    put_checked sample_srv2 (sample_put\<lparr>wp_session_id := 8\<rparr>) = Inr c2 \<and>
    put_write (sv_fs sample_srv2) c1 = (OP_SUCCESS, F1) \<and> put_write F1 c2 = (OP_SUCCESS, F2)"
proof -
  note S = sample_srv2_simps
  have e: "entry_ok (sv_fs sample_srv2) sample_home [] ''b''" by (rule sample_entry_ok) (simp_all add: valid_name_def NAME_MAX_def)
  have none: "lookup (sv_fs sample_srv2) (sample_home @ [] @ [''b'']) = None"
    unfolding S(1) by code_simp
  have "entry_request (sample_put\<lparr>wp_session_id := 8\<rparr>) ACT_PUT_REMOTE_FILE [] ''b''"
    "upload_of (sample_put\<lparr>wp_session_id := 8\<rparr>) = Some [1, 2, 3]"
    using sample_transfer_names(1, 2) by (simp_all add: entry_request_def upload_of_def)
  from concurrent_uploads [OF S(4) e none sample_transfer_names(1, 2) this] show ?thesis by blast
qed

end
