(* ===== verification/Memory.thy ===== *)
theory Memory
  imports Sock
begin

text \<open>
  Releasing memory: the destroy functions of \<^verbatim>\<open>server_crypto.c\<close>, \<^verbatim>\<open>server_file_api.c\<close>,
  \<^verbatim>\<open>server_db.c\<close>, \<^verbatim>\<open>server_ctrl.c\<close>, \<^verbatim>\<open>server_sock.c\<close> and \<^verbatim>\<open>server_args.c\<close>, over a heap of allocated blocks. The other
  theories have values where the C code has blocks; here a block holds the pointers of its structure, and
  freeing a block twice or reaching one that was freed is a fault.
\<close>

section \<open>The heap\<close>

type_synonym addr = nat

text \<open>One constructor per structure, with its pointers in the order of its declaration.\<close>

datatype cell =
    Bytes_cell
  | Hash_cell "addr option"
  | Path_cell "addr option"
  | Content_cell "addr option" "addr option" "addr option"
  | Resp_cell "addr option"
  | Std_cell "addr option" "addr option" "addr option"
  | User_cell "addr option" "addr option"
  | Wire_cell "addr option" "addr option" payload_type_t "addr option"
  | Account_cell "addr option" "addr option"
  | Worker_cell int
  | Args_cell "addr option"

type_synonym heap = "(addr \<times> cell) list"

text \<open>\<^verbatim>\<open>free(NULL)\<close> does nothing.\<close>

definition free :: "addr option \<Rightarrow> heap \<Rightarrow> heap run" where
  "free p h =
    (case p of
       None \<Rightarrow> Inr h
     | Some a \<Rightarrow> if map_of h a = None then Inl Double_free else Inr (AList.delete a h))"

definition load :: "addr option \<Rightarrow> heap \<Rightarrow> cell run" where
  "load p h =
    (case p of
       None \<Rightarrow> Inl Null_deref
     | Some a \<Rightarrow> (case map_of h a of None \<Rightarrow> Inl Use_after_free | Some c \<Rightarrow> Inr c))"

definition store :: "addr option \<Rightarrow> cell \<Rightarrow> heap \<Rightarrow> heap run" where
  "store p c h = rbind (load p h) (\<lambda>_. Inr (AList.update (the p) c h))"

fun free_all :: "addr option list \<Rightarrow> heap \<Rightarrow> heap run" where
  "free_all [] h = Inr h"
| "free_all (p # ps) h = rbind (free p h) (free_all ps)"

section \<open>The destroy functions\<close>

text \<open>
  Each takes a pointer to a pointer: \<open>None\<close> is NULL, \<open>Some p\<close> a variable that holds \<open>p\<close>. The result is
  what the variable holds afterwards.
\<close>

type_synonym destroyed = "(addr option option \<times> heap) run"

definition hash_destroy :: "addr option option \<Rightarrow> heap \<Rightarrow> destroyed" where
  "hash_destroy pp_hash h =
    (case pp_hash of
       Some (Some p_hash) \<Rightarrow>
         rbind (load (Some p_hash) h) (\<lambda>c.
           case c of
             Hash_cell array \<Rightarrow>
               rbind (free array h) (\<lambda>h.
               rbind (store (Some p_hash) (Hash_cell None) h) (\<lambda>h.
               rbind (free (Some p_hash) h) (\<lambda>h. Inr (Some None, h))))
           | _ \<Rightarrow> Inl Wrong_member)
     | _ \<Rightarrow> Inr (pp_hash, h))"

definition f_destroy_path :: "addr option option \<Rightarrow> heap \<Rightarrow> destroyed" where
  "f_destroy_path pp_path h =
    (case pp_path of
       Some (Some p_ver) \<Rightarrow>
         rbind (load (Some p_ver) h) (\<lambda>c.
           case c of
             Path_cell path \<Rightarrow>
               rbind (if path = None then Inr h
                      else rbind (free path h) (\<lambda>h. store (Some p_ver) (Path_cell None) h)) (\<lambda>h.
               rbind (free (Some p_ver) h) (\<lambda>h. Inr (Some None, h)))
           | _ \<Rightarrow> Inl Wrong_member)
     | _ \<Rightarrow> Inr (pp_path, h))"

definition f_destroy_content :: "addr option option \<Rightarrow> heap \<Rightarrow> destroyed" where
  "f_destroy_content pp_content h =
    (case pp_content of
       Some (Some p_content) \<Rightarrow>
         rbind (load (Some p_content) h) (\<lambda>c.
           case c of
             Content_cell p_hash p_stream path \<Rightarrow>
               rbind (hash_destroy (Some p_hash) h) (\<lambda>(_, h).
               rbind (free_all [p_stream, path] h) (\<lambda>h.
               rbind (store (Some p_content) (Content_cell None None None) h) (\<lambda>h.
               rbind (free (Some p_content) h) (\<lambda>h. Inr (Some None, h)))))
           | _ \<Rightarrow> Inl Wrong_member)
     | _ \<Rightarrow> Inr (pp_content, h))"

definition destroy_resp :: "addr option option \<Rightarrow> heap \<Rightarrow> destroyed" where
  "destroy_resp pp_resp h =
    (case pp_resp of
       Some (Some p_resp) \<Rightarrow>
         rbind (load (Some p_resp) h) (\<lambda>c.
           case c of
             Resp_cell p_content \<Rightarrow>
               rbind (f_destroy_content (Some p_content) h) (\<lambda>(_, h).
               rbind (store (Some p_resp) (Resp_cell None) h) (\<lambda>h.
               rbind (free (Some p_resp) h) (\<lambda>h. Inr (Some None, h))))
           | _ \<Rightarrow> Inl Wrong_member)
     | _ \<Rightarrow> Inr (pp_resp, h))"

text \<open>The structure the union of a request points to, released according to the type of the request.\<close>

definition destroy_union ::
  "addr \<Rightarrow> addr option \<Rightarrow> addr option \<Rightarrow> payload_type_t \<Rightarrow> addr option \<Rightarrow> heap \<Rightarrow> heap run" where
  "destroy_union p_payload p_username p_passwd type p_ld h =
    (case type of
       STD_PAYLOAD \<Rightarrow>
         rbind (load p_ld h) (\<lambda>c.
           case c of
             Std_cell path p_byte_stream p_hash_stream \<Rightarrow>
               rbind (free_all [path, p_byte_stream] h) (\<lambda>h.
               rbind (store p_ld (Std_cell None None None) h) (\<lambda>h.
               rbind (free p_ld h) (\<lambda>h.
                 store (Some p_payload) (Wire_cell p_username p_passwd type None) h)))
           | _ \<Rightarrow> Inl Wrong_member)
     | USER_PAYLOAD \<Rightarrow>
         rbind (load p_ld h) (\<lambda>c.
           case c of
             User_cell user_name user_passwd \<Rightarrow>
               rbind (free_all [user_name, user_passwd] h) (\<lambda>h.
               rbind (store p_ld (User_cell None None) h) (\<lambda>h.
               rbind (free p_ld h) (\<lambda>h.
                 store (Some p_payload) (Wire_cell p_username p_passwd type None) h)))
           | _ \<Rightarrow> Inl Wrong_member)
     | NO_PAYLOAD \<Rightarrow> Inr h)"

definition ctrl_destroy ::
  "addr option option \<Rightarrow> addr option option \<Rightarrow> bool \<Rightarrow> heap \<Rightarrow> (addr option option \<times> addr option option \<times> heap) run" where
  "ctrl_destroy pp_payload pp_res free_wire_payload h =
    rbind (destroy_resp pp_res h) (\<lambda>(pp_res, h).
      case pp_payload of
        Some (Some p_payload) \<Rightarrow>
          rbind (load (Some p_payload) h) (\<lambda>c.
            case c of
              Wire_cell p_username p_passwd type p_ld \<Rightarrow>
                rbind (destroy_union p_payload p_username p_passwd type p_ld h) (\<lambda>h.
                rbind (free_all [p_username, p_passwd] h) (\<lambda>h.
                rbind (store (Some p_payload) (Wire_cell None None NO_PAYLOAD None) h) (\<lambda>h.
                  if free_wire_payload then
                    rbind (free (Some p_payload) h) (\<lambda>h. Inr (Some None, pp_res, h))
                  else Inr (pp_payload, pp_res, h))))
            | _ \<Rightarrow> Inl Wrong_member)
      | _ \<Rightarrow> Inr (pp_payload, pp_res, h))"

text \<open>The callbacks the tables release their values with.\<close>

definition sesh_free_callback :: "addr option \<Rightarrow> heap \<Rightarrow> heap run" where
  "sesh_free_callback payload h = free payload h"

definition db_free_value_callback :: "addr option \<Rightarrow> heap \<Rightarrow> heap run" where
  "db_free_value_callback payload h =
    (case payload of
       None \<Rightarrow> Inr h
     | Some s \<Rightarrow>
         rbind (load (Some s) h) (\<lambda>c.
           case c of
             Account_cell p_username p_hash \<Rightarrow>
               rbind (free p_username h) (\<lambda>h.
               rbind (hash_destroy (Some p_hash) h) (\<lambda>(_, h).
               rbind (store (Some s) (Account_cell None None) h) (\<lambda>h. free (Some s) h)))
           | _ \<Rightarrow> Inl Wrong_member))"

text \<open>The worker also closes its connection; the descriptors that were closed are part of the result.\<close>

definition destroy_worker_pld :: "addr option option \<Rightarrow> heap \<Rightarrow> (addr option option \<times> int list \<times> heap) run" where
  "destroy_worker_pld pp_ld h =
    (case pp_ld of
       Some (Some p_ld) \<Rightarrow>
         rbind (load (Some p_ld) h) (\<lambda>c.
           case c of
             Worker_cell fd \<Rightarrow>
               rbind (store (Some p_ld) (Worker_cell 0) h) (\<lambda>h.
               rbind (free (Some p_ld) h) (\<lambda>h. Inr (Some None, [fd], h)))
           | _ \<Rightarrow> Inl Wrong_member)
     | _ \<Rightarrow> Inr (pp_ld, [], h))"

definition args_destroy :: "addr option option \<Rightarrow> heap \<Rightarrow> destroyed" where
  "args_destroy pp_args h =
    (case pp_args of
       Some (Some p_args) \<Rightarrow>
         rbind (load (Some p_args) h) (\<lambda>c.
           case c of
             Args_cell p_home_directory \<Rightarrow>
               rbind (f_destroy_path (Some p_home_directory) h) (\<lambda>(_, h).
               rbind (store (Some p_args) (Args_cell None) h) (\<lambda>h.
               rbind (free (Some p_args) h) (\<lambda>h. Inr (Some None, h))))
           | _ \<Rightarrow> Inl Wrong_member)
     | _ \<Rightarrow> Inr (pp_args, h))"

section \<open>What the destroy functions release\<close>

text \<open>The blocks a list of pointers names, all of them different and allocated.\<close>

definition opt :: "addr option \<Rightarrow> addr list" where
  "opt p = (case p of None \<Rightarrow> [] | Some a \<Rightarrow> [a])"

lemma opt_simps [simp]: "opt None = []" "opt (Some a) = [a]"
  by (simp_all add: opt_def)

definition alive :: "heap \<Rightarrow> addr list \<Rightarrow> bool" where
  "alive h as \<longleftrightarrow> distinct as \<and> list_all (\<lambda>a. map_of h a \<noteq> None) as"

text \<open>\<open>h'\<close> is \<open>h\<close> without the blocks \<open>as\<close>.\<close>

definition without :: "heap \<Rightarrow> addr list \<Rightarrow> heap \<Rightarrow> bool" where
  "without h as h' \<longleftrightarrow> map_of h' = map_of h |` (- set as)"

lemma restrict_UNIV [simp]: "m |` UNIV = m"
  by (simp add: restrict_map_def)

lemma without_Nil [simp]: "without h [] h"
  by (simp add: without_def)

lemma without_trans: "without h as h1 \<Longrightarrow> without h1 bs h2 \<Longrightarrow> without h (as @ bs) h2"
  by (simp add: without_def Int_commute)

lemma without_alive: "without h as h' \<Longrightarrow> alive h (as @ bs) \<Longrightarrow> alive h' bs"
  by (auto simp: without_def alive_def list_all_iff restrict_map_def)

lemma without_map: "without h as h' \<Longrightarrow> a \<notin> set as \<Longrightarrow> map_of h' a = map_of h a"
  by (simp add: without_def)

lemma without_set: "without h as h' \<Longrightarrow> set as = set bs \<Longrightarrow> without h bs h'"
  by (simp add: without_def)

lemma free_runs:
  assumes "map_of h a \<noteq> None"
  obtains h' where "free (Some a) h = Inr h'" and "without h [a] h'"
proof
  show "free (Some a) h = Inr (AList.delete a h)" using assms by (simp add: free_def)
  show "without h [a] (AList.delete a h)"
    by (auto simp: without_def delete_conv' restrict_map_def fun_eq_iff)
qed

lemma free_all_runs:
  assumes "alive h (concat (map opt ps))"
  obtains h' where "free_all ps h = Inr h'" and "without h (concat (map opt ps)) h'"
  using assms
proof (induction ps arbitrary: h thesis)
  case Nil
  then show ?case by (simp add: without_def)
next
  case (Cons p ps)
  show ?case
  proof (cases p)
    case None
    then show ?thesis using Cons.IH [of h] Cons.prems by (auto simp: free_def)
  next
    case (Some a)
    then have "map_of h a \<noteq> None" using Cons.prems(2) by (simp add: alive_def)
    then obtain h1 where h1: "free (Some a) h = Inr h1" "without h [a] h1" by (rule free_runs)
    have "alive h1 (concat (map opt ps))" using without_alive [OF h1(2)] Cons.prems(2) Some by simp
    then obtain h' where "free_all ps h1 = Inr h'" "without h1 (concat (map opt ps)) h'" using Cons.IH by blast
    then show ?thesis using Cons.prems(1) h1 Some without_trans [OF h1(2)] by simp
  qed
qed

text \<open>A structure is cleared and then freed.\<close>

lemma clear_runs:
  assumes "map_of h a \<noteq> None"
  obtains h1 h' where "store (Some a) c h = Inr h1" and "free (Some a) h1 = Inr h'" and "without h [a] h'"
proof -
  have s: "store (Some a) c h = Inr (AList.update a c h)" using assms by (auto simp: store_def load_def)
  have "map_of (AList.update a c h) a \<noteq> None" by (simp add: update_conv')
  then obtain h' where "free (Some a) (AList.update a c h) = Inr h'" "without (AList.update a c h) [a] h'"
    by (rule free_runs)
  moreover have "without h [a] h'" using calculation(2) by (simp add: without_def update_conv' restrict_map_def fun_eq_iff)
  ultimately show thesis using that s by blast
qed

definition hash_blocks :: "heap \<Rightarrow> addr option \<Rightarrow> addr list" where
  "hash_blocks h p =
    (case p of None \<Rightarrow> [] | Some a \<Rightarrow> (case map_of h a of Some (Hash_cell x) \<Rightarrow> opt x @ [a] | _ \<Rightarrow> [a]))"

definition content_blocks :: "heap \<Rightarrow> addr option \<Rightarrow> addr list" where
  "content_blocks h p =
    (case p of None \<Rightarrow> []
     | Some a \<Rightarrow>
         (case map_of h a of
            Some (Content_cell q x y) \<Rightarrow> hash_blocks h q @ opt x @ opt y @ [a] | _ \<Rightarrow> [a]))"

definition resp_blocks :: "heap \<Rightarrow> addr option \<Rightarrow> addr list" where
  "resp_blocks h p =
    (case p of None \<Rightarrow> []
     | Some a \<Rightarrow> (case map_of h a of Some (Resp_cell c) \<Rightarrow> content_blocks h c @ [a] | _ \<Rightarrow> [a]))"

text \<open>The structures behind the pointers are of their types.\<close>

definition hash_typed :: "heap \<Rightarrow> addr option \<Rightarrow> bool" where
  "hash_typed h p = (case p of None \<Rightarrow> True | Some a \<Rightarrow> (case map_of h a of Some (Hash_cell x) \<Rightarrow> True | _ \<Rightarrow> False))"

definition content_typed :: "heap \<Rightarrow> addr option \<Rightarrow> bool" where
  "content_typed h p =
    (case p of None \<Rightarrow> True
     | Some a \<Rightarrow> (case map_of h a of Some (Content_cell q x y) \<Rightarrow> hash_typed h q | _ \<Rightarrow> False))"

definition resp_typed :: "heap \<Rightarrow> addr option \<Rightarrow> bool" where
  "resp_typed h p =
    (case p of None \<Rightarrow> True
     | Some a \<Rightarrow> (case map_of h a of Some (Resp_cell c) \<Rightarrow> content_typed h c | _ \<Rightarrow> False))"

lemma hash_destroy_runs:
  assumes "hash_typed h p" and "alive h (hash_blocks h p)"
  obtains h' where "hash_destroy (Some p) h = Inr (Some None, h')" and "without h (hash_blocks h p) h'"
proof (cases p)
  case None
  then show thesis using that [of h] by (simp add: hash_destroy_def hash_blocks_def without_def)
next
  case (Some a)
  then obtain x where x: "map_of h a = Some (Hash_cell x)"
    using assms(1) by (auto simp: hash_typed_def split: option.splits cell.splits)
  have al: "alive h (opt x @ [a])" using assms(2) Some x by (simp add: hash_blocks_def)
  then obtain h1 where h1: "free x h = Inr h1" "without h (opt x) h1"
    using free_all_runs [of h "[x]"] by (auto simp: alive_def rbind_eq_Inr_iff)
  have "map_of h1 a \<noteq> None" using without_alive [OF h1(2) al] by (simp add: alive_def)
  then obtain h2 h' where "store (Some a) (Hash_cell None) h1 = Inr h2" "free (Some a) h2 = Inr h'" "without h1 [a] h'"
    by (rule clear_runs)
  then show thesis using that [of h'] h1 x Some without_trans [OF h1(2)]
    by (simp add: hash_destroy_def hash_blocks_def load_def)
qed

lemma content_destroy_runs:
  assumes "content_typed h p" and "alive h (content_blocks h p)"
  obtains h' where "f_destroy_content (Some p) h = Inr (Some None, h')" and "without h (content_blocks h p) h'"
proof (cases p)
  case None
  then show thesis using that [of h] by (simp add: f_destroy_content_def content_blocks_def)
next
  case (Some a)
  then obtain q x y where c: "map_of h a = Some (Content_cell q x y)" "hash_typed h q"
    using assms(1) by (auto simp: content_typed_def split: option.splits cell.splits)
  have al: "alive h (hash_blocks h q @ concat (map opt [x, y]) @ [a])"
    using assms(2) Some c by (simp add: content_blocks_def)
  then obtain h1 where h1: "hash_destroy (Some q) h = Inr (Some None, h1)" "without h (hash_blocks h q) h1"
    using hash_destroy_runs [OF c(2)] by (auto simp: alive_def)
  note al1 = without_alive [OF h1(2) al]
  then obtain h2 where h2: "free_all [x, y] h1 = Inr h2" "without h1 (concat (map opt [x, y])) h2"
    using free_all_runs [of h1 "[x, y]"] by (auto simp: alive_def simp del: free_all.simps)
  have "map_of h2 a \<noteq> None" using without_alive [OF h2(2) al1] by (simp add: alive_def)
  then obtain h3 h' where h3: "store (Some a) (Content_cell None None None) h2 = Inr h3" "free (Some a) h3 = Inr h'"
    "without h2 [a] h'"
    by (rule clear_runs)
  have "without h (content_blocks h p) h'"
    using without_trans [OF without_trans [OF h1(2) h2(2)] h3(3)] Some c by (simp add: content_blocks_def)
  then show thesis using that [of h'] h1 h2 h3 c Some
    by (simp add: f_destroy_content_def load_def del: free_all.simps)
qed

lemma resp_destroy_runs:
  assumes "resp_typed h p" and "alive h (resp_blocks h p)"
  obtains h' where "destroy_resp (Some p) h = Inr (Some None, h')" and "without h (resp_blocks h p) h'"
proof (cases p)
  case None
  then show thesis using that [of h] by (simp add: destroy_resp_def resp_blocks_def)
next
  case (Some a)
  then obtain q where c: "map_of h a = Some (Resp_cell q)" "content_typed h q"
    using assms(1) by (auto simp: resp_typed_def split: option.splits cell.splits)
  have al: "alive h (content_blocks h q @ [a])" using assms(2) Some c by (simp add: resp_blocks_def)
  then obtain h1 where h1: "f_destroy_content (Some q) h = Inr (Some None, h1)" "without h (content_blocks h q) h1"
    using content_destroy_runs [OF c(2)] by (auto simp: alive_def)
  have "map_of h1 a \<noteq> None" using without_alive [OF h1(2) al] by (simp add: alive_def)
  then obtain h2 h' where h2: "store (Some a) (Resp_cell None) h1 = Inr h2" "free (Some a) h2 = Inr h'" "without h1 [a] h'"
    by (rule clear_runs)
  then show thesis using that [of h'] h1 c Some without_trans [OF h1(2) h2(3)]
    by (simp add: destroy_resp_def resp_blocks_def load_def)
qed

text \<open>
  The structure the union points to. Its blocks are those the request owns; which of them are released
  depends on the type field of the request.
\<close>

definition payload_blocks :: "heap \<Rightarrow> addr option \<Rightarrow> addr list" where
  "payload_blocks h l =
    (case l of None \<Rightarrow> []
     | Some b \<Rightarrow>
         (case map_of h b of
            Some (Std_cell x y z) \<Rightarrow> opt x @ opt y @ [b]
          | Some (User_cell x y) \<Rightarrow> opt x @ opt y @ [b]
          | _ \<Rightarrow> [b]))"

definition payload_typed :: "heap \<Rightarrow> payload_type_t \<Rightarrow> addr option \<Rightarrow> bool" where
  "payload_typed h t l =
    (case t of
       NO_PAYLOAD \<Rightarrow> True
     | STD_PAYLOAD \<Rightarrow>
         (case l of None \<Rightarrow> False | Some b \<Rightarrow> (case map_of h b of Some (Std_cell x y z) \<Rightarrow> True | _ \<Rightarrow> False))
     | USER_PAYLOAD \<Rightarrow>
         (case l of None \<Rightarrow> False | Some b \<Rightarrow> (case map_of h b of Some (User_cell x y) \<Rightarrow> True | _ \<Rightarrow> False)))"

lemma store_runs:
  assumes "map_of h a \<noteq> None"
  obtains h' where "store (Some a) c h = Inr h'" and "map_of h' = (map_of h)(a \<mapsto> c)"
  using assms by (auto simp: store_def load_def update_conv')

lemma union_part_runs:
  assumes al: "alive h (opt x @ opt y @ [b])" and a: "map_of h a \<noteq> None" "a \<notin> set (opt x @ opt y @ [b])"
  obtains h1 h2 h3 h' where "free_all [x, y] h = Inr h1" and "store (Some b) c h1 = Inr h2" and "free (Some b) h2 = Inr h3"
    and "store (Some a) d h3 = Inr h'" and "map_of h' = (map_of h |` (- set (opt x @ opt y @ [b])))(a \<mapsto> d)"
proof -
  have al': "alive h (concat (map opt [x, y]) @ [b])" using al by simp
  then obtain h1 where h1: "free_all [x, y] h = Inr h1" "without h (concat (map opt [x, y])) h1"
    using free_all_runs [of h "[x, y]"] by (auto simp: alive_def simp del: free_all.simps)
  have "map_of h1 b \<noteq> None" using without_alive [OF h1(2) al'] by (simp add: alive_def)
  then obtain h2 h3 where h2: "store (Some b) c h1 = Inr h2" "free (Some b) h2 = Inr h3" "without h1 [b] h3"
    by (rule clear_runs)
  have w: "without h (opt x @ opt y @ [b]) h3" using without_trans [OF h1(2) h2(3)] by simp
  then have "map_of h3 a \<noteq> None" using a without_map [OF w] by metis
  then obtain h' where "store (Some a) d h3 = Inr h'" "map_of h' = (map_of h3)(a \<mapsto> d)" by (rule store_runs)
  then show thesis using that [of h1 h2 h3 h'] h1 h2 w by (simp add: without_def)
qed

lemma union_runs:
  assumes t: "payload_typed h t l" and a: "map_of h a = Some (Wire_cell u p t l)"
    and as: "as = (if t = NO_PAYLOAD then [] else payload_blocks h l)"
    and al: "alive h as" "a \<notin> set as"
  obtains h' l' where "destroy_union a u p t l h = Inr h'"
    and "map_of h' = (map_of h |` (- set as))(a \<mapsto> Wire_cell u p t l')"
proof (cases t)
  case NO_PAYLOAD
  then show thesis using that [of h l] a as by (simp add: destroy_union_def map_upd_triv)
next
  case STD_PAYLOAD
  then obtain b x y z where l: "l = Some b" "map_of h b = Some (Std_cell x y z)"
    using t by (auto simp: payload_typed_def split: option.splits cell.splits)
  have e: "as = opt x @ opt y @ [b]" using as l STD_PAYLOAD by (simp add: payload_blocks_def)
  obtain h1 h2 h3 h' where r: "free_all [x, y] h = Inr h1" "store (Some b) (Std_cell None None None) h1 = Inr h2"
    "free (Some b) h2 = Inr h3" "store (Some a) (Wire_cell u p t None) h3 = Inr h'"
    "map_of h' = (map_of h |` (- set as))(a \<mapsto> Wire_cell u p t None)"
    using union_part_runs [of h x y b a] al a unfolding e by (metis option.distinct(1))
  then show thesis using that [of h' None] l STD_PAYLOAD
    by (simp add: destroy_union_def load_def del: free_all.simps)
next
  case USER_PAYLOAD
  then obtain b x y where l: "l = Some b" "map_of h b = Some (User_cell x y)"
    using t by (auto simp: payload_typed_def split: option.splits cell.splits)
  have e: "as = opt x @ opt y @ [b]" using as l USER_PAYLOAD by (simp add: payload_blocks_def)
  obtain h1 h2 h3 h' where r: "free_all [x, y] h = Inr h1" "store (Some b) (User_cell None None) h1 = Inr h2"
    "free (Some b) h2 = Inr h3" "store (Some a) (Wire_cell u p t None) h3 = Inr h'"
    "map_of h' = (map_of h |` (- set as))(a \<mapsto> Wire_cell u p t None)"
    using union_part_runs [of h x y b a] al a unfolding e by (metis option.distinct(1))
  then show thesis using that [of h' None] l USER_PAYLOAD
    by (simp add: destroy_union_def load_def del: free_all.simps)
qed

text \<open>Everything but the payload: the two strings of the request, and the request itself.\<close>

definition head_blocks :: "heap \<Rightarrow> addr \<Rightarrow> addr list" where
  "head_blocks h a =
    (case map_of h a of Some (Wire_cell u p t l) \<Rightarrow> opt u @ opt p @ [a] | _ \<Rightarrow> [a])"

definition wire_ld :: "heap \<Rightarrow> addr \<Rightarrow> addr option" where
  "wire_ld h a = (case map_of h a of Some (Wire_cell u p t l) \<Rightarrow> l | _ \<Rightarrow> None)"

lemma ctrl_destroy_runs:
  assumes rt: "resp_typed h r" and wt: "payload_typed h t l" and a: "map_of h a = Some (Wire_cell u p t l)"
    and al: "alive h (resp_blocks h r @ payload_blocks h l @ head_blocks h a)"
  obtains h' where "ctrl_destroy (Some (Some a)) (Some r) True h = Inr (Some None, Some None, h')"
    and "without h (resp_blocks h r @ (if t = NO_PAYLOAD then [] else payload_blocks h l) @ head_blocks h a) h'"
proof -
  let ?R = "resp_blocks h r" and ?P = "if t = NO_PAYLOAD then [] else payload_blocks h l"
  have hb: "head_blocks h a = opt u @ opt p @ [a]" using a by (simp add: head_blocks_def)
  obtain h1 where h1: "destroy_resp (Some r) h = Inr (Some None, h1)" "without h ?R h1"
    using resp_destroy_runs [OF rt] al by (auto simp: alive_def)
  have dis: "set ?R \<inter> set (payload_blocks h l @ head_blocks h a) = {}" using al by (simp add: alive_def)
  have a1: "map_of h1 a = Some (Wire_cell u p t l)" using without_map [OF h1(2)] a dis hb by auto
  have ld: "map_of h1 b = map_of h b" if "l = Some b" for b
  proof -
    have "b \<in> set (payload_blocks h l)" using that by (auto simp: payload_blocks_def split: option.splits cell.splits)
    then show ?thesis using without_map [OF h1(2)] dis by auto
  qed
  have wt1: "payload_typed h1 t l" and pb: "payload_blocks h1 l = payload_blocks h l"
    using wt ld by (auto simp: payload_typed_def payload_blocks_def split: payload_type_t.splits option.splits)
  have al1: "alive h1 (payload_blocks h l @ opt u @ opt p @ [a])"
    using without_alive [OF h1(2) al] hb by simp
  have alP: "alive h1 ?P" "a \<notin> set ?P" using al1 by (auto simp: alive_def)
  obtain h2 l' where h2: "destroy_union a u p t l h1 = Inr h2"
    "map_of h2 = (map_of h1 |` (- set ?P))(a \<mapsto> Wire_cell u p t l')"
    using union_runs [OF wt1 a1 _ alP] unfolding pb by blast
  have al2: "alive h2 (concat (map opt [u, p]) @ [a])"
    using al1 h2(2) by (auto simp: alive_def list_all_iff restrict_map_def)
  then obtain h3 where h3: "free_all [u, p] h2 = Inr h3" "without h2 (concat (map opt [u, p])) h3"
    using free_all_runs [of h2 "[u, p]"] by (auto simp: alive_def simp del: free_all.simps)
  have "map_of h3 a \<noteq> None" using without_alive [OF h3(2) al2] by (simp add: alive_def)
  then obtain h4 h' where h4: "store (Some a) (Wire_cell None None NO_PAYLOAD None) h3 = Inr h4"
    "free (Some a) h4 = Inr h'" "without h3 [a] h'"
    by (rule clear_runs)
  have "without h (?R @ ?P @ head_blocks h a) h'"
    using h1(2) h2(2) h3(2) h4(3) hb by (auto simp: without_def restrict_map_def fun_eq_iff)
  moreover have "ctrl_destroy (Some (Some a)) (Some r) True h = Inr (Some None, Some None, h')"
    using h1(1) a1 h2(1) h3(1) h4 by (simp add: ctrl_destroy_def load_def del: free_all.simps)
  ultimately show thesis using that by blast
qed

section \<open>The memory of a request\<close>

text \<open>
  A request that was read, as it lies in memory: \<open>request_at h a w\<close> holds when the block at \<open>a\<close> is the
  request \<open>w\<close> and its union points to the structure of its payload.
\<close>

definition request_at :: "heap \<Rightarrow> addr \<Rightarrow> wire_payload_t \<Rightarrow> bool" where
  "request_at h a w =
    (case map_of h a of
       Some (Wire_cell u p t l) \<Rightarrow>
         t = wp_type w \<and>
         (case wp_payload w of
            Null_payload \<Rightarrow> l = None
          | Std_payload _ \<Rightarrow>
              (case l of None \<Rightarrow> False
               | Some b \<Rightarrow> (case map_of h b of Some (Std_cell x y z) \<Rightarrow> True | _ \<Rightarrow> False))
          | User_payload _ \<Rightarrow>
              (case l of None \<Rightarrow> False
               | Some b \<Rightarrow> (case map_of h b of Some (User_cell x y) \<Rightarrow> True | _ \<Rightarrow> False)))
     | _ \<Rightarrow> False)"

definition leaked :: "heap \<Rightarrow> addr \<Rightarrow> wire_payload_t \<Rightarrow> addr list" where
  "leaked h a w = (case wp_payload w of Std_payload _ \<Rightarrow> payload_blocks h (wire_ld h a) | _ \<Rightarrow> [])"

text \<open>What is released after a request was answered. The request that was read and its response
  lie in separate blocks. Then \<^verbatim>\<open>ctrl_destroy\<close> runs without freeing a block twice, reaching one that was
  freed, or reading the union through the wrong member; both variables of the caller are NULL
  afterwards; every other block of the heap is left as it is; and the blocks of the request and of the
  response are released, except for a file request: the type of such a request was never set, so
  its payload structure, path and data stay allocated.
\<close>

theorem request_released:
  assumes read: "read_client_req A ws inp out = Inr (OP_SUCCESS, w, pkts, out')"
    and at: "request_at h a w" and resp: "resp_typed h r"
    and separate: "alive h (resp_blocks h r @ payload_blocks h (wire_ld h a) @ head_blocks h a)"
  shows "\<exists>h'. ctrl_destroy (Some (Some a)) (Some r) True h = Inr (Some None, Some None, h') \<and>
    (\<forall>b. map_of h' b =
       (if b \<in> set (resp_blocks h r @ payload_blocks h (wire_ld h a) @ head_blocks h a) - set (leaked h a w)
        then None else map_of h b))"
proof -
  have type: "wp_type w = (case wp_payload w of User_payload p \<Rightarrow> USER_PAYLOAD | _ \<Rightarrow> NO_PAYLOAD)"
    using read_request_shape [OF read] by blast
  obtain c where c: "map_of h a = Some c" using at by (cases "map_of h a") (simp_all add: request_at_def)
  then obtain u p l where cell: "map_of h a = Some (Wire_cell u p (wp_type w) l)"
    using at by (cases c) (simp_all add: request_at_def)
  then have l: "wire_ld h a = l" by (simp add: wire_ld_def)
  have typed: "payload_typed h (wp_type w) l"
    using at type cell by (simp add: request_at_def payload_typed_def split: payload_ptr.splits)
  obtain h' where run: "ctrl_destroy (Some (Some a)) (Some r) True h = Inr (Some None, Some None, h')"
    and rest: "without h (resp_blocks h r @ (if wp_type w = NO_PAYLOAD then [] else payload_blocks h l) @ head_blocks h a) h'"
    using ctrl_destroy_runs [OF resp typed cell] separate l by blast
  have dis: "set (resp_blocks h r @ head_blocks h a) \<inter> set (payload_blocks h l) = {}"
    using separate l by (auto simp: alive_def)
  have kept: "leaked h a w = [] \<and> (wp_type w = NO_PAYLOAD \<longrightarrow> payload_blocks h l = []) \<or>
    leaked h a w = payload_blocks h l \<and> wp_type w = NO_PAYLOAD"
    using type at cell l by (simp add: leaked_def request_at_def payload_blocks_def split: payload_ptr.splits)
  have "map_of h' b = (if b \<in> set (resp_blocks h r @ payload_blocks h (wire_ld h a) @ head_blocks h a) - set (leaked h a w)
    then None else map_of h b)" for b
    using kept dis rest l by (auto simp: without_def restrict_map_def disjoint_iff)
  then show ?thesis using run by blast
qed

definition sample_heap :: heap where
  "sample_heap =
    [(21, Wire_cell (Some 22) (Some 23) NO_PAYLOAD (Some 24)), (22, Bytes_cell), (23, Bytes_cell),
     (24, Std_cell (Some 25) None None), (25, Bytes_cell),
     (26, Resp_cell (Some 27)), (27, Content_cell (Some 28) (Some 30) (Some 31)), (28, Hash_cell (Some 29)),
     (29, Bytes_cell), (30, Bytes_cell), (31, Bytes_cell), (32, Bytes_cell)]"

theorem request_released_witness:
  "\<exists>h'. ctrl_destroy (Some (Some 21)) (Some (Some 26)) True sample_heap = Inr (Some None, Some None, h') \<and>
    list_all (\<lambda>b. map_of h' b = None) [21, 22, 23, 26, 27, 28, 29, 30, 31] \<and>
    list_all (\<lambda>b. map_of h' b \<noteq> None) [24, 25, 32]"
proof -
  have read: "read_client_req (\<lambda>_. True) 0 (arrive (enc_request sample_get) @ []) [] = Inr (OP_SUCCESS, sample_get, [], [])"
    by (rule read_request_arrive [OF TrueI sample_get_wf(1)])
  have at: "request_at sample_heap 21 sample_get"
    by (simp add: request_at_def sample_heap_def sample_get_def sample_req_def sample_path_def)
  have typed: "resp_typed sample_heap (Some 26)"
    by (simp add: resp_typed_def content_typed_def hash_typed_def sample_heap_def)
  have blocks: "resp_blocks sample_heap (Some 26) = [29, 28, 30, 31, 27, 26]"
    "payload_blocks sample_heap (wire_ld sample_heap 21) = [25, 24]" "head_blocks sample_heap 21 = [22, 23, 21]"
    "leaked sample_heap 21 sample_get = [25, 24]"
    by (simp_all add: resp_blocks_def content_blocks_def hash_blocks_def payload_blocks_def wire_ld_def head_blocks_def
        leaked_def sample_heap_def sample_get_def sample_req_def sample_path_def)
  have separate: "alive sample_heap (resp_blocks sample_heap (Some 26) @
      payload_blocks sample_heap (wire_ld sample_heap 21) @ head_blocks sample_heap 21)"
    unfolding blocks by (simp add: alive_def sample_heap_def)
  from request_released [OF read at typed separate] show ?thesis
    unfolding blocks by (auto simp: sample_heap_def)
qed

section \<open>The other destroy functions\<close>

text \<open>An account of the user table, and the arguments of the program: every block is released, once.\<close>

lemma account_released:
  assumes a: "map_of h s = Some (Account_cell u q)" and q: "hash_typed h q"
    and al: "alive h (opt u @ hash_blocks h q @ [s])"
  shows "\<exists>h'. db_free_value_callback (Some s) h = Inr h' \<and> without h (opt u @ hash_blocks h q @ [s]) h'"
proof -
  obtain h1 where h1: "free u h = Inr h1" "without h (opt u) h1"
    using free_all_runs [of h "[u]"] al by (auto simp: alive_def rbind_eq_Inr_iff)
  have same: "map_of h1 b = map_of h b" if "q = Some b" for b
  proof -
    have "b \<in> set (hash_blocks h q)" using that by (auto simp: hash_blocks_def split: option.splits cell.splits)
    then show ?thesis using without_map [OF h1(2)] al by (auto simp: alive_def)
  qed
  then have q1: "hash_typed h1 q" "hash_blocks h1 q = hash_blocks h q"
    using q by (auto simp: hash_typed_def hash_blocks_def split: option.splits)
  note al1 = without_alive [OF h1(2) al]
  then obtain h2 where h2: "hash_destroy (Some q) h1 = Inr (Some None, h2)" "without h1 (hash_blocks h q) h2"
    using hash_destroy_runs [OF q1(1)] q1(2) by (auto simp: alive_def)
  have "map_of h2 s \<noteq> None" using without_alive [OF h2(2) al1] by (simp add: alive_def)
  then obtain h3 h' where "store (Some s) (Account_cell None None) h2 = Inr h3" "free (Some s) h3 = Inr h'" "without h2 [s] h'"
    by (rule clear_runs)
  then show ?thesis using a h1 h2 without_trans [OF without_trans [OF h1(2) h2(2)]]
    by (auto simp: db_free_value_callback_def load_def)
qed

lemma args_released:
  assumes a: "map_of h p = Some (Args_cell d)"
    and d: "case d of None \<Rightarrow> ds = [] | Some b \<Rightarrow> \<exists>x. map_of h b = Some (Path_cell x) \<and> ds = opt x @ [b]"
    and al: "alive h (ds @ [p])"
  shows "\<exists>h'. args_destroy (Some (Some p)) h = Inr (Some None, h') \<and> without h (ds @ [p]) h'"
proof -
  have "\<exists>v h1. f_destroy_path (Some d) h = Inr (v, h1) \<and> without h ds h1"
  proof (cases d)
    case None
    then show ?thesis using d by (simp add: f_destroy_path_def)
  next
    case (Some b)
    then obtain x where x: "map_of h b = Some (Path_cell x)" "ds = opt x @ [b]" using d by auto
    obtain h1 where h1: "free x h = Inr h1" "without h (opt x) h1"
      using free_all_runs [of h "[x]"] al x by (auto simp: alive_def rbind_eq_Inr_iff)
    have "map_of h1 b \<noteq> None" using without_alive [OF h1(2), of "[b]"] al x by (simp add: alive_def)
    then obtain h2 h3 h' where "store (Some b) (Path_cell None) h1 = Inr h2" "free (Some b) h2 = Inr h'" "without h1 [b] h'"
      and "free (Some b) h1 = Inr h3" "without h1 [b] h3"
      by (metis clear_runs free_runs)
    then show ?thesis using Some x h1 without_trans [OF h1(2)]
      by (cases x) (auto simp: f_destroy_path_def load_def free_def)
  qed
  then obtain v h1 where h1: "f_destroy_path (Some d) h = Inr (v, h1)" "without h ds h1" by blast
  have "map_of h1 p \<noteq> None" using without_alive [OF h1(2) al] by (simp add: alive_def)
  then obtain h2 h' where "store (Some p) (Args_cell None) h1 = Inr h2" "free (Some p) h2 = Inr h'" "without h1 [p] h'"
    by (rule clear_runs)
  then show ?thesis using a h1 without_trans [OF h1(2)] by (auto simp: args_destroy_def load_def)
qed

text \<open>A worker closes its connection and releases its payload.\<close>

lemma worker_released:
  assumes "map_of h p = Some (Worker_cell fd)"
  shows "\<exists>h'. destroy_worker_pld (Some (Some p)) h = Inr (Some None, [fd], h') \<and> without h [p] h'"
proof -
  have "map_of h p \<noteq> None" using assms by simp
  then obtain h1 h' where "store (Some p) (Worker_cell 0) h = Inr h1" "free (Some p) h1 = Inr h'" "without h [p] h'"
    by (rule clear_runs)
  then show ?thesis using assms by (simp add: destroy_worker_pld_def load_def)
qed

text \<open>Called again on the variable a destroy function has reset, it does nothing.\<close>

lemma destroy_null:
  assumes "v \<in> {None, Some None}"
  shows "hash_destroy v h = Inr (v, h)" "f_destroy_path v h = Inr (v, h)" "f_destroy_content v h = Inr (v, h)"
    "destroy_resp v h = Inr (v, h)" "args_destroy v h = Inr (v, h)"
  using assms by (auto simp: hash_destroy_def f_destroy_path_def f_destroy_content_def destroy_resp_def args_destroy_def)


end
