(* ===== verification/Allocation.thy ===== *)
theory Allocation
  imports Memory "HOL-Library.Multiset"
begin

text \<open>
  The memory of one connection, from the allocation of the request to the end of \<^verbatim>\<open>serve_client\<close>. The readers
  of \<open>Sock\<close> are run here with the heap of \<open>Memory\<close>: every structure and every array they fill is a
  block, and the pointers are stored in the structures as the code stores them.
\<close>

section \<open>Allocating\<close>

definition fresh :: "heap \<Rightarrow> addr" where
  "fresh h = Suc (sum_list (map fst h))"

definition malloc :: "cell \<Rightarrow> heap \<Rightarrow> addr \<times> heap" where
  "malloc c h = (fresh h, (fresh h, c) # h)"

lemma fresh_unused: "fresh h \<notin> fst ` set h"
proof
  assume "fresh h \<in> fst ` set h"
  then have "fresh h \<le> sum_list (map fst h)" by (intro member_le_sum_list) auto
  then show False by (simp add: fresh_def)
qed

lemma map_of_fresh [simp]: "map_of h (fresh h) = None"
  using fresh_unused by (simp add: map_of_eq_None_iff)

lemma free_fresh: "free (Some (fresh h)) ((fresh h, c) # h) = Inr h"
  using delete_id [OF fresh_unused] by (simp add: free_def)

text \<open>Writing a field of the structure at an address.\<close>

definition modify :: "addr \<Rightarrow> (cell \<Rightarrow> cell run) \<Rightarrow> heap \<Rightarrow> heap run" where
  "modify a f h = rbind (load (Some a) h) (\<lambda>c. rbind (f c) (\<lambda>c'. store (Some a) c' h))"

section \<open>Reading into the heap\<close>

text \<open>\<^verbatim>\<open>read_stream\<close> works on two buffers, which it releases on every path.\<close>

definition m_stream ::
  "(nat \<Rightarrow> bool) \<Rightarrow> nat \<Rightarrow> rd_event list \<Rightarrow> heap \<Rightarrow> ((ret_codes_t + bytes) \<times> rd_event list \<times> heap) run" where
  "m_stream A bytes_to_read inp h =
    (if bytes_to_read = 0 then Inr (Inr [], inp, h)
     else if \<not> A (bytes_to_read + 1) then Inr (Inl OP_FAILURE, inp, h)
     else
       (let (read_buffer, h) = malloc Bytes_cell h; (payload_buffer, h) = malloc Bytes_cell h in
        (case read_loop bytes_to_read [] inp of
           (Inl e, inp) \<Rightarrow>
             rbind (free (Some payload_buffer) h) (\<lambda>h. rbind (free (Some read_buffer) h) (\<lambda>h. Inr (Inl e, inp, h)))
         | (Inr bs, inp) \<Rightarrow>
             rbind (free (Some read_buffer) h) (\<lambda>h. rbind (free (Some payload_buffer) h) (\<lambda>h. Inr (Inr bs, inp, h))))))"

definition m_field :: "(nat \<Rightarrow> bool) \<Rightarrow> nat \<Rightarrow> (bytes \<Rightarrow> 'w \<Rightarrow> 'w) \<Rightarrow> ('w \<times> heap) reader" where
  "m_field A n set_to s =
    (case s of ((w, h), inp) \<Rightarrow>
       rbind (m_stream A n inp h) (\<lambda>(r, inp', h).
         case r of Inl e \<Rightarrow> Inr (e, (w, h), inp') | Inr bs \<Rightarrow> Inr (OP_SUCCESS, (set_to bs w, h), inp')))"

text \<open>An array whose read fails is neither stored nor released.\<close>

definition m_array ::
  "(nat \<Rightarrow> bool) \<Rightarrow> ('w \<Rightarrow> nat) \<Rightarrow> bool \<Rightarrow> (bytes option \<Rightarrow> 'w \<Rightarrow> 'w) \<Rightarrow> (addr \<Rightarrow> heap \<Rightarrow> heap run) \<Rightarrow> ('w \<times> heap) reader" where
  "m_array A array_len make_string set_to put s =
    (case s of ((w, h), inp) \<Rightarrow>
       if array_len w = 0 \<and> \<not> make_string then Inr (OP_SUCCESS, (set_to None w, h), inp)
       else if \<not> A (if make_string then array_len w * 2 else array_len w) then Inr (OP_FAILURE, (w, h), inp)
       else
         (let (p_array, h) = malloc Bytes_cell h in
          rbind (m_stream A (array_len w) inp h) (\<lambda>(r, inp', h).
            case r of
              Inl e \<Rightarrow> Inr (e, (w, h), inp')
            | Inr bs \<Rightarrow>
                if make_string \<and> array_len w = 0 then Inl Heap_overflow
                else rbind (put p_array h) (\<lambda>h. Inr (OP_SUCCESS, (set_to (Some bs) w, h), inp')))))"

text \<open>The pointer fields.\<close>

fun wire_username :: "addr \<Rightarrow> cell \<Rightarrow> cell run" where
  "wire_username p (Wire_cell u q t l) = Inr (Wire_cell (Some p) q t l)"
| "wire_username p _ = Inl Wrong_member"

fun wire_passwd :: "addr \<Rightarrow> cell \<Rightarrow> cell run" where
  "wire_passwd p (Wire_cell u q t l) = Inr (Wire_cell u (Some p) t l)"
| "wire_passwd p _ = Inl Wrong_member"

fun wire_union :: "addr \<Rightarrow> cell \<Rightarrow> cell run" where
  "wire_union p (Wire_cell u q t l) = Inr (Wire_cell u q t (Some p))"
| "wire_union p _ = Inl Wrong_member"

fun wire_type :: "payload_type_t \<Rightarrow> cell \<Rightarrow> cell run" where
  "wire_type t' (Wire_cell u q t l) = Inr (Wire_cell u q t' l)"
| "wire_type t' _ = Inl Wrong_member"

fun std_path :: "addr \<Rightarrow> cell \<Rightarrow> cell run" where
  "std_path p (Std_cell x y z) = Inr (Std_cell (Some p) y z)"
| "std_path p _ = Inl Wrong_member"

fun std_stream :: "addr \<Rightarrow> cell \<Rightarrow> cell run" where
  "std_stream p (Std_cell x y z) = Inr (Std_cell x (Some p) z)"
| "std_stream p _ = Inl Wrong_member"

fun std_hash :: "addr \<Rightarrow> cell \<Rightarrow> cell run" where
  "std_hash p (Std_cell x y z) = Inr (Std_cell x y (Some p))"
| "std_hash p _ = Inl Wrong_member"

fun user_name :: "addr \<Rightarrow> cell \<Rightarrow> cell run" where
  "user_name p (User_cell x y) = Inr (User_cell (Some p) y)"
| "user_name p _ = Inl Wrong_member"

fun user_passwd :: "addr \<Rightarrow> cell \<Rightarrow> cell run" where
  "user_passwd p (User_cell x y) = Inr (User_cell x (Some p))"
| "user_passwd p _ = Inl Wrong_member"

text \<open>The readers of a request, with the structure they fill at an address.\<close>

definition m_std_file :: "(nat \<Rightarrow> bool) \<Rightarrow> u64 \<Rightarrow> addr \<Rightarrow> (std_payload_t \<times> heap) reader" where
  "m_std_file A payload_len b s =
    (case s of ((p_load, h), inp) \<Rightarrow>
       if std_payload_has_file payload_len (sp_path_len p_load) then
         reads
           [m_array A (\<lambda>_. H_HASH_LEN) False (\<lambda>a p. p\<lparr>sp_hash_stream := a\<rparr>) (\<lambda>p. modify b (std_hash p)),
            \<lambda>((p, h), inp). Inr (OP_SUCCESS,
              (p\<lparr>sp_byte_stream_len := get_file_stream_size payload_len (sp_path_len p)\<rparr>, h), inp),
            m_array A (\<lambda>p. unat (sp_byte_stream_len p)) False (\<lambda>a p. p\<lparr>sp_byte_stream := a\<rparr>)
              (\<lambda>p. modify b (std_stream p))]
           ((p_load, h), inp)
       else Inr (OP_SUCCESS, (p_load, h), inp))"

definition m_client_std_payload :: "(nat \<Rightarrow> bool) \<Rightarrow> addr \<Rightarrow> (wire_payload_t \<times> heap) reader" where
  "m_client_std_payload A a s =
    (case s of ((p_wire, h), inp) \<Rightarrow>
       if \<not> A sizeof_payload then Inr (OP_FAILURE, (p_wire\<lparr>wp_payload := Null_payload\<rparr>, h), inp)
       else
         (let (b, h) = malloc (Std_cell None None None) h in
          rbind (modify a (wire_union b) h) (\<lambda>h.
          rbind (reads
              [m_field A H_PATH_LEN (\<lambda>bs p. p\<lparr>sp_path_len := htons True (load_mem True bs)\<rparr>),
               m_array A (\<lambda>p. unat (sp_path_len p)) True (\<lambda>a p. p\<lparr>sp_path := map_option cstr a\<rparr>)
                 (\<lambda>p. modify b (std_path p)),
               m_std_file A (wp_payload_len p_wire) b]
              ((zero_std, h), inp))
            (\<lambda>(result, (p_load, h), inp'). Inr (result, (p_wire\<lparr>wp_payload := Std_payload p_load\<rparr>, h), inp')))))"

definition m_user_password :: "(nat \<Rightarrow> bool) \<Rightarrow> u64 \<Rightarrow> addr \<Rightarrow> (user_payload_t \<times> heap) reader" where
  "m_user_password A payload_len b s =
    (case s of ((p_load, h), inp) \<Rightarrow>
       if user_payload_has_password payload_len (up_username_len p_load) then
         reads
           [m_field A H_PASSWORD_LEN (\<lambda>bs p. p\<lparr>up_passwd_len := htons True (load_mem True bs)\<rparr>),
            m_array A (\<lambda>p. unat (up_passwd_len p)) True (\<lambda>a p. p\<lparr>up_passwd := map_option cstr a\<rparr>)
              (\<lambda>p. modify b (user_passwd p))]
           ((p_load, h), inp)
       else Inr (OP_SUCCESS, (p_load, h), inp))"

definition m_client_user_payload :: "(nat \<Rightarrow> bool) \<Rightarrow> addr \<Rightarrow> (wire_payload_t \<times> heap) reader" where
  "m_client_user_payload A a s =
    (case s of ((p_wire, h), inp) \<Rightarrow>
       let p_wire = p_wire\<lparr>wp_type := USER_PAYLOAD\<rparr> in
       rbind (modify a (wire_type USER_PAYLOAD) h) (\<lambda>h.
       if \<not> A sizeof_payload then Inr (OP_FAILURE, (p_wire\<lparr>wp_payload := Null_payload\<rparr>, h), inp)
       else
         (let (b, h) = malloc (User_cell None None) h in
          rbind (modify a (wire_union b) h) (\<lambda>h.
          rbind (reads
              [m_field A H_USR_ACT_FLAG (\<lambda>bs p. p\<lparr>up_user_flag := enum_of bs\<rparr>),
               m_field A H_USR_PERMISSION (\<lambda>bs p. p\<lparr>up_user_perm := enum_of bs\<rparr>),
               m_field A H_USERNAME_LEN (\<lambda>bs p. p\<lparr>up_username_len := ntohs True (load_mem True bs)\<rparr>),
               m_array A (\<lambda>p. unat (up_username_len p)) True (\<lambda>a p. p\<lparr>up_username := map_option cstr a\<rparr>)
                 (\<lambda>p. modify b (user_name p)),
               m_user_password A (wp_payload_len p_wire) b]
              ((zero_user, h), inp))
            (\<lambda>(result, (p_load, h), inp'). Inr (result, (p_wire\<lparr>wp_payload := User_payload p_load\<rparr>, h), inp'))))))"

definition m_header :: "(nat \<Rightarrow> bool) \<Rightarrow> addr \<Rightarrow> (wire_payload_t \<times> heap) reader" where
  "m_header A a =
    reads
      [m_field A H_OPCODE (\<lambda>bs w. w\<lparr>wp_opt_code := enum_of bs\<rparr>),
       m_field A H_USER_FLAG (\<lambda>bs w. w\<lparr>wp_user_flag := enum_of bs\<rparr>),
       m_field A H_REQ_RESERVED (\<lambda>bs w. w\<lparr>wp_reserved := load_mem True bs\<rparr>),
       m_field A H_USERNAME_LEN (\<lambda>bs w. w\<lparr>wp_username_len := ntohs True (load_mem True bs)\<rparr>),
       m_field A H_PASSWORD_LEN (\<lambda>bs w. w\<lparr>wp_passwd_len := ntohs True (load_mem True bs)\<rparr>),
       m_field A H_SESSION_ID (\<lambda>bs w. w\<lparr>wp_session_id := ntohl True (load_mem True bs)\<rparr>),
       m_array A (\<lambda>w. unat (wp_username_len w)) True (\<lambda>a w. w\<lparr>wp_username := map_option cstr a\<rparr>)
         (\<lambda>p. modify a (wire_username p)),
       m_array A (\<lambda>w. unat (wp_passwd_len w)) True (\<lambda>a w. w\<lparr>wp_passwd := map_option cstr a\<rparr>)
         (\<lambda>p. modify a (wire_passwd p)),
       m_field A H_PAYLOAD_LEN (\<lambda>bs w. w\<lparr>wp_payload_len := ntohll True (load_mem True bs)\<rparr>)]"

definition m_payload :: "(nat \<Rightarrow> bool) \<Rightarrow> addr \<Rightarrow> (wire_payload_t \<times> heap) reader" where
  "m_payload A a s =
    (case s of ((p_wire, h), inp) \<Rightarrow>
       if wp_opt_code p_wire = ACT_USER_OPERATION then m_client_user_payload A a s
       else if wp_opt_code p_wire \<noteq> ACT_LOCAL_OPERATION then m_client_std_payload A a s
       else Inr (OP_SUCCESS, (p_wire, h), inp))"

text \<open>\<^verbatim>\<open>write_response\<close> builds the packet in a buffer of its own.\<close>

definition m_write_response ::
  "(nat \<Rightarrow> bool) \<Rightarrow> u32 \<Rightarrow> act_resp_t \<Rightarrow> wr_event list \<Rightarrow> heap \<Rightarrow> (bytes list \<times> wr_event list \<times> heap) run" where
  "m_write_response A worker_session p_resp ws h =
    rbind (response_bytes worker_session p_resp) (\<lambda>(head, data).
      if \<not> A (length head + length data) then Inr ([], ws, h)
      else
        (let (p_stream, h) = malloc Bytes_cell h in
         rbind (write_response A worker_session (Some p_resp) ws) (\<lambda>(pkts, ws).
         rbind (free (Some p_stream) h) (\<lambda>h. Inr (pkts, ws, h)))))"

definition m_read_client_req ::
  "(nat \<Rightarrow> bool) \<Rightarrow> u32 \<Rightarrow> addr \<Rightarrow> heap \<Rightarrow> rd_event list \<Rightarrow> wr_event list \<Rightarrow>
     (ret_codes_t \<times> wire_payload_t \<times> bytes list \<times> wr_event list \<times> heap) run" where
  "m_read_client_req A worker_session a h inp ws =
    rbind (reads [m_header A a, m_payload A a] ((zero_wire, h), inp)) (\<lambda>(result, (p_wire, h), inp').
      if result = OP_SUCCESS then Inr (OP_SUCCESS, p_wire, [], ws, h)
      else
        (let (resp, h) = malloc (Resp_cell None) h in
         if result \<noteq> OP_SOCK_CLOSED then
           rbind (m_write_response A worker_session (ctrl_populate_resp result) ws h) (\<lambda>(pkts, ws, h).
             Inr (result, p_wire, pkts, ws, h))
         else Inr (result, p_wire, [], ws, h)))"

text \<open>
  The content \<^verbatim>\<open>f_read_file\<close> and \<^verbatim>\<open>f_list_dir\<close> return, in the order they allocate it, and
  the response \<^verbatim>\<open>ctrl_parse_action\<close> returns. What the two allocate
  and release on the way, and what they do when memory runs out, is in \<open>Cleanup\<close>.
\<close>

definition m_content :: "heap \<Rightarrow> addr \<times> heap" where
  "m_content h =
    (let (p_byte_array, h) = malloc Bytes_cell h; (p_hash_digest, h) = malloc Bytes_cell h;
         (p_hash, h) = malloc (Hash_cell (Some p_hash_digest)) h;
         (p_content, h) = malloc (Content_cell None None None) h; (p_file_path, h) = malloc Bytes_cell h
     in (p_content, AList.update p_content (Content_cell (Some p_hash) (Some p_byte_array) (Some p_file_path)) h))"

definition m_resp :: "act_resp_t \<Rightarrow> heap \<Rightarrow> addr \<times> heap" where
  "m_resp resp h =
    (let (p_resp, h) = malloc (Resp_cell None) h in
     case resp_content resp of
       None \<Rightarrow> (p_resp, h)
     | Some _ \<Rightarrow> (let (p_content, h) = m_content h in (p_resp, AList.update p_resp (Resp_cell (Some p_content)) h)))"

text \<open>The job of a worker, for the payload at the address \<open>p\<close>; also the descriptors it closes are returned.\<close>

definition m_serve_client ::
  "('u, 's) lib \<Rightarrow> env \<Rightarrow> (nat \<Rightarrow> bool) \<Rightarrow> ('u, 's) srv \<Rightarrow> conn \<Rightarrow> addr \<Rightarrow> heap \<Rightarrow>
     (bytes list \<times> ('u, 's) srv \<times> int list \<times> heap) run" where
  "m_serve_client L E A S p_worker p h =
    (let ret_null = (\<lambda>pkts S h. rbind (destroy_worker_pld (Some (Some p)) h) (\<lambda>(_, fds, h). Inr (pkts, S, fds, h))) in
     if \<not> cn_sockopt p_worker \<or> \<not> A sizeof_wire then ret_null [] S h
     else
       (let (p_client_req, h) = malloc (Wire_cell None None NO_PAYLOAD None) h in
        rbind (m_read_client_req A 0 p_client_req h (cn_in p_worker) (cn_writes p_worker)) (\<lambda>(result, w, pkts, ws, h).
          if result \<noteq> OP_SUCCESS then
            ret_null pkts (S\<lparr>sv_db := (sv_db S)\<lparr>sesh_htable :=
              snd (ht_del (lib_sesh L) (sesh_htable (sv_db S)) (wp_session_id w))\<rparr>\<rparr>) h
          else
            rbind (ctrl_parse_action L E (Some S) (Some w)) (\<lambda>(resp, req, S').
              case (resp, req, S') of
                (Some resp, Some req, Some S') \<Rightarrow>
                  (let (r, h) = m_resp resp h in
                   rbind (m_write_response A (wp_session_id req) resp ws h) (\<lambda>(pkts', _, h).
                   rbind (ctrl_destroy (Some (Some p_client_req)) (Some (Some r)) True h) (\<lambda>(_, _, h).
                     ret_null (pkts @ pkts') S' h)))
              | _ \<Rightarrow> Inl Null_deref))))"

section \<open>The readers with and without a heap\<close>

text \<open>
  \<open>matches x y J F\<close>: the run \<open>y\<close> with a heap has the result of \<open>x\<close>, and leaves a heap with \<open>J\<close> when it
  succeeds and with \<open>F\<close> when it does not. \<open>sim I f g J F\<close> has this of two readers, started where the heap
  satisfies \<open>I\<close>.
\<close>

definition matches ::
  "(ret_codes_t \<times> 'w \<times> rd_event list) run \<Rightarrow> (ret_codes_t \<times> ('w \<times> heap) \<times> rd_event list) run \<Rightarrow>
     (heap \<Rightarrow> bool) \<Rightarrow> (heap \<Rightarrow> bool) \<Rightarrow> bool" where
  "matches x y J F \<longleftrightarrow>
    (case x of
       Inl e \<Rightarrow> y = Inl e
     | Inr (r, w, inp) \<Rightarrow> \<exists>h. y = Inr (r, (w, h), inp) \<and> (r = OP_SUCCESS \<longrightarrow> J h) \<and> (r \<noteq> OP_SUCCESS \<longrightarrow> F h))"

definition sim ::
  "(heap \<Rightarrow> bool) \<Rightarrow> 'w reader \<Rightarrow> ('w \<times> heap) reader \<Rightarrow> (heap \<Rightarrow> bool) \<Rightarrow> (heap \<Rightarrow> bool) \<Rightarrow> bool" where
  "sim I f g J F \<longleftrightarrow> (\<forall>w h inp. I h \<longrightarrow> matches (f (w, inp)) (g ((w, h), inp)) J F)"

lemma matches_mono:
  "matches x y J F \<Longrightarrow> (\<And>h. J h \<Longrightarrow> J' h) \<Longrightarrow> (\<And>h. F h \<Longrightarrow> F' h) \<Longrightarrow> matches x y J' F'"
  by (cases x) (auto simp: matches_def)

lemma matches_rbind:
  "matches x y J F \<Longrightarrow>
   matches (rbind x (\<lambda>(r, w, inp). Inr (r, k w, inp))) (rbind y (\<lambda>(r, (w, h), inp). Inr (r, (k w, h), inp))) J F"
  by (cases x) (auto simp: matches_def)

lemma simD: "sim I f g J F \<Longrightarrow> I h \<Longrightarrow> matches (f (w, inp)) (g ((w, h), inp)) J F"
  by (simp add: sim_def)

lemma sim_Nil: "(\<And>h. I h \<Longrightarrow> J h) \<Longrightarrow> sim I (reads []) (reads []) J F"
  by (simp add: sim_def matches_def)

lemma sim_Cons:
  assumes "sim I f g K F" and "sim K (reads fs) (reads gs) J F"
  shows "sim I (reads (f # fs)) (reads (g # gs)) J F"
  unfolding sim_def
proof (intro allI impI)
  fix w h inp
  assume "I h"
  note m = simD [OF assms(1) this, of w inp]
  show "matches (reads (f # fs) (w, inp)) (reads (g # gs) ((w, h), inp)) J F"
  proof (cases "f (w, inp)")
    case (Inl e)
    then show ?thesis using m by (simp add: matches_def)
  next
    case (Inr x)
    obtain r w' inp' where x: "x = (r, w', inp')" by (cases x)
    then obtain h' where g: "g ((w, h), inp) = Inr (r, (w', h'), inp')" "r = OP_SUCCESS \<longrightarrow> K h'" "r \<noteq> OP_SUCCESS \<longrightarrow> F h'"
      using m Inr by (auto simp: matches_def)
    show ?thesis
    proof (cases "r = OP_SUCCESS")
      case True
      then show ?thesis using simD [OF assms(2), of h' w' inp'] g Inr x by simp
    qed (use g Inr x in \<open>simp add: matches_def\<close>)
  qed
qed

lemma sim_last: "sim I f g J F \<Longrightarrow> sim I (reads [f]) (reads [g]) J F"
  by (rule sim_Cons [OF _ sim_Nil])

lemma sim_if:
  assumes "sim I f g J F" and "sim I f' g' J F"
  shows "sim I (\<lambda>(w, inp). if b w then f (w, inp) else f' (w, inp))
    (\<lambda>((w, h), inp). if b w then g ((w, h), inp) else g' ((w, h), inp)) J F"
  using assms by (simp add: sim_def)

lemma m_stream_eq: "m_stream A n inp h = (case read_stream A n inp of (r, inp') \<Rightarrow> Inr (r, inp', h))"
proof -
  let ?h = "(fresh h, Bytes_cell) # h"
  have "fresh ?h \<noteq> fresh h" "fresh ?h \<notin> fst ` set h" using fresh_unused [of ?h] by simp_all
  moreover note fresh_unused [of h]
  ultimately have "free (Some (fresh h)) ((fresh ?h, Bytes_cell) # ?h) = Inr ((fresh ?h, Bytes_cell) # h)"
    "free (Some (fresh ?h)) ((fresh ?h, Bytes_cell) # h) = Inr h"
    by (simp_all add: free_def)
  then show ?thesis
    by (auto simp: m_stream_def read_stream_def malloc_def Let_def free_fresh split: sum.splits prod.splits)
qed

lemma sim_field: "(\<And>h. I h \<Longrightarrow> F h) \<Longrightarrow> sim I (rd_field A n set_to) (m_field A n set_to) I F"
  by (auto simp: sim_def matches_def rd_field_def m_field_def m_stream_eq split: sum.splits prod.splits)

lemma sim_array:
  assumes "\<And>h. I h \<Longrightarrow> F h" and "\<And>h. I h \<Longrightarrow> F ((fresh h, Bytes_cell) # h)"
    and "\<And>h. I h \<Longrightarrow> \<exists>h'. put (fresh h) ((fresh h, Bytes_cell) # h) = Inr h' \<and> J h'"
    and "\<not> make_string \<Longrightarrow> (\<And>h. I h \<Longrightarrow> J h)"
  shows "sim I (rd_array A len make_string set_to) (m_array A len make_string set_to put) J F"
  unfolding sim_def
proof (intro allI impI)
  fix w h inp
  assume I: "I h"
  then obtain h' where h': "put (fresh h) ((fresh h, Bytes_cell) # h) = Inr h'" "J h'" using assms(3) by blast
  obtain r inp' where r: "read_stream A (len w) inp = (r, inp')" by (cases "read_stream A (len w) inp")
  show "matches (rd_array A len make_string set_to (w, inp)) (m_array A len make_string set_to put ((w, h), inp)) J F"
    using assms(1, 2) [OF I] assms(4) I h' r read_stream_code
    by (cases r) (auto simp: matches_def rd_array_def m_array_def make_byte_array_def malloc_def m_stream_eq)
qed

section \<open>One structure and its arrays\<close>

text \<open>
  \<open>holding h0 b c ps h\<close>: the heap \<open>h\<close> is \<open>h0\<close> with the structure \<open>c\<close> at the new address \<open>b\<close>, and arrays at
  the new addresses \<open>ps\<close>.
\<close>

definition holding :: "heap \<Rightarrow> addr \<Rightarrow> cell \<Rightarrow> addr list \<Rightarrow> heap \<Rightarrow> bool" where
  "holding h0 b c ps h \<longleftrightarrow> distinct (b # ps) \<and> (\<forall>k \<in> set (b # ps). map_of h0 k = None) \<and>
     map_of h = (\<lambda>k. if k = b then Some c else if k \<in> set ps then Some Bytes_cell else map_of h0 k)"

text \<open>The blocks of \<open>h0\<close> are as they were, and the block at \<open>b\<close> is there.\<close>

definition keeps :: "heap \<Rightarrow> addr \<Rightarrow> heap \<Rightarrow> bool" where
  "keeps h0 b h \<longleftrightarrow> map_of h0 b = None \<and> map_of h b \<noteq> None \<and> (\<forall>k. map_of h0 k \<noteq> None \<longrightarrow> map_of h k = map_of h0 k)"

lemma holding_new: "holding h (fresh h) c [] ((fresh h, c) # h)"
  by (auto simp: holding_def)

lemma holding_keeps: "holding h0 b c ps h \<Longrightarrow> keeps h0 b h"
  by (auto simp: holding_def keeps_def)

lemma keeps_alloc: "keeps h0 b h \<Longrightarrow> keeps h0 b ((fresh h, c) # h)"
  using map_of_fresh [of h] by (auto simp: keeps_def)

lemma holding_perm: "mset ps = mset qs \<Longrightarrow> holding h0 b c ps h \<Longrightarrow> holding h0 b c qs h"
  using mset_eq_imp_distinct_iff [of ps qs] mset_eq_setD [of ps qs] by (auto simp: holding_def)

lemma modify_runs:
  assumes "map_of h a = Some c" and "f c = Inr c'"
  shows "modify a f h = Inr (AList.update a c' h)"
  using assms by (simp add: modify_def load_def store_def)

lemma holding_modify:
  assumes "holding h0 b c ps h" and "f c = Inr c'"
  shows "modify b f h = Inr (AList.update b c' h) \<and> holding h0 b c' ps (AList.update b c' h)"
  using assms modify_runs [of h b c f c'] by (auto simp: holding_def update_conv' fun_eq_iff)

lemma holding_array:
  assumes "holding h0 b c ps h" and "f c = Inr c'" and "mset qs = mset (fresh h # ps)"
  shows "\<exists>h'. modify b f ((fresh h, Bytes_cell) # h) = Inr h' \<and> holding h0 b c' qs h'"
proof -
  have new: "fresh h \<noteq> b" "fresh h \<notin> set ps" "map_of h0 (fresh h) = None"
    using assms(1) map_of_fresh [of h] by (auto simp: holding_def split: if_splits)
  have "holding h0 b c (fresh h # ps) ((fresh h, Bytes_cell) # h)"
    using assms(1) new by (auto simp: holding_def fun_eq_iff)
  from holding_modify [of h0 b c "fresh h # ps" "(fresh h, Bytes_cell) # h" f c', OF this assms(2)] show ?thesis
    using holding_perm [OF assms(3) [symmetric]] by blast
qed

text \<open>The rule for an array of a structure.\<close>

lemma sim_holding_array:
  assumes "\<And>h. I h \<Longrightarrow> \<exists>c ps. holding h0 b c ps h \<and>
      (\<exists>c' qs. f (fresh h) c = Inr c' \<and> mset qs = mset (fresh h # ps) \<and> (\<forall>h'. holding h0 b c' qs h' \<longrightarrow> J h'))"
    and "\<not> make_string \<Longrightarrow> (\<And>h. I h \<Longrightarrow> J h)"
  shows "sim I (rd_array A len make_string set_to) (m_array A len make_string set_to (\<lambda>p. modify b (f p))) J (keeps h0 b)"
proof (rule sim_array)
  fix h
  assume I: "I h"
  then obtain c ps c' qs where c: "holding h0 b c ps h" "f (fresh h) c = Inr c'" "mset qs = mset (fresh h # ps)"
    "\<forall>h'. holding h0 b c' qs h' \<longrightarrow> J h'"
    using assms(1) by blast
  show "keeps h0 b h" by (rule holding_keeps [OF c(1)])
  then show "keeps h0 b ((fresh h, Bytes_cell) # h)" by (rule keeps_alloc)
  show "\<exists>h'. modify b (f (fresh h)) ((fresh h, Bytes_cell) # h) = Inr h' \<and> J h'"
    using holding_array [OF c(1), of "f (fresh h)", OF c(2, 3)] c(4) by blast
qed (rule assms(2))

definition std_at :: "heap \<Rightarrow> addr \<Rightarrow> (addr option \<Rightarrow> addr option \<Rightarrow> addr option \<Rightarrow> bool) \<Rightarrow> heap \<Rightarrow> bool" where
  "std_at h0 b P h \<longleftrightarrow> (\<exists>x y z. P x y z \<and> holding h0 b (Std_cell x y z) (opt x @ opt y @ opt z) h)"

definition user_at :: "heap \<Rightarrow> addr \<Rightarrow> (addr option \<Rightarrow> addr option \<Rightarrow> bool) \<Rightarrow> heap \<Rightarrow> bool" where
  "user_at h0 b P h \<longleftrightarrow> (\<exists>x y. P x y \<and> holding h0 b (User_cell x y) (opt x @ opt y) h)"

definition wire_at :: "heap \<Rightarrow> addr \<Rightarrow> (addr option \<Rightarrow> addr option \<Rightarrow> bool) \<Rightarrow> payload_type_t \<Rightarrow> addr option \<Rightarrow> heap \<Rightarrow> bool" where
  "wire_at h0 a P t l h \<longleftrightarrow> (\<exists>u q. P u q \<and> holding h0 a (Wire_cell u q t l) (opt u @ opt q) h)"

lemma std_at_keeps: "std_at h0 b P h \<Longrightarrow> keeps h0 b h"
  by (auto simp: std_at_def holding_keeps)

lemma std_at_mono: "std_at h0 b P h \<Longrightarrow> (\<And>x y z. P x y z \<Longrightarrow> P' x y z) \<Longrightarrow> std_at h0 b P' h"
  unfolding std_at_def by blast

lemma user_at_mono: "user_at h0 b P h \<Longrightarrow> (\<And>x y. P x y \<Longrightarrow> P' x y) \<Longrightarrow> user_at h0 b P' h"
  unfolding user_at_def by blast

lemma user_at_keeps: "user_at h0 b P h \<Longrightarrow> keeps h0 b h"
  by (auto simp: user_at_def holding_keeps)

lemma wire_at_keeps: "wire_at h0 b P t l h \<Longrightarrow> keeps h0 b h"
  by (auto simp: wire_at_def holding_keeps)

lemma sim_wire_array:
  assumes "\<And>u q p. P u q \<Longrightarrow> \<exists>u' q'. f p (Wire_cell u q t l) = Inr (Wire_cell u' q' t l) \<and>
      mset (opt u' @ opt q') = mset (p # opt u @ opt q) \<and> P' u' q'"
  shows "sim (wire_at h0 a P t l) (rd_array A len True set_to) (m_array A len True set_to (\<lambda>p. modify a (f p)))
    (wire_at h0 a P' t l) (keeps h0 a)"
proof (rule sim_holding_array)
  fix h
  assume "wire_at h0 a P t l h"
  then obtain u q where u: "P u q" "holding h0 a (Wire_cell u q t l) (opt u @ opt q) h" by (auto simp: wire_at_def)
  obtain u' q' where "f (fresh h) (Wire_cell u q t l) = Inr (Wire_cell u' q' t l)"
    "mset (opt u' @ opt q') = mset (fresh h # opt u @ opt q)" "P' u' q'"
    using assms [OF u(1), of "fresh h"] by blast
  moreover from this(3) have "\<forall>h'. holding h0 a (Wire_cell u' q' t l) (opt u' @ opt q') h' \<longrightarrow> wire_at h0 a P' t l h'"
    by (auto simp: wire_at_def)
  ultimately show "\<exists>c ps. holding h0 a c ps h \<and> (\<exists>c' qs. f (fresh h) c = Inr c' \<and> mset qs = mset (fresh h # ps) \<and>
      (\<forall>h'. holding h0 a c' qs h' \<longrightarrow> wire_at h0 a P' t l h'))"
    using u(2) by blast
qed simp

lemma sim_std_array:
  assumes "\<And>x y z p. P x y z \<Longrightarrow> \<exists>x' y' z'. f p (Std_cell x y z) = Inr (Std_cell x' y' z') \<and>
      mset (opt x' @ opt y' @ opt z') = mset (p # opt x @ opt y @ opt z) \<and> P' x' y' z'"
    and "\<And>x y z. \<not> make_string \<Longrightarrow> P x y z \<Longrightarrow> P' x y z"
  shows "sim (std_at h0 b P) (rd_array A len make_string set_to) (m_array A len make_string set_to (\<lambda>p. modify b (f p)))
    (std_at h0 b P') (keeps h0 b)"
proof (rule sim_holding_array)
  fix h
  assume "std_at h0 b P h"
  then obtain x y z where x: "P x y z" "holding h0 b (Std_cell x y z) (opt x @ opt y @ opt z) h" by (auto simp: std_at_def)
  obtain x' y' z' where "f (fresh h) (Std_cell x y z) = Inr (Std_cell x' y' z')"
    "mset (opt x' @ opt y' @ opt z') = mset (fresh h # opt x @ opt y @ opt z)" "P' x' y' z'"
    using assms(1) [OF x(1), of "fresh h"] by blast
  moreover from this(3) have "\<forall>h'. holding h0 b (Std_cell x' y' z') (opt x' @ opt y' @ opt z') h' \<longrightarrow> std_at h0 b P' h'"
    by (auto simp: std_at_def)
  ultimately show "\<exists>c ps. holding h0 b c ps h \<and> (\<exists>c' qs. f (fresh h) c = Inr c' \<and> mset qs = mset (fresh h # ps) \<and>
      (\<forall>h'. holding h0 b c' qs h' \<longrightarrow> std_at h0 b P' h'))"
    using x(2) by blast
next
  fix h
  assume "\<not> make_string" and "std_at h0 b P h"
  then show "std_at h0 b P' h" using assms(2) by (auto elim: std_at_mono)
qed

lemma sim_user_array:
  assumes "\<And>x y p. P x y \<Longrightarrow> \<exists>x' y'. f p (User_cell x y) = Inr (User_cell x' y') \<and>
      mset (opt x' @ opt y') = mset (p # opt x @ opt y) \<and> P' x' y'"
  shows "sim (user_at h0 b P) (rd_array A len True set_to) (m_array A len True set_to (\<lambda>p. modify b (f p)))
    (user_at h0 b P') (keeps h0 b)"
proof (rule sim_holding_array)
  fix h
  assume "user_at h0 b P h"
  then obtain x y where x: "P x y" "holding h0 b (User_cell x y) (opt x @ opt y) h" by (auto simp: user_at_def)
  obtain x' y' where "f (fresh h) (User_cell x y) = Inr (User_cell x' y')"
    "mset (opt x' @ opt y') = mset (fresh h # opt x @ opt y)" "P' x' y'"
    using assms [OF x(1), of "fresh h"] by blast
  moreover from this(3) have "\<forall>h'. holding h0 b (User_cell x' y') (opt x' @ opt y') h' \<longrightarrow> user_at h0 b P' h'"
    by (auto simp: user_at_def)
  ultimately show "\<exists>c ps. holding h0 b c ps h \<and> (\<exists>c' qs. f (fresh h) c = Inr c' \<and> mset qs = mset (fresh h # ps) \<and>
      (\<forall>h'. holding h0 b c' qs h' \<longrightarrow> user_at h0 b P' h'))"
    using x(2) by blast
qed simp

lemma sim_header:
  "sim (wire_at h0 a (\<lambda>u q. u = None \<and> q = None) NO_PAYLOAD None) (read_header A) (m_header A a)
    (wire_at h0 a (\<lambda>u q. u \<noteq> None \<and> q \<noteq> None) NO_PAYLOAD None) (keeps h0 a)"
  (is "sim ?I0 _ _ ?I2 ?F")
proof -
  let ?I1 = "wire_at h0 a (\<lambda>u q. u \<noteq> None \<and> q = None) NO_PAYLOAD None"
  have user: "sim ?I0 (rd_array A (\<lambda>w. unat (wp_username_len w)) True (\<lambda>a w. w\<lparr>wp_username := map_option cstr a\<rparr>))
    (m_array A (\<lambda>w. unat (wp_username_len w)) True (\<lambda>a w. w\<lparr>wp_username := map_option cstr a\<rparr>) (\<lambda>p. modify a (wire_username p))) ?I1 ?F"
    by (rule sim_wire_array) auto
  have passwd: "sim ?I1 (rd_array A (\<lambda>w. unat (wp_passwd_len w)) True (\<lambda>a w. w\<lparr>wp_passwd := map_option cstr a\<rparr>))
    (m_array A (\<lambda>w. unat (wp_passwd_len w)) True (\<lambda>a w. w\<lparr>wp_passwd := map_option cstr a\<rparr>) (\<lambda>p. modify a (wire_passwd p))) ?I2 ?F"
    by (rule sim_wire_array) auto
  show ?thesis unfolding read_header_def m_header_def
    by (rule sim_Cons [OF sim_field [OF wire_at_keeps]]
          sim_Cons [OF user] sim_Cons [OF passwd] sim_Nil | assumption)+
qed

lemma sim_std_file:
  "sim (std_at h0 b (\<lambda>x y z. y = None \<and> z = None)) (read_std_file A n) (m_std_file A n b) (std_at h0 b (\<lambda>x y z. True)) (keeps h0 b)"
proof -
  have hash: "sim (std_at h0 b (\<lambda>x y z. y = None \<and> z = None))
      (rd_array A (\<lambda>_. H_HASH_LEN) False (\<lambda>a p. p\<lparr>sp_hash_stream := a\<rparr>))
      (m_array A (\<lambda>_. H_HASH_LEN) False (\<lambda>a p. p\<lparr>sp_hash_stream := a\<rparr>) (\<lambda>p. modify b (std_hash p)))
      (std_at h0 b (\<lambda>x y z. y = None)) (keeps h0 b)"
    by (rule sim_std_array) auto
  have size: "sim I (\<lambda>(p, inp). Inr (OP_SUCCESS, p\<lparr>sp_byte_stream_len := get_file_stream_size n (sp_path_len p)\<rparr>, inp))
      (\<lambda>((p, h), inp). Inr (OP_SUCCESS, (p\<lparr>sp_byte_stream_len := get_file_stream_size n (sp_path_len p)\<rparr>, h), inp)) I F" for I F
    by (simp add: sim_def matches_def)
  have stream: "sim (std_at h0 b (\<lambda>x y z. y = None))
      (rd_array A (\<lambda>p. unat (sp_byte_stream_len p)) False (\<lambda>a p. p\<lparr>sp_byte_stream := a\<rparr>))
      (m_array A (\<lambda>p. unat (sp_byte_stream_len p)) False (\<lambda>a p. p\<lparr>sp_byte_stream := a\<rparr>) (\<lambda>p. modify b (std_stream p)))
      (std_at h0 b (\<lambda>x y z. True)) (keeps h0 b)"
    by (rule sim_std_array) auto
  have none: "sim (std_at h0 b (\<lambda>x y z. y = None \<and> z = None)) (\<lambda>(p, inp). Inr (OP_SUCCESS, p, inp))
      (\<lambda>((p, h), inp). Inr (OP_SUCCESS, (p, h), inp)) (std_at h0 b (\<lambda>x y z. True)) (keeps h0 b)"
    by (auto simp: sim_def matches_def elim: std_at_mono)
  have "read_std_file A n = (\<lambda>(p, inp). if std_payload_has_file n (sp_path_len p) then
      reads [rd_array A (\<lambda>_. H_HASH_LEN) False (\<lambda>a p. p\<lparr>sp_hash_stream := a\<rparr>),
        \<lambda>(p, inp). Inr (OP_SUCCESS, p\<lparr>sp_byte_stream_len := get_file_stream_size n (sp_path_len p)\<rparr>, inp),
        rd_array A (\<lambda>p. unat (sp_byte_stream_len p)) False (\<lambda>a p. p\<lparr>sp_byte_stream := a\<rparr>)] (p, inp)
      else (\<lambda>(p, inp). Inr (OP_SUCCESS, p, inp)) (p, inp))"
    by (auto simp: fun_eq_iff read_std_file_def)
  moreover have "m_std_file A n b = (\<lambda>((p, h), inp). if std_payload_has_file n (sp_path_len p) then
      reads [m_array A (\<lambda>_. H_HASH_LEN) False (\<lambda>a p. p\<lparr>sp_hash_stream := a\<rparr>) (\<lambda>p. modify b (std_hash p)),
        \<lambda>((p, h), inp). Inr (OP_SUCCESS, (p\<lparr>sp_byte_stream_len := get_file_stream_size n (sp_path_len p)\<rparr>, h), inp),
        m_array A (\<lambda>p. unat (sp_byte_stream_len p)) False (\<lambda>a p. p\<lparr>sp_byte_stream := a\<rparr>) (\<lambda>p. modify b (std_stream p))]
        ((p, h), inp)
      else (\<lambda>((p, h), inp). Inr (OP_SUCCESS, (p, h), inp)) ((p, h), inp))"
    by (auto simp: fun_eq_iff m_std_file_def)
  ultimately show ?thesis
    by (simp only:) (rule sim_if [OF sim_Cons [OF hash sim_Cons [OF size sim_last [OF stream]]] none])
qed

lemma sim_user_password:
  "sim (user_at h0 b (\<lambda>x y. y = None)) (read_user_password A n) (m_user_password A n b) (user_at h0 b (\<lambda>x y. True)) (keeps h0 b)"
proof -
  have passwd: "sim (user_at h0 b (\<lambda>x y. y = None))
      (rd_array A (\<lambda>p. unat (up_passwd_len p)) True (\<lambda>a p. p\<lparr>up_passwd := map_option cstr a\<rparr>))
      (m_array A (\<lambda>p. unat (up_passwd_len p)) True (\<lambda>a p. p\<lparr>up_passwd := map_option cstr a\<rparr>) (\<lambda>p. modify b (user_passwd p)))
      (user_at h0 b (\<lambda>x y. True)) (keeps h0 b)"
    by (rule sim_user_array) auto
  have none: "sim (user_at h0 b (\<lambda>x y. y = None)) (\<lambda>(p, inp). Inr (OP_SUCCESS, p, inp))
      (\<lambda>((p, h), inp). Inr (OP_SUCCESS, (p, h), inp)) (user_at h0 b (\<lambda>x y. True)) (keeps h0 b)"
    by (auto simp: sim_def matches_def elim: user_at_mono)
  have "read_user_password A n = (\<lambda>(p, inp). if user_payload_has_password n (up_username_len p) then
      reads [rd_field A H_PASSWORD_LEN (\<lambda>bs p. p\<lparr>up_passwd_len := htons True (load_mem True bs)\<rparr>),
        rd_array A (\<lambda>p. unat (up_passwd_len p)) True (\<lambda>a p. p\<lparr>up_passwd := map_option cstr a\<rparr>)] (p, inp)
      else (\<lambda>(p, inp). Inr (OP_SUCCESS, p, inp)) (p, inp))"
    by (auto simp: fun_eq_iff read_user_password_def)
  moreover have "m_user_password A n b = (\<lambda>((p, h), inp). if user_payload_has_password n (up_username_len p) then
      reads [m_field A H_PASSWORD_LEN (\<lambda>bs p. p\<lparr>up_passwd_len := htons True (load_mem True bs)\<rparr>),
        m_array A (\<lambda>p. unat (up_passwd_len p)) True (\<lambda>a p. p\<lparr>up_passwd := map_option cstr a\<rparr>) (\<lambda>p. modify b (user_passwd p))]
        ((p, h), inp)
      else (\<lambda>((p, h), inp). Inr (OP_SUCCESS, (p, h), inp)) ((p, h), inp))"
    by (auto simp: fun_eq_iff m_user_password_def)
  ultimately show ?thesis
    by (simp only:) (rule sim_if [OF sim_Cons [OF sim_field [OF user_at_keeps] sim_last [OF passwd]] none])
qed

text \<open>The structure of the payload is allocated and the union of the request set to it.\<close>

lemma union_set:
  assumes "map_of h a = Some (Wire_cell u q t l)"
  shows "modify a (wire_union (fresh h)) ((fresh h, c) # h) =
      Inr ((fresh h, c) # AList.update a (Wire_cell u q t (Some (fresh h))) h)" (is ?run)
    and "holding (AList.update a (Wire_cell u q t (Some (fresh h))) h) (fresh h) c []
      ((fresh h, c) # AList.update a (Wire_cell u q t (Some (fresh h))) h)" (is ?new)
proof -
  have "fresh h \<noteq> a" using assms map_of_fresh [of h] by auto
  then show ?run ?new
    using assms modify_runs [of "(fresh h, c) # h" a "Wire_cell u q t l" "wire_union (fresh h)"]
    by (simp_all add: holding_def update_conv' fun_eq_iff)
qed

lemma keeps_update:
  assumes "keeps (AList.update a c h) b h'" and "keeps h0 a h"
  shows "keeps h0 a h'"
  using assms by (auto simp: keeps_def update_conv')

lemma std_payload_matches:
  assumes a: "map_of h a = Some (Wire_cell u q t l)" and k: "keeps h0 a h"
  shows "matches (read_client_std_payload A (w, inp)) (m_client_std_payload A a ((w, h), inp))
    (std_at (AList.update a (Wire_cell u q t (Some (fresh h))) h) (fresh h) (\<lambda>x y z. True)) (keeps h0 a)"
proof (cases "A sizeof_payload")
  case True
  let ?H = "AList.update a (Wire_cell u q t (Some (fresh h))) h"
  have path: "sim (std_at ?H (fresh h) (\<lambda>x y z. x = None \<and> y = None \<and> z = None))
      (rd_array A (\<lambda>p. unat (sp_path_len p)) True (\<lambda>a p. p\<lparr>sp_path := map_option cstr a\<rparr>))
      (m_array A (\<lambda>p. unat (sp_path_len p)) True (\<lambda>a p. p\<lparr>sp_path := map_option cstr a\<rparr>) (\<lambda>p. modify (fresh h) (std_path p)))
      (std_at ?H (fresh h) (\<lambda>x y z. y = None \<and> z = None)) (keeps ?H (fresh h))"
    by (rule sim_std_array) auto
  have new: "std_at ?H (fresh h) (\<lambda>x y z. x = None \<and> y = None \<and> z = None) ((fresh h, Std_cell None None None) # ?H)"
    using union_set(2) [OF a, of "Std_cell None None None"] by (auto simp: std_at_def)
  note body = matches_rbind [OF simD [OF sim_Cons [OF sim_field [OF std_at_keeps] sim_Cons [OF path sim_last [OF sim_std_file]]] new]]
  show ?thesis
    unfolding read_client_std_payload_def m_client_std_payload_def malloc_def Let_def prod.case union_set(1) [OF a] rbind_Inr
    using True by (simp del: reads.simps) (rule matches_mono [OF body _ keeps_update [OF _ k]])
qed (simp add: read_client_std_payload_def m_client_std_payload_def matches_def k)

lemma user_payload_matches:
  assumes a: "map_of h a = Some (Wire_cell u q t l)" and k: "keeps h0 a h"
  defines "h1 \<equiv> AList.update a (Wire_cell u q USER_PAYLOAD l) h"
  shows "matches (read_client_user_payload A (w, inp)) (m_client_user_payload A a ((w, h), inp))
    (user_at (AList.update a (Wire_cell u q USER_PAYLOAD (Some (fresh h1))) h1) (fresh h1) (\<lambda>x y. True)) (keeps h0 a)"
proof -
  have a1: "map_of h1 a = Some (Wire_cell u q USER_PAYLOAD l)" by (simp add: h1_def update_conv')
  have k1: "keeps h0 a h1" using k by (auto simp: h1_def keeps_def update_conv')
  have run: "modify a (wire_type USER_PAYLOAD) h = Inr h1" using modify_runs [OF a] by (simp add: h1_def)
  show ?thesis
  proof (cases "A sizeof_payload")
    case True
    let ?H = "AList.update a (Wire_cell u q USER_PAYLOAD (Some (fresh h1))) h1"
    have name: "sim (user_at ?H (fresh h1) (\<lambda>x y. x = None \<and> y = None))
        (rd_array A (\<lambda>p. unat (up_username_len p)) True (\<lambda>a p. p\<lparr>up_username := map_option cstr a\<rparr>))
        (m_array A (\<lambda>p. unat (up_username_len p)) True (\<lambda>a p. p\<lparr>up_username := map_option cstr a\<rparr>) (\<lambda>p. modify (fresh h1) (user_name p)))
        (user_at ?H (fresh h1) (\<lambda>x y. y = None)) (keeps ?H (fresh h1))"
      by (rule sim_user_array) auto
    have new: "user_at ?H (fresh h1) (\<lambda>x y. x = None \<and> y = None) ((fresh h1, User_cell None None) # ?H)"
      using union_set(2) [OF a1, of "User_cell None None"] by (auto simp: user_at_def)
    note body = matches_rbind [OF simD [OF sim_Cons [OF sim_field [OF user_at_keeps] sim_Cons [OF sim_field [OF user_at_keeps]
        sim_Cons [OF sim_field [OF user_at_keeps] sim_Cons [OF name sim_last [OF sim_user_password]]]]] new]]
    show ?thesis
      unfolding read_client_user_payload_def m_client_user_payload_def malloc_def Let_def prod.case run union_set(1) [OF a1] rbind_Inr
      using True by (simp del: reads.simps) (rule matches_mono [OF body _ keeps_update [OF _ k1]])
  qed (simp add: read_client_user_payload_def m_client_user_payload_def matches_def run k1)
qed

section \<open>A request in memory\<close>

text \<open>
  The request \<open>w\<close> lies at \<open>a\<close>, in blocks that \<open>h0\<close> does not have, and the blocks of \<open>h0\<close> are there. Only the
  hash of a file lies in a further block.
\<close>

definition request_mem :: "heap \<Rightarrow> addr \<Rightarrow> wire_payload_t \<Rightarrow> heap \<Rightarrow> bool" where
  "request_mem h0 a w h \<longleftrightarrow> request_at h a w \<and>
    (let bs = payload_blocks h (wire_ld h a) @ head_blocks h a in
     alive h bs \<and> (\<forall>k \<in> set bs. map_of h0 k = None) \<and> (\<forall>k. map_of h0 k \<noteq> None \<longrightarrow> map_of h k = map_of h0 k) \<and>
     (case wp_payload w of
        Std_payload _ \<Rightarrow> True
      | _ \<Rightarrow> \<forall>k. k \<notin> set bs \<longrightarrow> map_of h k = map_of h0 k))"

lemma holding_alive: "holding h0 b c ps h \<Longrightarrow> alive h (ps @ [b])"
  by (auto simp: holding_def alive_def list_all_iff)

lemma two_structures:
  assumes h: "holding h0 a (Wire_cell u q t l) (opt u @ opt q) h"
    and h': "holding (AList.update a (Wire_cell u q t' (Some b)) h) b c ps h'"
  shows "map_of h' a = Some (Wire_cell u q t' (Some b))" and "map_of h' b = Some c"
    and "alive h' ((ps @ [b]) @ opt u @ opt q @ [a])"
    and "k \<in> set ((ps @ [b]) @ opt u @ opt q @ [a]) \<Longrightarrow> map_of h0 k = None"
    and "k \<notin> set ((ps @ [b]) @ opt u @ opt q @ [a]) \<Longrightarrow> map_of h' k = map_of h0 k"
proof -
  let ?H = "AList.update a (Wire_cell u q t' (Some b)) h"
  have H: "map_of ?H = (map_of h)(a \<mapsto> Wire_cell u q t' (Some b))" by (simp add: update_conv')
  have new: "\<forall>k \<in> set (b # ps). k \<noteq> a \<and> map_of h k = None" using h' H by (auto simp: holding_def split: if_splits)
  have sep: "set (opt u @ opt q) \<inter> set (b # ps) = {}" using new h by (fastforce simp: holding_def)
  have dist: "distinct (ps @ [b])" "distinct (opt u @ opt q @ [a])" "a \<notin> set (ps @ [b])"
    using h h' new by (simp_all only: holding_def) auto
  have m: "map_of h' = (\<lambda>k. if k = b then Some c else if k \<in> set ps then Some Bytes_cell else
      if k = a then Some (Wire_cell u q t' (Some b)) else if k \<in> set (opt u @ opt q) then Some Bytes_cell else map_of h0 k)"
    using h h' H by (auto simp: holding_def fun_eq_iff)
  show "map_of h' a = Some (Wire_cell u q t' (Some b))" "map_of h' b = Some c" using m new by auto
  show "alive h' ((ps @ [b]) @ opt u @ opt q @ [a])"
    using dist sep unfolding alive_def list_all_iff m by auto
  show "map_of h0 k = None" if "k \<in> set ((ps @ [b]) @ opt u @ opt q @ [a])"
    using that h new by (auto simp: holding_def split: if_splits)
  show "map_of h' k = map_of h0 k" if "k \<notin> set ((ps @ [b]) @ opt u @ opt q @ [a])"
    using that m by auto
qed

lemma std_request_mem:
  assumes "holding h0 a (Wire_cell u q t l) (opt u @ opt q) h"
    and "std_at (AList.update a (Wire_cell u q t (Some b)) h) b P h'"
    and "wp_type w = t" and "wp_payload w = Std_payload s"
  shows "request_mem h0 a w h'"
proof -
  obtain x y z where "holding (AList.update a (Wire_cell u q t (Some b)) h) b (Std_cell x y z) (opt x @ opt y @ opt z) h'"
    using assms(2) by (auto simp: std_at_def)
  note two = two_structures [OF assms(1) this]
  have at: "request_at h' a w" using two(1, 2) assms(3, 4) by (simp add: request_at_def)
  have bs: "payload_blocks h' (wire_ld h' a) @ head_blocks h' a = (opt x @ opt y @ [b]) @ opt u @ opt q @ [a]"
    using two(1, 2) by (simp add: payload_blocks_def wire_ld_def head_blocks_def)
  have "alive h' ((opt x @ opt y @ [b]) @ opt u @ opt q @ [a])" using two(3) by (auto simp: alive_def)
  moreover have "\<forall>k \<in> set ((opt x @ opt y @ [b]) @ opt u @ opt q @ [a]). map_of h0 k = None" using two(4) by auto
  moreover have "\<forall>k. map_of h0 k \<noteq> None \<longrightarrow> map_of h' k = map_of h0 k" using two(4, 5) by metis
  ultimately show ?thesis unfolding request_mem_def Let_def bs using at assms(4) by simp
qed

lemma user_request_mem:
  assumes "holding h0 a (Wire_cell u q t l) (opt u @ opt q) h"
    and "user_at (AList.update a (Wire_cell u q t (Some b)) h) b P h'"
    and "wp_type w = t" and "wp_payload w = User_payload s"
  shows "request_mem h0 a w h'"
proof -
  obtain x y where "holding (AList.update a (Wire_cell u q t (Some b)) h) b (User_cell x y) (opt x @ opt y) h'"
    using assms(2) by (auto simp: user_at_def)
  note two = two_structures [OF assms(1) this]
  have at: "request_at h' a w" using two(1, 2) assms(3, 4) by (simp add: request_at_def)
  have bs: "payload_blocks h' (wire_ld h' a) @ head_blocks h' a = ((opt x @ opt y) @ [b]) @ opt u @ opt q @ [a]"
    using two(1, 2) by (simp add: payload_blocks_def wire_ld_def head_blocks_def)
  have "\<forall>k. map_of h0 k \<noteq> None \<longrightarrow> map_of h' k = map_of h0 k" using two(4, 5) by metis
  then show ?thesis unfolding request_mem_def Let_def bs using at assms(4) two(3-5) by simp
qed

lemma head_request_mem:
  assumes "holding h0 a (Wire_cell u q t None) (opt u @ opt q) h"
    and "wp_type w = t" and "wp_payload w = Null_payload"
  shows "request_mem h0 a w h"
proof -
  have c: "map_of h a = Some (Wire_cell u q t None)" using assms(1) by (simp add: holding_def)
  then have bs: "payload_blocks h (wire_ld h a) @ head_blocks h a = opt u @ opt q @ [a]"
    by (simp add: payload_blocks_def wire_ld_def head_blocks_def)
  have "request_at h a w" using c assms(2, 3) by (simp add: request_at_def)
  moreover have "alive h (opt u @ opt q @ [a])" using holding_alive [OF assms(1)] by simp
  moreover have "\<forall>k \<in> set (opt u @ opt q @ [a]). map_of h0 k = None" "\<forall>k. k \<notin> set (opt u @ opt q @ [a]) \<longrightarrow> map_of h k = map_of h0 k"
    "\<forall>k. map_of h0 k \<noteq> None \<longrightarrow> map_of h k = map_of h0 k"
    using assms(1) by (auto simp: holding_def)
  ultimately show ?thesis unfolding request_mem_def Let_def bs using assms(3) by simp
qed

lemma reads_one: "reads [f] (w, inp) = f (w, inp)"
  by (cases "f (w, inp)") auto

lemma payload_matches:
  assumes h: "holding h0 a (Wire_cell u q NO_PAYLOAD None) (opt u @ opt q) h"
    and w: "wp_payload w = Null_payload" "wp_type w = NO_PAYLOAD"
  shows "matches (read_payload A (w, inp)) (m_payload A a ((w, h), inp))
    (\<lambda>h'. \<forall>w' inp'. read_payload A (w, inp) = Inr (OP_SUCCESS, w', inp') \<longrightarrow> request_mem h0 a w' h') (keeps h0 a)"
proof -
  have c: "map_of h a = Some (Wire_cell u q NO_PAYLOAD None)" using h by (simp add: holding_def)
  have k: "keeps h0 a h" by (rule holding_keeps [OF h])
  let ?h1 = "AList.update a (Wire_cell u q USER_PAYLOAD None) h"
  have h1: "holding h0 a (Wire_cell u q USER_PAYLOAD None) (opt u @ opt q) ?h1"
    using holding_modify [OF h, of "wire_type USER_PAYLOAD"] by simp
  consider (user) "wp_opt_code w = ACT_USER_OPERATION" | (std) "wp_opt_code w \<noteq> ACT_USER_OPERATION" "wp_opt_code w \<noteq> ACT_LOCAL_OPERATION"
    | (head) "wp_opt_code w \<noteq> ACT_USER_OPERATION" "wp_opt_code w = ACT_LOCAL_OPERATION"
    by blast
  then show ?thesis
  proof cases
    case user
    have "request_mem h0 a w' h'"
      if "user_at (AList.update a (Wire_cell u q USER_PAYLOAD (Some (fresh ?h1))) ?h1) (fresh ?h1) (\<lambda>x y. True) h'"
        and "read_client_user_payload A (w, inp) = Inr (OP_SUCCESS, w', inp')" for h' w' inp'
      using user_request_mem [OF h1 that(1)] read_user_success [OF that(2)] by auto
    moreover have "read_payload A (w, inp) = read_client_user_payload A (w, inp)" "m_payload A a ((w, h), inp) = m_client_user_payload A a ((w, h), inp)"
      using user by (simp_all add: read_payload_def m_payload_def)
    ultimately show ?thesis by (simp only:) (rule matches_mono [OF user_payload_matches [OF c k]], blast+)
  next
    case std
    have "request_mem h0 a w' h'"
      if "std_at (AList.update a (Wire_cell u q NO_PAYLOAD (Some (fresh h))) h) (fresh h) (\<lambda>x y z. True) h'"
        and "read_client_std_payload A (w, inp) = Inr (OP_SUCCESS, w', inp')" for h' w' inp'
      using std_request_mem [OF h that(1)] read_std_success [OF that(2)] w by auto
    moreover have "read_payload A (w, inp) = read_client_std_payload A (w, inp)" "m_payload A a ((w, h), inp) = m_client_std_payload A a ((w, h), inp)"
      using std by (simp_all add: read_payload_def m_payload_def)
    ultimately show ?thesis by (simp only:) (rule matches_mono [OF std_payload_matches [OF c k]], blast+)
  next
    case head
    then show ?thesis using head_request_mem [OF h w(2, 1)]
      by (auto simp: matches_def read_payload_def m_payload_def)
  qed
qed

lemma request_matches:
  fixes h0 inp A
  defines "a \<equiv> fresh h0" and "x \<equiv> reads [read_header A, read_payload A] (zero_wire, inp)"
  shows "matches x (reads [m_header A a, m_payload A a] ((zero_wire, (a, Wire_cell None None NO_PAYLOAD None) # h0), inp))
    (\<lambda>h. \<forall>w inp'. x = Inr (OP_SUCCESS, w, inp') \<longrightarrow> request_mem h0 a w h) (keeps h0 a)"
proof -
  let ?h = "(a, Wire_cell None None NO_PAYLOAD None) # h0"
  have "wire_at h0 a (\<lambda>u q. u = None \<and> q = None) NO_PAYLOAD None ?h"
    using holding_new [of h0] by (simp add: wire_at_def a_def)
  note m = simD [OF sim_header this, of A zero_wire inp]
  show ?thesis
  proof (cases "read_header A (zero_wire, inp)")
    case (Inl e)
    then show ?thesis using m by (simp add: matches_def x_def)
  next
    case (Inr y)
    obtain r w1 inp1 where y: "y = (r, w1, inp1)" by (cases y)
    obtain h1 where h1: "m_header A a ((zero_wire, ?h), inp) = Inr (r, (w1, h1), inp1)"
      "r = OP_SUCCESS \<longrightarrow> wire_at h0 a (\<lambda>u q. u \<noteq> None \<and> q \<noteq> None) NO_PAYLOAD None h1" "r \<noteq> OP_SUCCESS \<longrightarrow> keeps h0 a h1"
      using m Inr y by (auto simp: matches_def)
    show ?thesis
    proof (cases "r = OP_SUCCESS")
      case True
      then obtain u q where "holding h0 a (Wire_cell u q NO_PAYLOAD None) (opt u @ opt q) h1"
        using h1(2) by (auto simp: wire_at_def)
      moreover have "wp_payload w1 = Null_payload" "wp_type w1 = NO_PAYLOAD"
        using read_header_success [of A inp w1 inp1] Inr y True by simp_all
      moreover have "x = read_payload A (w1, inp1)"
        "reads [m_header A a, m_payload A a] ((zero_wire, ?h), inp) = m_payload A a ((w1, h1), inp1)"
        using Inr y h1(1) True reads_one [of "read_payload A"] reads_one [of "m_payload A a"] by (simp_all add: x_def)
      ultimately show ?thesis using payload_matches by simp
    qed (use h1 Inr y in \<open>simp add: matches_def x_def\<close>)
  qed
qed

lemma m_write_response_eq:
  "m_write_response A s resp ws h = rbind (write_response A s (Some resp) ws) (\<lambda>(pkts, ws). Inr (pkts, ws, h))"
  by (auto simp: m_write_response_def write_response_def malloc_def free_fresh rbind_def Let_def split: sum.splits prod.splits)

text \<open>The response of \<^verbatim>\<open>ctrl_parse_action\<close> lies in new blocks.\<close>

lemma malloc_new: "malloc c h = (b, h') \<Longrightarrow> map_of h b = None \<and> map_of h' = (map_of h)(b \<mapsto> c)"
  by (auto simp: malloc_def)

lemma content_mem:
  obtains b d q c e h' where "m_content h = (c, h')" and "distinct [b, d, q, c, e]"
    and "\<forall>k \<in> {b, d, q, c, e}. map_of h k = None"
    and "map_of h' = (map_of h)(b \<mapsto> Bytes_cell, d \<mapsto> Bytes_cell, q \<mapsto> Hash_cell (Some d), e \<mapsto> Bytes_cell,
      c \<mapsto> Content_cell (Some q) (Some b) (Some e))"
proof -
  obtain b h1 where b: "malloc Bytes_cell h = (b, h1)" by fastforce
  obtain d h2 where d: "malloc Bytes_cell h1 = (d, h2)" by fastforce
  obtain q h3 where q: "malloc (Hash_cell (Some d)) h2 = (q, h3)" by fastforce
  obtain c h4 where c: "malloc (Content_cell None None None) h3 = (c, h4)" by fastforce
  obtain e h5 where e: "malloc Bytes_cell h4 = (e, h5)" by fastforce
  note all = b d q c e
  note new = all [THEN malloc_new]
  have "m_content h = (c, AList.update c (Content_cell (Some q) (Some b) (Some e)) h5)"
    using all by (simp add: m_content_def)
  moreover have dist: "distinct [b, d, q, c, e]" and "\<forall>k \<in> {b, d, q, c, e}. map_of h k = None"
    using new by (auto split: if_splits)
  moreover have "map_of (AList.update c (Content_cell (Some q) (Some b) (Some e)) h5) =
      (map_of h)(b \<mapsto> Bytes_cell, d \<mapsto> Bytes_cell, q \<mapsto> Hash_cell (Some d), e \<mapsto> Bytes_cell,
        c \<mapsto> Content_cell (Some q) (Some b) (Some e))"
    using new dist by (auto simp: update_conv' fun_eq_iff)
  ultimately show thesis by (rule that)
qed

lemma resp_mem:
  assumes "m_resp resp h = (r, h')"
  shows "resp_typed h' (Some r) \<and> alive h' (resp_blocks h' (Some r)) \<and>
    (\<forall>k \<in> set (resp_blocks h' (Some r)). map_of h k = None) \<and>
    (\<forall>k. k \<notin> set (resp_blocks h' (Some r)) \<longrightarrow> map_of h' k = map_of h k)"
proof (cases "resp_content resp")
  case None
  then show ?thesis using assms
    by (auto simp: m_resp_def malloc_def resp_typed_def content_typed_def resp_blocks_def content_blocks_def alive_def)
next
  case (Some x)
  obtain h1 where h1: "malloc (Resp_cell None) h = (r, h1)" using assms Some
    by (cases "malloc (Resp_cell None) h") (auto simp: m_resp_def split: prod.splits)
  obtain b d q c e h2 where c: "m_content h1 = (c, h2)" "distinct [b, d, q, c, e]" "\<forall>k \<in> {b, d, q, c, e}. map_of h1 k = None"
    "map_of h2 = (map_of h1)(b \<mapsto> Bytes_cell, d \<mapsto> Bytes_cell, q \<mapsto> Hash_cell (Some d), e \<mapsto> Bytes_cell,
      c \<mapsto> Content_cell (Some q) (Some b) (Some e))"
    by (rule content_mem)
  have h': "h' = AList.update r (Resp_cell (Some c)) h2" using assms Some h1 c(1) by (simp add: m_resp_def)
  have new: "map_of h r = None" "\<forall>k \<in> {b, d, q, c, e}. k \<noteq> r \<and> map_of h k = None" "map_of h1 = (map_of h)(r \<mapsto> Resp_cell None)"
    using malloc_new [OF h1] c(3) by (auto split: if_splits)
  have m: "map_of h' = (map_of h)(b \<mapsto> Bytes_cell, d \<mapsto> Bytes_cell, q \<mapsto> Hash_cell (Some d), e \<mapsto> Bytes_cell,
      c \<mapsto> Content_cell (Some q) (Some b) (Some e), r \<mapsto> Resp_cell (Some c))"
    using new by (auto simp: h' update_conv' c(4) fun_eq_iff)
  have bs: "resp_blocks h' (Some r) = [d, q, b, e, c, r]"
    using c(2) new(2) by (auto simp: m resp_blocks_def content_blocks_def hash_blocks_def)
  show ?thesis unfolding bs using c(2) new
    by (auto simp: m alive_def resp_typed_def content_typed_def hash_typed_def)
qed

section \<open>The memory of a connection\<close>

lemma m_read_request:
  assumes "read_client_req A 0 inp ws = Inr (r, w, pkts, ws')"
  shows "\<exists>h'. m_read_client_req A 0 (fresh h) ((fresh h, Wire_cell None None NO_PAYLOAD None) # h) inp ws = Inr (r, w, pkts, ws', h') \<and>
    (if r = OP_SUCCESS then request_mem h (fresh h) w h' else keeps h (fresh h) h')"
proof -
  let ?x = "reads [read_header A, read_payload A] (zero_wire, inp)"
  obtain r' w' inp' where x: "?x = Inr (r', w', inp')"
    using assms by (auto simp: read_client_req_def rbind_eq_Inr_iff simp del: reads.simps)
  have same: "r' = r" "w' = w"
    using assms unfolding read_client_req_def x by (auto split: if_splits simp: rbind_eq_Inr_iff)
  obtain h' where h': "reads [m_header A (fresh h), m_payload A (fresh h)]
      ((zero_wire, (fresh h, Wire_cell None None NO_PAYLOAD None) # h), inp) = Inr (r', (w', h'), inp')"
    "r' = OP_SUCCESS \<longrightarrow> request_mem h (fresh h) w' h'" "r' \<noteq> OP_SUCCESS \<longrightarrow> keeps h (fresh h) h'"
    using request_matches [of A inp h] unfolding matches_def x by auto
  note defs = read_client_req_def m_read_client_req_def
  show ?thesis
  proof (cases "r = OP_SUCCESS")
    case True
    then show ?thesis using assms h' same x by (simp add: defs del: reads.simps)
  next
    case False
    have "m_read_client_req A 0 (fresh h) ((fresh h, Wire_cell None None NO_PAYLOAD None) # h) inp ws =
        Inr (r, w, pkts, ws', (fresh h', Resp_cell None) # h')"
      using assms h'(1) same x False
      by (auto simp: defs malloc_def Let_def m_write_response_eq rbind_eq_Inr_iff split: if_splits simp del: reads.simps)
    then show ?thesis using h'(3) same keeps_alloc False by auto
  qed
qed

lemma alive_append: "alive h (xs @ ys) \<longleftrightarrow> alive h xs \<and> alive h ys \<and> set xs \<inter> set ys = {}"
  by (auto simp: alive_def)

lemma payload_block_in: "b \<in> set (payload_blocks h (Some b))"
  by (auto simp: payload_blocks_def split: option.splits cell.splits)

text \<open>Building the response leaves the blocks of the request, and \<^verbatim>\<open>ctrl_destroy\<close> releases both.\<close>

lemma answered_memory:
  assumes read: "read_client_req A 0 inp ws = Inr (OP_SUCCESS, w, pkts, ws')" and mem: "request_mem h a w h1"
    and resp: "m_resp resp h1 = (r, h2)"
  shows "\<exists>h3. ctrl_destroy (Some (Some a)) (Some (Some r)) True h2 = Inr (Some None, Some None, h3) \<and>
    (\<forall>k. map_of h k \<noteq> None \<longrightarrow> map_of h3 k = map_of h k) \<and>
    ((\<exists>k. map_of h k = None \<and> map_of h3 k \<noteq> None) \<longleftrightarrow> (\<exists>p. wp_payload w = Std_payload p))"
proof -
  let ?P = "\<lambda>h. payload_blocks h (wire_ld h a)" and ?H = "\<lambda>h. head_blocks h a"
  let ?R = "resp_blocks h2 (Some r)"
  note m = mem [unfolded request_mem_def Let_def]
  note r = resp_mem [OF resp]
  have used: "map_of h1 k \<noteq> None" if "k \<in> set (?P h1 @ ?H h1)" for k
    using that m unfolding alive_def list_all_iff by blast
  then have sep: "k \<notin> set ?R" if "k \<in> set (?P h1 @ ?H h1)" for k using that r by blast
  then have kept: "map_of h2 k = map_of h1 k" if "k \<in> set (?P h1 @ ?H h1)" for k using that r by blast
  have a: "a \<in> set (?H h1)" by (auto simp: head_blocks_def split: option.splits cell.splits)
  then have ld: "wire_ld h2 a = wire_ld h1 a" "?H h2 = ?H h1" using kept [of a] by (simp_all add: wire_ld_def head_blocks_def)
  have l: "map_of h2 b = map_of h1 b" if "wire_ld h1 a = Some b" for b
    using kept [of b] that by (auto simp: payload_blocks_def split: option.splits cell.splits)
  then have P: "?P h2 = ?P h1" by (auto simp: payload_blocks_def ld split: option.splits)
  have at: "request_at h2 a w"
  proof -
    have at1: "request_at h1 a w" using m by blast
    then obtain u q t b where c: "map_of h1 a = Some (Wire_cell u q t b)"
      by (auto simp: request_at_def split: option.splits cell.splits)
    then have "map_of h2 a = Some (Wire_cell u q t b)" "\<And>x. b = Some x \<Longrightarrow> map_of h2 x = map_of h1 x"
      using kept [of a] a l by (simp_all add: wire_ld_def)
    then show ?thesis using at1 c by (cases b; cases "wp_payload w") (simp_all add: request_at_def)
  qed
  have "distinct (?P h1 @ ?H h1)" using m by (simp only: alive_def)
  moreover have "\<forall>k \<in> set (?P h1 @ ?H h1). map_of h2 k \<noteq> None" using kept used by metis
  ultimately have "alive h2 (?P h1 @ ?H h1)" by (simp only: alive_def list_all_iff)
  moreover have "set ?R \<inter> set (?P h1 @ ?H h1) = {}" using sep by blast
  ultimately have "alive h2 (?R @ ?P h1 @ ?H h1)" using r alive_append by blast
  then obtain h3 where h3: "ctrl_destroy (Some (Some a)) (Some (Some r)) True h2 = Inr (Some None, Some None, h3)"
    "\<forall>k. map_of h3 k = (if k \<in> set (?R @ ?P h1 @ ?H h1) - set (leaked h2 a w) then None else map_of h2 k)"
    using request_released [OF read at, of "Some r", unfolded ld P [unfolded ld]] r by blast
  have old: "map_of h3 k = map_of h k" if "map_of h k \<noteq> None" for k
  proof -
    have "map_of h1 k = map_of h k" using that m by blast
    moreover have "k \<notin> set (?P h1 @ ?H h1)" using that m by metis
    moreover have "k \<notin> set ?R" "map_of h2 k = map_of h1 k" using that r \<open>map_of h1 k = map_of h k\<close> by metis+
    ultimately show ?thesis using h3(2) by simp
  qed
  have "(\<exists>k. map_of h k = None \<and> map_of h3 k \<noteq> None) \<longleftrightarrow> (\<exists>p. wp_payload w = Std_payload p)"
  proof (cases "\<exists>p. wp_payload w = Std_payload p")
    case True
    moreover have "request_at h1 a w" using m by blast
    ultimately obtain b where b: "wire_ld h1 a = Some b" by (auto simp: request_at_def wire_ld_def split: option.splits cell.splits)
    then have "b \<in> set (?P h1)" by (simp add: payload_block_in)
    moreover have "leaked h2 a w = ?P h1" using True by (auto simp: leaked_def P)
    moreover from calculation have "map_of h2 b \<noteq> None" using kept [of b] used [of b] by simp
    moreover have "map_of h b = None" using \<open>b \<in> set (?P h1)\<close> m by simp
    ultimately have "map_of h b = None" "map_of h3 b \<noteq> None" using h3(2) by simp_all
    then show ?thesis using True by blast
  next
    case False
    then have "leaked h2 a w = []" "\<forall>k. k \<notin> set (?P h1 @ ?H h1) \<longrightarrow> map_of h1 k = map_of h k"
      using m by (auto simp: leaked_def split: payload_ptr.splits)
    then have "map_of h3 k = None" if "map_of h k = None" for k using that h3(2) r by auto
    then show ?thesis using False by metis
  qed
  then show ?thesis using h3(1) old by blast
qed

text \<open>The connections that leave nothing behind.\<close>

definition conn_clean :: "(nat \<Rightarrow> bool) \<Rightarrow> conn \<Rightarrow> bool" where
  "conn_clean A c \<longleftrightarrow> \<not> cn_sockopt c \<or> \<not> A sizeof_wire \<or>
    (case read_client_req A 0 (cn_in c) (cn_writes c) of
       Inl _ \<Rightarrow> False
     | Inr (result, w, _) \<Rightarrow> result = OP_SUCCESS \<and> (case wp_payload w of Std_payload _ \<Rightarrow> False | _ \<Rightarrow> True))"

text \<open>Property C13: the memory of a connection. A connection that is served in the model without a heap
  is served with one in the same way: no block is freed twice, none is used after it was freed, no member
  of the union is read as another. It closes its own descriptor, once; its worker payload is released; the blocks that were there before are
  as they were. Every block it allocated is released, unless reading the request failed, or the request was
  one on files: exactly then something stays allocated.
\<close>

theorem connection_memory:
  assumes serve: "serve_client L E A S c = Inr (out, S')" and worker: "map_of h p = Some (Worker_cell fd)"
  shows "\<exists>h'. m_serve_client L E A S c p h = Inr (out, S', [fd], h') \<and>
    map_of h' p = None \<and> (\<forall>k. k \<noteq> p \<and> map_of h k \<noteq> None \<longrightarrow> map_of h' k = map_of h k) \<and>
    ((\<exists>k. map_of h k = None \<and> map_of h' k \<noteq> None) \<longleftrightarrow> \<not> conn_clean A c)"
proof -
  have finish: ?thesis
    if run: "m_serve_client L E A S c p h = rbind (destroy_worker_pld (Some (Some p)) h1) (\<lambda>(_, fds, h). Inr (out, S', fds, h))"
      and old: "\<forall>k. map_of h k \<noteq> None \<longrightarrow> map_of h1 k = map_of h k"
      and new: "(\<exists>k. map_of h k = None \<and> map_of h1 k \<noteq> None) \<longleftrightarrow> \<not> conn_clean A c" for h1
  proof -
    have "map_of h1 p = Some (Worker_cell fd)" using old worker by simp
    then obtain h' where h': "destroy_worker_pld (Some (Some p)) h1 = Inr (Some None, [fd], h')" "without h1 [p] h'"
      using worker_released by blast
    have "map_of h' = map_of h1 |` (- {p})" using h'(2) by (simp add: without_def)
    then show ?thesis using run h'(1) old new worker by (auto simp: restrict_map_def)
  qed
  show ?thesis
  proof (cases "\<not> cn_sockopt c \<or> \<not> A sizeof_wire")
    case True
    then show ?thesis using serve by (intro finish [of h]) (auto simp: serve_client_def m_serve_client_def conn_clean_def)
  next
    case start: False
    let ?a = "fresh h"
    obtain r w pkts ws where read: "read_client_req A 0 (cn_in c) (cn_writes c) = Inr (r, w, pkts, ws)"
      using serve start by (auto simp: serve_client_def rbind_eq_Inr_iff)
    obtain h1 where h1: "m_read_client_req A 0 ?a ((?a, Wire_cell None None NO_PAYLOAD None) # h) (cn_in c) (cn_writes c) = Inr (r, w, pkts, ws, h1)"
      "if r = OP_SUCCESS then request_mem h ?a w h1 else keeps h ?a h1"
      using m_read_request [OF read] by blast
    show ?thesis
    proof (cases "r = OP_SUCCESS")
      case False
      then have k: "keeps h ?a h1" using h1(2) by simp
      then have "map_of h ?a = None \<and> map_of h1 ?a \<noteq> None" unfolding keeps_def by blast
      moreover have "\<not> conn_clean A c" using start read False by (simp add: conn_clean_def)
      ultimately have "(\<exists>k. map_of h k = None \<and> map_of h1 k \<noteq> None) \<longleftrightarrow> \<not> conn_clean A c" by blast
      then show ?thesis using serve start read h1(1) False k
        by (intro finish [of h1]) (auto simp: serve_client_def m_serve_client_def malloc_def keeps_def Let_def)
    next
      case True
      obtain resp req S1 pkts' ws' where parse: "ctrl_parse_action L E (Some S) (Some w) = Inr (resp, Some req, Some S1)"
        and wr: "write_response A (wp_session_id req) resp ws = Inr (pkts', ws')" and out: "out = pkts @ pkts'" "S' = S1"
      proof (cases "ctrl_parse_action L E (Some S) (Some w)")
        case (Inr y)
        obtain resp req S1 where "y = (resp, req, S1)" by (cases y)
        then show thesis using that Inr serve start read True
          by (cases req; cases S1) (auto simp: serve_client_def rbind_eq_Inr_iff)
      qed (use serve start read True in \<open>simp add: serve_client_def\<close>)
      obtain resp' where resp: "resp = Some resp'" using wr by (cases resp) (simp_all add: write_response_def)
      obtain q h2 where q: "m_resp resp' h1 = (q, h2)" by fastforce
      obtain h3 where h3: "ctrl_destroy (Some (Some ?a)) (Some (Some q)) True h2 = Inr (Some None, Some None, h3)"
        "\<forall>k. map_of h k \<noteq> None \<longrightarrow> map_of h3 k = map_of h k"
        "(\<exists>k. map_of h k = None \<and> map_of h3 k \<noteq> None) \<longleftrightarrow> (\<exists>p. wp_payload w = Std_payload p)"
        using answered_memory [OF read [unfolded True] _ q, of h ?a] h1(2) True by (simp only: simp_thms if_True) blast
      have "\<not> conn_clean A c \<longleftrightarrow> (\<exists>p. wp_payload w = Std_payload p)"
        using start read True by (auto simp: conn_clean_def split: payload_ptr.splits)
      then show ?thesis using start read True h1(1) parse wr resp q h3 out
        by (intro finish [of h3]) (auto simp: m_serve_client_def malloc_def Let_def m_write_response_eq)
    qed
  qed
qed

theorem connection_memory_witness:
  "\<exists>out S' h'. m_serve_client sample_lib (sample_env 130) (\<lambda>_. True) sample_srv2
      \<lparr>cn_sockopt = True, cn_in = arrive (enc_request sample_delete) @ [], cn_writes = []\<rparr> 1 [(1, Worker_cell 9), (2, Bytes_cell)] =
      Inr (out, S', [9], h') \<and>
    map_of h' 1 = None \<and> map_of h' 2 = Some Bytes_cell \<and> (\<exists>k. k \<noteq> 1 \<and> k \<noteq> 2 \<and> map_of h' k \<noteq> None)"
proof -
  let ?c = "\<lparr>cn_sockopt = True, cn_in = arrive (enc_request sample_delete) @ [], cn_writes = []\<rparr>"
  let ?h = "[(1, Worker_cell 9), (2, Bytes_cell)] :: heap"
  obtain S' where c: "ctrl_request sample_lib (sample_env 130) sample_srv2 sample_delete =
      Inr (set_resp OP_SUCCESS, sample_delete, S')"
    using sample_delete_runs by blast
  have "resp_ok (set_resp OP_SUCCESS)" by (simp add: resp_ok_def set_resp_def)
  then obtain pkts where s: "serve_client sample_lib (sample_env 130) (\<lambda>_. True) sample_srv2 ?c = Inr (pkts, S')"
    using write_response_sends [where A = "\<lambda>_. True" and sid = "wp_session_id sample_delete", OF TrueI]
    unfolding serve_client_eq [where A = "\<lambda>_. True", OF TrueI sample_get_wf(2)] c by fastforce
  have "read_client_req (\<lambda>_. True) 0 (cn_in ?c) (cn_writes ?c) = Inr (OP_SUCCESS, sample_delete, [], [])"
    using read_request_arrive [where A = "\<lambda>_. True", OF TrueI sample_get_wf(2), of 0 "[]" "[]"] by simp
  then have "\<not> conn_clean (\<lambda>_. True) ?c" by (simp add: conn_clean_def sample_delete_def sample_req_def sample_path_def)
  moreover have "map_of ?h 1 = Some (Worker_cell 9)" by simp
  note connection_memory [OF s this]
  ultimately obtain h' where h': "m_serve_client sample_lib (sample_env 130) (\<lambda>_. True) sample_srv2 ?c 1 ?h = Inr (pkts, S', [9], h')"
    "map_of h' 1 = None" "\<forall>k. k \<noteq> 1 \<and> map_of ?h k \<noteq> None \<longrightarrow> map_of h' k = map_of ?h k"
    "\<exists>k. map_of ?h k = None \<and> map_of h' k \<noteq> None"
    by blast
  have "map_of h' 2 = Some Bytes_cell" using h'(3) by simp
  moreover have "\<exists>k. k \<noteq> 1 \<and> k \<noteq> 2 \<and> map_of h' k \<noteq> None" using h'(4) by (auto split: if_splits)
  ultimately show ?thesis using h'(1, 2) by blast
qed

end
