(* ===== verification/Cleanup.thy ===== *)
theory Cleanup
  imports Allocation
begin

text \<open>
  Reading files and listing directories when memory runs out: \<^verbatim>\<open>hash_byte_array\<close> of
  \<^verbatim>\<open>server_crypto.c\<close>, and \<^verbatim>\<open>f_read_file\<close> and \<^verbatim>\<open>f_list_dir\<close> of \<^verbatim>\<open>server_file_api.c\<close>, with the heap and
  with every \<^verbatim>\<open>goto\<close> of their error paths. \<open>FileApi\<close> has the same functions with memory to spare.
\<close>

section \<open>Allocations that fail\<close>

text \<open>Which of the allocations succeed, and what the memory of a new \<^verbatim>\<open>file_content_t\<close> holds before it is filled.\<close>

record allocs =
  al_buffer :: bool
  al_array :: bool
  al_digest :: bool
  al_hash :: bool
  al_content :: bool
  al_path :: bool
  al_junk :: "addr option \<times> addr option \<times> addr option"

definition m_fclose :: "bool \<Rightarrow> bool run" where
  "m_fclose is_open = (if is_open then Inr False else Inl Double_fclose)"

definition m_hash_byte_array ::
  "allocs \<Rightarrow> (bytes \<Rightarrow> bytes) \<Rightarrow> bytes \<Rightarrow> heap \<Rightarrow> ((hash_t \<times> addr) option \<times> heap) run" where
  "m_hash_byte_array al sha bs h =
    (case hash_byte_array sha (Some bs) of
       None \<Rightarrow> Inr (None, h)
     | Some md \<Rightarrow>
         if \<not> al_digest al then Inr (None, h)
         else
           (let (p_hash_digest, h) = malloc Bytes_cell h in
            if \<not> al_hash al then rbind (free (Some p_hash_digest) h) (\<lambda>h. Inr (None, h))
            else (let (p_hash, h) = malloc (Hash_cell (Some p_hash_digest)) h in Inr (Some (md, p_hash), h))))"

definition junk_content :: "allocs \<Rightarrow> cell" where
  "junk_content al = (case al_junk al of (x, y, z) \<Rightarrow> Content_cell x y z)"

section \<open>Reading a file\<close>

definition m_read_file ::
  "allocs \<Rightarrow> (bytes \<Rightarrow> bytes) \<Rightarrow> fs \<Rightarrow> verified_path_t option \<Rightarrow> heap \<Rightarrow>
     ((file_content_t \<times> addr) option \<times> ret_codes_t \<times> heap) run" where
  "m_read_file al sha F pp h =
    (case pp of
       None \<Rightarrow> Inr (None, OP_IO_ERROR, h)
     | Some p \<Rightarrow>
         (case stat F (p_path p) of
            Inl e \<Rightarrow> Inr (None, OP_IO_ERROR, h)
          | Inr (File _) \<Rightarrow>
              (case f_open_file F (Some p) Mode_r of
                 (_, Some h_path, _) \<Rightarrow>
                   (let file_size = length (file_bytes F h_path) in
                    if \<not> al_array al then rbind (m_fclose True) (\<lambda>_. Inr (None, OP_FAILURE, h))
                    else
                      (let (p_byte_array, h) = malloc Bytes_cell h; bs = fread_all F h_path in
                       rbind (m_fclose True) (\<lambda>is_open.
                       let cleanup_array = (\<lambda>code h.
                             rbind (free (Some p_byte_array) h) (\<lambda>h. rbind (m_fclose is_open) (\<lambda>_. Inr (None, code, h)))) in
                       if length bs \<noteq> file_size then cleanup_array OP_IO_ERROR h
                       else
                         rbind (m_hash_byte_array al sha bs h) (\<lambda>(hash, h).
                           case hash of
                             None \<Rightarrow> cleanup_array OP_FAILURE h
                           | Some (md, p_hash) \<Rightarrow>
                             (let cleanup_hash = (\<lambda>code h. rbind (hash_destroy (Some (Some p_hash)) h) (\<lambda>(_, h). cleanup_array code h)) in
                              if \<not> al_content al then cleanup_hash OP_FAILURE h
                              else
                                (let (p_content, h) = malloc (junk_content al) h in
                                 if \<not> al_path al then rbind (free (Some p_content) h) (\<lambda>h. cleanup_hash OP_FAILURE h)
                                 else
                                   (let (p_file_path, h) = malloc Bytes_cell h in
                                    Inr (Some (\<lparr>fc_hash = md, fc_stream = bs, fc_stream_size = length bs, fc_path = p_path p\<rparr>, p_content),
                                         OP_SUCCESS,
                                         AList.update p_content (Content_cell (Some p_hash) (Some p_byte_array) (Some p_file_path)) h))))))))
               | (_, None, _) \<Rightarrow> Inr (None, OP_IO_ERROR, h))
          | Inr _ \<Rightarrow> Inr (None, OP_PATH_NOT_FILE, h)))"

section \<open>Listing a directory\<close>

text \<open>
  The line buffer grows in place: \<^verbatim>\<open>realloc_buff\<close> replaces one block by another. A new content is
  released by \<^verbatim>\<open>f_destroy_content\<close> although nothing was stored in it yet.
\<close>

definition m_list_dir ::
  "allocs \<Rightarrow> (bytes \<Rightarrow> bytes) \<Rightarrow> fs \<Rightarrow> verified_path_t option \<Rightarrow> heap \<Rightarrow>
     ((file_content_t \<times> addr) option \<times> ret_codes_t \<times> heap) run" where
  "m_list_dir al sha F pp h =
    (case pp of
       None \<Rightarrow> Inr (None, OP_IO_ERROR, h)
     | Some p \<Rightarrow>
         (case stat F (p_path p) of
            Inl e \<Rightarrow> Inr (None, OP_IO_ERROR, h)
          | Inr Dir \<Rightarrow>
              if \<not> al_buffer al then Inr (None, OP_FAILURE, h)
              else
                (let (p_buffer, h) = malloc Bytes_cell h;
                     cleanup_buff = (\<lambda>code h. rbind (free (Some p_buffer) h) (\<lambda>h. Inr (None, code, h)))
                 in
                 case opendir F (p_path p) of
                   Inl e \<Rightarrow> cleanup_buff OP_IO_ERROR h
                 | Inr objs \<Rightarrow>
                     rbind (list_loop F p objs 1024 []) (\<lambda>lines.
                     let bs = str_bytes (takeWhile (\<lambda>c. c \<noteq> CHR 0x00) lines) in
                     if \<not> al_array al then cleanup_buff OP_FAILURE h
                     else
                       (let (p_buff, h) = malloc Bytes_cell h;
                            cleanup_buff2 = (\<lambda>code h. rbind (free (Some p_buff) h) (\<lambda>h. cleanup_buff code h))
                        in
                        rbind (m_hash_byte_array al sha bs h) (\<lambda>(hash, h).
                          case hash of
                            None \<Rightarrow> cleanup_buff2 OP_FAILURE h
                          | Some (md, p_hash) \<Rightarrow>
                              (let cleanup_hash = (\<lambda>code h. rbind (hash_destroy (Some (Some p_hash)) h) (\<lambda>(_, h). cleanup_buff2 code h)) in
                               if \<not> al_content al then cleanup_hash OP_FAILURE h
                               else
                                 (let (p_content, h) = malloc (junk_content al) h in
                                  if \<not> al_path al then
                                    rbind (f_destroy_content (Some (Some p_content)) h) (\<lambda>(_, h). cleanup_hash OP_FAILURE h)
                                  else
                                    (let (p_file_path, h) = malloc Bytes_cell h in
                                     rbind (free (Some p_buffer)
                                         (AList.update p_content (Content_cell (Some p_hash) (Some p_buff) (Some p_file_path)) h)) (\<lambda>h.
                                       Inr (Some (\<lparr>fc_hash = md, fc_stream = bs, fc_stream_size = length bs, fc_path = p_path p\<rparr>, p_content),
                                         OP_SUCCESS, h)))))))))
          | Inr _ \<Rightarrow> Inr (None, OP_PATH_NOT_DIR, h)))"

section \<open>What the error paths do\<close>

lemma fresh_Cons: "fresh ((k, c) # h) = k + fresh h"
  by (simp add: fresh_def)

lemma fresh_pos [simp]: "fresh h \<noteq> 0"
  by (simp add: fresh_def)

lemmas block_ops = malloc_def free_def load_def store_def hash_destroy_def m_fclose_def update_conv' delete_conv'

text \<open>Property C20: reading a file when memory may run out, compared with reading it when there is enough. Until the
  buffer is there, nothing is lost: the call reports its code, closes the file once, and leaves the heap as it was.
  With every allocation the content lies in five new blocks. But when an allocation after the buffer fails,
  the error path closes the file a second time.
\<close>

theorem read_file_cleanup:
  "m_read_file al sha F pp h =
    (case f_read_file sha F pp of
       Inl e \<Rightarrow> if al_array al then Inl e else Inr (None, OP_FAILURE, h)
     | Inr (None, code) \<Rightarrow> Inr (None, code, h)
     | Inr (Some c, code) \<Rightarrow>
         if \<not> al_array al then Inr (None, OP_FAILURE, h)
         else if al_digest al \<and> al_hash al \<and> al_content al \<and> al_path al then
           Inr (Some (c, fst (m_content h)), code, snd (m_content h))
         else Inl Double_fclose)"
proof (cases pp)
  case (Some p)
  show ?thesis
  proof (cases "\<exists>x h_path y z. stat F (p_path p) = Inr (File x) \<and> f_open_file F (Some p) Mode_r = (y, Some h_path, z)")
    case True
    then obtain x h_path y z where opn: "stat F (p_path p) = Inr (File x)" "f_open_file F (Some p) Mode_r = (y, Some h_path, z)"
      by blast
    let ?bs = "fread_all F h_path"
    obtain md where md: "hash_byte_array sha (Some ?bs) = Some md" by (auto simp: hash_byte_array_def)
    show ?thesis
      by (simp add: m_read_file_def f_read_file_def Some opn Let_def md;
          cases "al_array al"; cases "length ?bs = length (file_bytes F h_path)"; cases "al_digest al"; cases "al_hash al";
          cases "al_content al"; cases "al_path al")
        (simp_all add: block_ops m_hash_byte_array_def m_content_def md Let_def fresh_Cons)
  next
    case False
    then show ?thesis
      by (auto simp: m_read_file_def f_read_file_def Some split: sum.splits node.splits prod.splits option.splits)
  qed
qed (simp add: m_read_file_def f_read_file_def)

text \<open>A content in new blocks.\<close>

definition content_new :: "heap \<Rightarrow> addr \<Rightarrow> heap \<Rightarrow> bool" where
  "content_new h a h' \<longleftrightarrow> content_typed h' (Some a) \<and> alive h' (content_blocks h' (Some a)) \<and>
    (\<forall>k \<in> set (content_blocks h' (Some a)). map_of h k = None) \<and>
    (\<forall>k. k \<notin> set (content_blocks h' (Some a)) \<longrightarrow> map_of h' k = map_of h k)"

lemma above_fresh: "fresh h \<le> k \<Longrightarrow> map_of h k = None"
proof (rule ccontr)
  assume "fresh h \<le> k" and "map_of h k \<noteq> None"
  then have "k \<in> set (map fst h)" by (auto simp: map_of_eq_None_iff)
  then have "k \<le> sum_list (map fst h)" by (intro member_le_sum_list) auto
  then show False using \<open>fresh h \<le> k\<close> by (simp add: fresh_def)
qed

lemma delete_above: "fresh h \<le> k \<Longrightarrow> AList.delete k h = h"
  using above_fresh [of h k] by (intro delete_id) (simp add: map_of_eq_None_iff)

lemma list_dir_runs:
  assumes "f_list_dir sha F pp = Inr (Some c, code)" and "al_buffer al"
  obtains p objs lines md where "pp = Some p" and "stat F (p_path p) = Inr Dir" and "opendir F (p_path p) = Inr objs"
    and "list_loop F p objs 1024 [] = Inr lines"
    and "hash_byte_array sha (Some (str_bytes (takeWhile (\<lambda>c. c \<noteq> CHR 0x00) lines))) = Some md"
    and "c = \<lparr>fc_hash = md, fc_stream = str_bytes (takeWhile (\<lambda>c. c \<noteq> CHR 0x00) lines),
      fc_stream_size = length (str_bytes (takeWhile (\<lambda>c. c \<noteq> CHR 0x00) lines)), fc_path = p_path p\<rparr>"
    and "code = OP_SUCCESS"
  using assms
  by (auto simp: f_list_dir_def rbind_eq_Inr_iff Let_def split: option.splits sum.splits node.splits)



end
