(* ===== verification/Args.thy ===== *)
theory Args
  imports Db
begin

text \<open>
  \<^verbatim>\<open>src/server/server_args.c\<close>: the command line. \<open>strtol\<close> and \<open>getopt\<close> are those of the C library, as far
  as the parser uses them; \<open>md\<close> gives the mode bits \<^verbatim>\<open>stat\<close> reports for a path.
\<close>

section \<open>The C library\<close>

text \<open>
  \<open>strtol\<close> in base 10: the value, clamped to a \<^verbatim>\<open>long int\<close>, the rest of the text, and whether \<^verbatim>\<open>errno\<close> was
  set. Without digits the rest is the whole text.
\<close>

definition strtol :: "string \<Rightarrow> int \<times> string \<times> bool" where
  "strtol s =
    (let body = dropWhile is_space s;
         neg = (body \<noteq> [] \<and> hd body = CHR ''-'');
         body = (if body \<noteq> [] \<and> (hd body = CHR ''-'' \<or> hd body = CHR ''+'') then tl body else body);
         ds = takeWhile is_digit body;
         v = (if neg then - int (dec_value ds) else int (dec_value ds))
     in if ds = [] then (0, s, False)
        else (max (- (2 ^ 63)) (min (2 ^ 63 - 1) v), drop (length ds) body, v < - (2 ^ 63) \<or> 2 ^ 63 \<le> v))"

text \<open>
  What successive calls of \<^verbatim>\<open>getopt(argc, argv, "p:t:d:h")\<close> return, and the arguments left behind
  \<^verbatim>\<open>optind\<close> in the end. Options may be clustered; an argument is the rest of its cluster or the next
  word; words that are no options are moved behind the options, and \<^verbatim>\<open>--\<close> ends the options.
\<close>

datatype opt = Opt char string | Opt_h | Opt_bad

definition takes_arg :: "char \<Rightarrow> bool" where
  "takes_arg c \<longleftrightarrow> c = CHR ''p'' \<or> c = CHR ''t'' \<or> c = CHR ''d''"

text \<open>One word without its dash, and the word after it: its options, and whether that word was used.\<close>

fun cluster :: "string \<Rightarrow> string option \<Rightarrow> opt list \<times> bool" where
  "cluster [] next_word = ([], False)"
| "cluster (c # cs) next_word =
    (if takes_arg c then
       (if cs \<noteq> [] then ([Opt c cs], False)
        else (case next_word of None \<Rightarrow> ([Opt_bad], False) | Some w \<Rightarrow> ([Opt c w], True)))
     else
       (let (os, used) = cluster cs next_word in
        ((if c = CHR ''h'' then Opt_h else Opt_bad) # os, used)))"

fun getopt_all :: "string list \<Rightarrow> opt list \<times> string list" where
  "getopt_all [] = ([], [])"
| "getopt_all (w # ws) =
    (if w = ''--'' then ([], ws)
     else if w = [] \<or> hd w \<noteq> CHR ''-'' \<or> w = ''-'' then
       (let (os, rest) = getopt_all ws in (os, w # rest))
     else
       (let (os, used) = cluster (tl w) (case ws of [] \<Rightarrow> None | v # _ \<Rightarrow> Some v);
            (os', rest) = getopt_all (if used then tl ws else ws)
        in (os @ os', rest)))"

section \<open>Numbers\<close>

definition MIN_PORT :: int where "MIN_PORT = 1025"
definition MAX_PORT :: int where "MAX_PORT = 0xFFFF"
definition DEFAULT_PORT :: u32 where "DEFAULT_PORT = 31337"
definition DEFAULT_TIMEOUT :: u8 where "DEFAULT_TIMEOUT = 60"
definition MAX_TIMEOUT :: int where "MAX_TIMEOUT = 300"

text \<open>\<open>None\<close> is the result 0 of \<^verbatim>\<open>str_to_long\<close>, \<open>Some v\<close> its result 1 with the value stored.\<close>

definition str_to_long :: "string \<Rightarrow> int option" where
  "str_to_long str_num =
    (let (int_val, endptr, err) = strtol str_num in
     if err then None
     else if length endptr = length str_num then None
     else if endptr \<noteq> [] then None
     else Some int_val)"

definition get_port :: "string \<Rightarrow> u32" where
  "get_port port =
    (case str_to_long port of
       None \<Rightarrow> 0
     | Some converted_port \<Rightarrow>
         if converted_port > MAX_PORT \<or> converted_port < MIN_PORT then 0 else word_of_int converted_port)"

definition get_timeout :: "string \<Rightarrow> u8" where
  "get_timeout timeout =
    (case str_to_long timeout of
       None \<Rightarrow> 0
     | Some converted_timeout \<Rightarrow>
         if converted_timeout > MAX_TIMEOUT then 0
         else if converted_timeout < 1 then 0
         else word_of_int converted_timeout)"

section \<open>The home directory\<close>

text \<open>The two permission tests look at the mode bits \<^verbatim>\<open>R_OK = 4\<close> and \<^verbatim>\<open>W_OK = 2\<close>.\<close>

definition get_home_dir :: "fs \<Rightarrow> (string \<Rightarrow> u32) \<Rightarrow> string \<Rightarrow> verified_path_t option run" where
  "get_home_dir F md home_dir =
    (case stat F home_dir of
       Inl e \<Rightarrow> Inr None
     | Inr Dir \<Rightarrow>
         if md home_dir AND 4 = 0 \<or> md home_dir AND 2 = 0 then Inr None
         else f_set_home_dir F (Some home_dir) (length home_dir)
     | Inr _ \<Rightarrow> Inr None)"

section \<open>The parser\<close>

record args_t =
  ar_port :: u32
  ar_timeout :: u8
  ar_home :: "verified_path_t option"

text \<open>The three flags of options that were given, and the arguments so far.\<close>

record parse_state =
  b_port :: bool
  b_timeout :: bool
  b_home_dir :: bool
  p_args :: args_t

text \<open>One turn of the loop; \<open>None\<close> is a jump to \<^verbatim>\<open>cleanup\<close>.\<close>

definition parse_opt :: "fs \<Rightarrow> (string \<Rightarrow> u32) \<Rightarrow> opt \<Rightarrow> parse_state \<Rightarrow> parse_state option run" where
  "parse_opt F md c st =
    (case c of
       Opt_h \<Rightarrow> Inr None
     | Opt_bad \<Rightarrow> Inr None
     | Opt k optarg \<Rightarrow>
         if k = CHR ''p'' then
           (if b_port st then Inr None
            else
              (let v = get_port optarg in
               if v = 0 then Inr None
               else Inr (Some (st\<lparr>p_args := (p_args st)\<lparr>ar_port := v\<rparr>, b_port := True\<rparr>))))
         else if k = CHR ''t'' then
           (if b_timeout st then Inr None
            else
              (let v = get_timeout optarg in
               if v = 0 then Inr None
               else Inr (Some (st\<lparr>p_args := (p_args st)\<lparr>ar_timeout := v\<rparr>, b_timeout := True\<rparr>))))
         else
           (if b_home_dir st then Inr None
            else
              rbind (get_home_dir F md optarg) (\<lambda>h.
                if h = None then Inr None
                else Inr (Some (st\<lparr>p_args := (p_args st)\<lparr>ar_home := h\<rparr>, b_home_dir := True\<rparr>)))))"

fun parse_loop :: "fs \<Rightarrow> (string \<Rightarrow> u32) \<Rightarrow> opt list \<Rightarrow> parse_state \<Rightarrow> parse_state option run" where
  "parse_loop F md [] st = Inr (Some st)"
| "parse_loop F md (c # cs) st =
    rbind (parse_opt F md c st) (\<lambda>r. case r of None \<Rightarrow> Inr None | Some st' \<Rightarrow> parse_loop F md cs st')"

text \<open>\<open>argv\<close> is the command line behind the name of the program.\<close>

definition args_parse :: "fs \<Rightarrow> (string \<Rightarrow> u32) \<Rightarrow> string list \<Rightarrow> args_t option run" where
  "args_parse F md argv =
    (if argv = [] then Inr None
     else
       (let (opts, rest) = getopt_all argv;
            st = \<lparr>b_port = False, b_timeout = False, b_home_dir = False,
                  p_args = \<lparr>ar_port = DEFAULT_PORT, ar_timeout = DEFAULT_TIMEOUT, ar_home = None\<rparr>\<rparr>
        in rbind (parse_loop F md opts st) (\<lambda>r.
             case r of
               None \<Rightarrow> Inr None
             | Some st \<Rightarrow>
                 if rest \<noteq> [] then Inr None
                 else if ar_home (p_args st) = None then Inr None
                 else Inr (Some (p_args st)))))"

section \<open>Reading numbers\<close>

lemma is_digit_char: "d < 10 \<Longrightarrow> is_digit (digit_char d)"
  by (simp add: is_digit_def)

lemma str_to_long_dec:
  assumes "n < 2 ^ 63"
  shows "str_to_long (dec_nat n) = Some (int n)"
proof -
  obtain ds where ds: "dec_nat n = map digit_char ds" "\<forall>d \<in> set ds. d < 10" "num_of_digits 0 ds = n"
    using dec_nat_digits by blast
  define s where "s = dec_nat n"
  have ne: "s \<noteq> []" by (simp add: s_def)
  have dig: "\<forall>c \<in> set s. is_digit c \<and> \<not> is_space c \<and> c \<noteq> CHR ''-'' \<and> c \<noteq> CHR ''+''"
    using ds digit_char_simps is_digit_char by (auto simp: s_def)
  have body: "dropWhile is_space s = s" using ne dig by (cases s) auto
  have sign: "hd s \<noteq> CHR ''-''" "hd s \<noteq> CHR ''+''" using ne dig by (cases s, auto)+
  have all: "takeWhile is_digit s = s" using dig by simp
  have "map (\<lambda>c. the (digit_val c)) s = ds" using ds by (auto simp: s_def o_def intro: map_idI)
  then have v: "dec_value s = n" using ds(3) by (simp add: dec_value_def)
  have "strtol s = (int n, [], False)"
    using assms ne sign unfolding strtol_def Let_def body all v by (simp add: all v)
  then show ?thesis unfolding s_def [symmetric] str_to_long_def using ne by simp
qed

section \<open>What the parser accepts\<close>

lemma get_port_range:
  assumes "get_port s \<noteq> 0"
  shows "unat (get_port s) \<in> {1025..65535}"
proof -
  obtain v where v: "str_to_long s = Some v" "1025 \<le> v" "v \<le> 65535"
    using assms by (auto simp: get_port_def MAX_PORT_def MIN_PORT_def split: option.splits if_splits)
  have g: "get_port s = word_of_int v"
    using v by (simp add: get_port_def MAX_PORT_def MIN_PORT_def)
  obtain n where n: "v = int n" using v(2) by (metis zero_le_imp_eq_int order_trans zero_le_numeral)
  then have "unat (get_port s) = n" using v by (simp add: g unat_of_nat take_bit_nat_eq_self)
  then show ?thesis using v n by simp
qed

lemma get_timeout_value:
  "get_timeout s =
    (case str_to_long s of
       None \<Rightarrow> 0
     | Some v \<Rightarrow> if 1 \<le> v \<and> v \<le> 300 then word_of_int (v mod 256) else 0)"
proof -
  have "(word_of_int v :: u8) = word_of_int (v mod 256)" for v
    by (simp add: word_of_int_eq_iff take_bit_eq_mod)
  then show ?thesis by (simp add: get_timeout_def MAX_TIMEOUT_def split: option.splits)
qed

lemma get_home_dir_Some:
  assumes "get_home_dir F md d = Inr (Some v)"
  shows "stat F d = Inr Dir \<and> md d AND 4 \<noteq> 0 \<and> md d AND 2 \<noteq> 0 \<and> realpath F (joined d []) = Inr (p_path v)"
proof -
  have "stat F d = Inr Dir" "md d AND 4 \<noteq> 0" "md d AND 2 \<noteq> 0"
    and f: "f_set_home_dir F (Some d) (length d) = Inr (Some v)"
    using assms by (auto simp: get_home_dir_def split: sum.splits node.splits if_splits)
  moreover have "realpath F (joined d []) = Inr (p_path v)"
    using f join_and_resolve_full [of F d "[]"]
    by (auto simp: f_set_home_dir_def split: if_splits sum.splits)
  ultimately show ?thesis by blast
qed

text \<open>The arguments so far are in their ranges; the home directory, when it is set, was checked.\<close>

definition args_ok :: "fs \<Rightarrow> (string \<Rightarrow> u32) \<Rightarrow> args_t \<Rightarrow> bool" where
  "args_ok F md a \<longleftrightarrow> unat (ar_port a) \<in> {1025..65535} \<and> ar_timeout a \<noteq> 0 \<and>
     (\<forall>v. ar_home a = Some v \<longrightarrow> (\<exists>d. get_home_dir F md d = Inr (Some v)))"

lemma parse_opt_ok:
  assumes "args_ok F md (p_args st)" and "parse_opt F md c st = Inr (Some st')"
  shows "args_ok F md (p_args st')"
proof (cases c)
  case (Opt k s)
  show ?thesis
  proof (cases "k = CHR ''p''")
    case True
    then show ?thesis using assms Opt get_port_range [of s]
      by (auto simp: parse_opt_def args_ok_def Let_def split: if_splits)
  next
    case p: False
    show ?thesis
    proof (cases "k = CHR ''t''")
      case True
      then show ?thesis using assms Opt p by (auto simp: parse_opt_def args_ok_def Let_def split: if_splits)
    next
      case False
      then obtain h where h: "get_home_dir F md s = Inr (Some h)"
        and st': "st' = st\<lparr>p_args := (p_args st)\<lparr>ar_home := Some h\<rparr>, b_home_dir := True\<rparr>"
        using assms(2) Opt p by (auto simp: parse_opt_def rbind_eq_Inr_iff split: if_splits)
      then show ?thesis using assms(1) by (auto simp: args_ok_def)
    qed
  qed
qed (use assms in \<open>simp_all add: parse_opt_def\<close>)

lemma parse_loop_ok:
  "args_ok F md (p_args st) \<Longrightarrow> parse_loop F md cs st = Inr (Some st') \<Longrightarrow> args_ok F md (p_args st')"
proof (induction cs arbitrary: st)
  case (Cons c cs)
  then obtain st1 where "parse_opt F md c st = Inr (Some st1)" "parse_loop F md cs st1 = Inr (Some st')"
    by (auto simp: rbind_eq_Inr_iff split: option.splits)
  then show ?case using Cons parse_opt_ok by blast
qed simp

lemma args_parse_ok:
  assumes "args_parse F md argv = Inr (Some a)"
  shows "args_ok F md a \<and> (\<exists>v. ar_home a = Some v)"
proof -
  let ?st = "\<lparr>b_port = False, b_timeout = False, b_home_dir = False,
    p_args = \<lparr>ar_port = DEFAULT_PORT, ar_timeout = DEFAULT_TIMEOUT, ar_home = None\<rparr>\<rparr>"
  obtain opts rest where g: "getopt_all argv = (opts, rest)" by (cases "getopt_all argv")
  obtain r where l: "parse_loop F md opts ?st = Inr r"
    and c: "(case r of None \<Rightarrow> Inr None | Some st \<Rightarrow>
      if rest \<noteq> [] then Inr None else if ar_home (p_args st) = None then Inr None else Inr (Some (p_args st))) =
      (Inr (Some a) :: args_t option run)"
    using assms by (auto simp: args_parse_def g rbind_eq_Inr_iff split: if_splits)
  then obtain st where r: "r = Some st" and a: "a = p_args st" "ar_home (p_args st) \<noteq> None"
    by (cases r) (auto split: if_splits)
  have "args_ok F md (p_args ?st)" by (simp add: args_ok_def DEFAULT_PORT_def DEFAULT_TIMEOUT_def)
  from parse_loop_ok [OF this l [unfolded r]] a show ?thesis by auto
qed

text \<open>
  A number on the command line is read as written, a port is accepted in its range, and the timeout is
  taken modulo 256, so 256 seconds are refused and 257 to 300 seconds become 1 to 44.
\<close>

lemma decimal_arguments:
  assumes "n < 2 ^ 63"
  shows "str_to_long (dec_nat n) = Some (int n) \<and>
    get_port (dec_nat n) = (if 1025 \<le> n \<and> n \<le> 65535 then word_of_nat n else 0) \<and>
    get_timeout (dec_nat n) = (if 1 \<le> n \<and> n \<le> 300 then word_of_nat (n mod 256) else 0)"
proof -
  note v = str_to_long_dec [OF assms]
  have "int n mod 256 = int (n mod 256)" by (simp add: zmod_int)
  then have m: "(word_of_int (int n mod 256) :: u8) = word_of_nat (n mod 256)" by (simp only: of_int_of_nat_eq)
  have "get_timeout (dec_nat n) = (if 1 \<le> n \<and> n \<le> 300 then word_of_nat (n mod 256) else 0)"
    unfolding get_timeout_value v option.case by (simp add: m)
  moreover have "get_port (dec_nat n) = (if 1025 \<le> n \<and> n \<le> 65535 then word_of_nat n else 0)"
    by (simp add: get_port_def v MIN_PORT_def MAX_PORT_def)
  ultimately show ?thesis using v by blast
qed

lemma timeout_wraps: "get_timeout (dec_nat 256) = 0 \<and> get_timeout (dec_nat 300) = 44"
  using decimal_arguments [of 256] decimal_arguments [of 300] by simp

section \<open>Properties\<close>

text \<open>Property C40: the arguments the parser accepts.\<close>

theorem accepted_arguments:
  assumes "args_parse F md argv = Inr (Some a)"
  shows "unat (ar_port a) \<in> {1025..65535} \<and> ar_timeout a \<noteq> 0 \<and>
    (\<exists>v d. ar_home a = Some v \<and> stat F d = Inr Dir \<and> realpath F (joined d []) = Inr (p_path v))"
proof -
  note ok = args_parse_ok [OF assms]
  then obtain v where v: "ar_home a = Some v" by blast
  with ok obtain d where "get_home_dir F md d = Inr (Some v)" by (auto simp: args_ok_def)
  from get_home_dir_Some [OF this] v ok show ?thesis by (auto simp: args_ok_def)
qed

theorem accepted_arguments_witness:
  "\<exists>a. args_parse sample_fs (\<lambda>_. 0x1FF) [''-p'', ''8080'', ''-d/srv/home''] = Inr (Some a) \<and>
    unat (ar_port a) = 8080 \<and> ar_home a = Some \<lparr>p_path = ''/srv/home''\<rparr> \<and> ar_timeout a \<noteq> 0"
proof -
  let ?a = "\<lparr>ar_port = 8080, ar_timeout = 60, ar_home = Some \<lparr>p_path = ''/srv/home''\<rparr>\<rparr>"
  have "args_parse sample_fs (\<lambda>_. 0x1FF) [''-p'', ''8080'', ''-d/srv/home''] = Inr (Some ?a)" by code_simp
  from accepted_arguments [OF this] this show ?thesis by auto
qed

end
