(* ===== verification/Server.thy ===== *)
theory Server
  imports Sock Args
begin

text \<open>
  The listening socket and the accept loop of \<^verbatim>\<open>src/server/server_sock.c\<close>, and \<^verbatim>\<open>src/server/server_main.c\<close>. What
  the operating system answers is an argument: the address records and the outcome of each call on
  them, the results of \<^verbatim>\<open>accept\<close>, and the signals that interrupt it. The thread pool is another project;
  the model runs the queued connections one after the other, as a pool with one worker does.
\<close>

section \<open>Listening\<close>

text \<open>One address record: the socket it gives, and whether setting its option and binding it succeed.\<close>

record net_record =
  nr_socket :: int
  nr_setsockopt :: bool
  nr_bind :: bool

text \<open>The walk over the records: the listening socket or \<open>-1\<close>, and the sockets that were closed.\<close>

fun bind_loop :: "bool \<Rightarrow> net_record list \<Rightarrow> int \<times> int list" where
  "bind_loop listens [] = (- 1, [])"
| "bind_loop listens (r # rs) =
    (if nr_socket r = - 1 then bind_loop listens rs
     else if \<not> nr_setsockopt r then (- 1, [nr_socket r])
     else if nr_bind r then (if listens then (nr_socket r, []) else (- 1, []))
     else (let (fd, closed) = bind_loop listens rs in (fd, nr_socket r # closed)))"

definition server_listen :: "(string \<Rightarrow> net_record list option) \<Rightarrow> bool \<Rightarrow> u32 \<Rightarrow> int \<times> int list" where
  "server_listen gai listens serv_port =
    (case gai (take 9 (dec_nat (unat serv_port))) of
       None \<Rightarrow> (- 1, [])
     | Some records \<Rightarrow> bind_loop listens records)"

section \<open>The accept loop\<close>

datatype sig = SIGINT | SIGPIPE

text \<open>The handler clears the flag for every signal but a broken pipe.\<close>

definition signal_handler :: "sig \<Rightarrow> bool \<Rightarrow> bool" where
  "signal_handler s server_run = (if s = SIGPIPE then server_run else False)"

text \<open>
  One turn of the loop: a connection, with the time at which its job runs, a failure of \<^verbatim>\<open>accept\<close>, or a
  signal that interrupts it.
\<close>

datatype accept_event = Accepted conn int | Accept_failed | Interrupted sig

text \<open>
  The jobs the loop queues. When the list of events ends, the server goes on waiting; the model stops
  there as after a signal.
\<close>

fun accept_loop :: "bool \<Rightarrow> accept_event list \<Rightarrow> (conn \<times> int) list" where
  "accept_loop server_run [] = []"
| "accept_loop server_run (e # es) =
    (if \<not> server_run then []
     else
       (case e of
          Accepted c now \<Rightarrow> (c, now) # accept_loop server_run es
        | Accept_failed \<Rightarrow> accept_loop server_run es
        | Interrupted s \<Rightarrow> accept_loop (signal_handler s server_run) es))"

text \<open>The queued jobs, in order; the timeout is the \<^verbatim>\<open>uint8_t\<close> of the arguments.\<close>

fun run_jobs ::
  "('u, 's) lib \<Rightarrow> (nat \<Rightarrow> u32) \<Rightarrow> (nat \<Rightarrow> bool) \<Rightarrow> u8 \<Rightarrow> (conn \<times> int) list \<Rightarrow> ('u, 's) srv \<Rightarrow>
     (bytes list list \<times> ('u, 's) srv) run" where
  "run_jobs L rnd A timeout [] S = Inr ([], S)"
| "run_jobs L rnd A timeout (job # jobs) S =
    rbind (serve_client L \<lparr>e_now = snd job, e_rand = rnd, e_timeout = int (unat timeout)\<rparr> A S (fst job)) (\<lambda>(out, S').
    rbind (run_jobs L rnd A timeout jobs S') (\<lambda>(outs, S''). Inr (out # outs, S'')))"

text \<open>What the operating system does in one run of the server.\<close>

record os =
  os_gai :: "string \<Rightarrow> net_record list option"
  os_listen :: bool
  os_thpool :: bool
  os_sigaction :: bool
  os_events :: "accept_event list"
  os_rand :: "nat \<Rightarrow> u32"
  os_alloc :: "nat \<Rightarrow> bool"
  os_mode :: "string \<Rightarrow> u32"

definition start_server ::
  "('u, 's) lib \<Rightarrow> os \<Rightarrow> ('u, 's) srv \<Rightarrow> u32 \<Rightarrow> u8 \<Rightarrow> (bytes list list \<times> ('u, 's) srv) run" where
  "start_server L sys S port_num timeout =
    (let server_socket = fst (server_listen (os_gai sys) (os_listen sys) port_num) in
     if server_socket = - 1 then Inr ([], S)
     else if \<not> os_thpool sys then Inr ([], S)
     else if \<not> os_sigaction sys then Inr ([], S)
     else run_jobs L (os_rand sys) (os_alloc sys) timeout (accept_loop True (os_events sys)) S)"

section \<open>The program\<close>

text \<open>The exit code, the responses, and the file system afterwards.\<close>

definition server_main ::
  "('u, 's) lib \<Rightarrow> os \<Rightarrow> fs \<Rightarrow> string list \<Rightarrow> (int \<times> bytes list list \<times> fs) run" where
  "server_main L sys F argv =
    rbind (args_parse F (os_mode sys) argv) (\<lambda>p_args.
    case p_args of
      None \<Rightarrow> Inr (- 1, [], F)
    | Some a \<Rightarrow>
        rbind (db_init L F (ar_home a)) (\<lambda>(p_db, F).
        case p_db of
          None \<Rightarrow> Inr (- 1, [], F)
        | Some db \<Rightarrow>
            rbind (start_server L sys \<lparr>sv_fs = F, sv_db = db, sv_rand = 0\<rparr> (ar_port a) (ar_timeout a)) (\<lambda>(outs, S).
            rbind (db_shutdown L (sv_fs S) (Some (sv_db S))) (\<lambda>(_, F).
              Inr (0, outs, F)))))"

section \<open>Invariants of a run\<close>

text \<open>A socket that is returned was bound and listens; it is none of those that were closed.\<close>

lemma bind_loop_bound:
  "bind_loop listens rs = (fd, closed) \<Longrightarrow> fd \<noteq> - 1 \<Longrightarrow>
    listens \<and> (\<exists>r \<in> set rs. nr_socket r = fd \<and> nr_setsockopt r \<and> nr_bind r)"
  by (induction rs arbitrary: closed) (auto split: if_splits prod.splits)

text \<open>A stopped server queues no more jobs.\<close>

lemma accept_loop_stopped [simp]: "accept_loop False es = []"
  by (cases es) simp_all

lemma accept_loop_sigint: "accept_loop True (es @ Interrupted SIGINT # es') = accept_loop True es"
proof (induction es)
  case Nil
  then show ?case by (simp add: signal_handler_def)
next
  case (Cons e es)
  then show ?case by (cases e) (auto simp: signal_handler_def)
qed

lemma serve_client_serves:
  assumes "serve_client L E A S c = Inr (out, S')"
  shows "serves L S S' \<or> (\<exists>sid. S' = S\<lparr>sv_db := (sv_db S)\<lparr>sesh_htable :=
    snd (ht_del (lib_sesh L) (sesh_htable (sv_db S)) sid)\<rparr>\<rparr>)"
proof (cases "cn_sockopt c \<and> A sizeof_wire")
  case False
  then have "S' = S" using assms by (auto simp: serve_client_def)
  then show ?thesis by (simp add: serves_start)
next
  case True
  obtain result w pkts ws where r: "read_client_req A 0 (cn_in c) (cn_writes c) = Inr (result, w, pkts, ws)"
    using assms True by (cases "read_client_req A 0 (cn_in c) (cn_writes c)") (auto simp: serve_client_def)
  show ?thesis
  proof (cases "result = OP_SUCCESS")
    case False
    then show ?thesis using assms True r by (auto simp: serve_client_def)
  next
    case s: True
    then obtain resp w' where "ctrl_request L E S w = Inr (resp, w', S')"
      using assms True r
      by (cases "ctrl_request L E S w") (auto simp: serve_client_def ctrl_parse_action_def rbind_eq_Inr_iff)
    then show ?thesis using serves_step [OF serves_start] by blast
  qed
qed

lemma serve_client_invariant:
  assumes "lib_ok L" and "db_inv L (sv_db S)" and "bounded_perms L M S" and "serve_client L E A S c = Inr (out, S')"
  shows "db_inv L (sv_db S') \<and> bounded_perms L M S'"
  using serve_client_serves [OF assms(4)]
proof
  assume "serves L S S'"
  from serves_invariant [OF this assms(1-3)] show ?thesis .
next
  assume "\<exists>sid. S' = S\<lparr>sv_db := (sv_db S)\<lparr>sesh_htable := snd (ht_del (lib_sesh L) (sesh_htable (sv_db S)) sid)\<rparr>\<rparr>"
  then show ?thesis
    using assms(2, 3) htable_lawsD(5) [OF db_inv_laws(2, 4) [OF assms(1, 2)]]
    by (auto simp: db_inv_def db_users_def bounded_perms_def accounts_of_def)
qed

lemma run_jobs_invariant:
  assumes "lib_ok L"
  shows "db_inv L (sv_db S) \<Longrightarrow> bounded_perms L M S \<Longrightarrow> run_jobs L rnd A timeout jobs S = Inr (outs, S') \<Longrightarrow>
    db_inv L (sv_db S') \<and> bounded_perms L M S'"
proof (induction jobs arbitrary: S outs)
  case (Cons job jobs)
  then obtain out S1 outs' where
    "serve_client L \<lparr>e_now = snd job, e_rand = rnd, e_timeout = int (unat timeout)\<rparr> A S (fst job) = Inr (out, S1)"
    "run_jobs L rnd A timeout jobs S1 = Inr (outs', S')"
    by (auto simp: rbind_eq_Inr_iff)
  then show ?case using Cons serve_client_invariant [OF assms Cons.prems(1, 2)] by blast
qed simp

lemma start_server_invariant:
  assumes "lib_ok L" and "db_inv L (sv_db S)" and "bounded_perms L M S"
    and "start_server L sys S port timeout = Inr (outs, S')"
  shows "db_inv L (sv_db S') \<and> bounded_perms L M S'"
  using assms(2-4) run_jobs_invariant [OF assms(1-3)]
  by (auto simp: start_server_def Let_def split: if_splits)

section \<open>Properties\<close>


text \<open>A run in which one client connects and hangs up before the interrupt.\<close>

definition sample_os :: os where
  "sample_os =
    \<lparr>os_gai = (\<lambda>_. Some [\<lparr>nr_socket = 3, nr_setsockopt = True, nr_bind = True\<rparr>]), os_listen = True, os_thpool = True,
     os_sigaction = True,
     os_events = [Accepted \<lparr>cn_sockopt = True, cn_in = [Rd_closed], cn_writes = []\<rparr> 5, Interrupted SIGINT],
     os_rand = (\<lambda>_. 0), os_alloc = (\<lambda>_. True), os_mode = (\<lambda>_. 0x1FF)\<rparr>"

lemma sample_args:
  "args_parse sample_fs (os_mode sample_os) [''-d'', ''/srv/home''] =
    Inr (Some \<lparr>ar_port = 31337, ar_timeout = 60, ar_home = Some \<lparr>p_path = render sample_home\<rparr>\<rparr>)"
proof -
  have "args_parse sample_fs (\<lambda>_. 0x1FF) [''-d'', ''/srv/home''] =
      Inr (Some \<lparr>ar_port = 31337, ar_timeout = 60, ar_home = Some \<lparr>p_path = ''/srv/home''\<rparr>\<rparr>)"
    by code_simp
  then show ?thesis by (simp add: sample_os_def render_sample_home)
qed

lemma sample_jobs:
  fixes S :: "((string \<times> user_account_t) list, (u32 \<times> int) list) srv"
  defines "S' \<equiv> S\<lparr>sv_db := (sv_db S)\<lparr>sesh_htable := snd (ht_del (lib_sesh sample_lib) (sesh_htable (sv_db S)) 0)\<rparr>\<rparr>"
  shows "accept_loop True (os_events sample_os) = [(\<lparr>cn_sockopt = True, cn_in = [Rd_closed], cn_writes = []\<rparr>, 5)]"
    and "serve_client sample_lib E (\<lambda>_. True) S \<lparr>cn_sockopt = True, cn_in = [Rd_closed], cn_writes = []\<rparr> = Inr ([], S')"
    and "run_jobs sample_lib (os_rand sample_os) (os_alloc sample_os) 60 (accept_loop True (os_events sample_os)) S =
      Inr ([[]], S')"
proof -
  show ev: "accept_loop True (os_events sample_os) = [(\<lparr>cn_sockopt = True, cn_in = [Rd_closed], cn_writes = []\<rparr>, 5)]"
    by (simp add: sample_os_def)
  have rd: "read_client_req (\<lambda>_. True) 0 [Rd_closed] [] = Inr (OP_SOCK_CLOSED, zero_wire, [], [])"
    by (simp add: read_client_req_def read_header_def rd_field_def read_stream_def header_sizes)
  show sv: "serve_client sample_lib E (\<lambda>_. True) S \<lparr>cn_sockopt = True, cn_in = [Rd_closed], cn_writes = []\<rparr> =
      Inr ([], S')" for E
    unfolding serve_client_def conn.select_convs rd by (simp add: zero_wire_def S'_def)
  show "run_jobs sample_lib (os_rand sample_os) (os_alloc sample_os) 60 (accept_loop True (os_events sample_os)) S =
      Inr ([[]], S')"
    unfolding ev run_jobs.simps fst_conv using sv by (simp add: sample_os_def)
qed


end
