(* ===== verification/Pool.thy ===== *)
theory Pool
  imports Workers Server
begin

text \<open>
  The run of the server with its thread pool: \<^verbatim>\<open>start_server\<close> of \<^verbatim>\<open>src/server/server_sock.c\<close> as it queues
  connections while \<open>threads\<close> workers take them from the queue and run at the same time. The steps of a
  worker between its accesses to the tables are those of \<open>Workers\<close>.
\<close>

section \<open>The state of a run\<close>

text \<open>
  The flag of the accept loop and what the operating system still has for it, the connections in the
  queue, the connections in work, and the packets that were sent on those that are closed. A connection
  in work has the state of its worker, the packets sent so far, and the results of the writes to come.
\<close>

record prog =
  pg_run :: bool
  pg_events :: "accept_event list"
  pg_queue :: "conn list"
  pg_workers :: "(wstate \<times> bytes list \<times> wr_event list) list"
  pg_sent :: "bytes list list"

definition prog_start :: "accept_event list \<Rightarrow> prog" where
  "prog_start events = \<lparr>pg_run = True, pg_events = events, pg_queue = [], pg_workers = [], pg_sent = []\<rparr>"

text \<open>One turn of the accept loop.\<close>

definition accept_turn :: "accept_event \<Rightarrow> prog \<Rightarrow> prog" where
  "accept_turn e p =
    (case e of
       Accepted c now \<Rightarrow> p\<lparr>pg_queue := pg_queue p @ [c]\<rparr>
     | Accept_failed \<Rightarrow> p
     | Interrupted s \<Rightarrow> p\<lparr>pg_run := signal_handler s (pg_run p)\<rparr>)"

text \<open>A job as far as it is local to its connection: the socket option, the allocation, and the request.\<close>

definition open_job :: "(nat \<Rightarrow> bool) \<Rightarrow> conn \<Rightarrow> (wstate \<times> bytes list \<times> wr_event list) run" where
  "open_job A c =
    (if \<not> cn_sockopt c \<or> \<not> A sizeof_wire then Inr (W_closed, [], cn_writes c)
     else
       rbind (read_client_req A 0 (cn_in c) (cn_writes c)) (\<lambda>(result, p_client_req, pkts, wr).
         Inr (if result \<noteq> OP_SUCCESS then W_broken (wp_session_id p_client_req) else W_start p_client_req, pkts, wr)))"

fun running :: "wstate \<Rightarrow> bool" where
  "running (W_done resp req) = False"
| "running W_closed = False"
| "running w = True"

text \<open>The response is written to the connection, which is closed then.\<close>

definition close_job :: "(nat \<Rightarrow> bool) \<Rightarrow> wstate \<times> bytes list \<times> wr_event list \<Rightarrow> bytes list run" where
  "close_job A job =
    (case job of
       (W_done resp req, pkts, wr) \<Rightarrow>
         rbind (write_response A (wp_session_id req) (Some resp) wr) (\<lambda>(pkts', wr'). Inr (pkts @ pkts'))
     | (_, pkts, wr) \<Rightarrow> Inr pkts)"

definition env_at :: "os \<Rightarrow> u8 \<Rightarrow> int \<Rightarrow> env" where
  "env_at sys timeout now = \<lparr>e_now = now, e_rand = os_rand sys, e_timeout = int (unat timeout)\<rparr>"

text \<open>A step of the loop, of a free thread, or of a worker; the clock stands at any time.\<close>

inductive prog_step :: "('u, 's) lib \<Rightarrow> os \<Rightarrow> u8 \<Rightarrow> nat \<Rightarrow> ('u, 's) srv \<times> prog \<Rightarrow> ('u, 's) srv \<times> prog \<Rightarrow> bool"
  for L sys timeout threads where
  prog_accept: "pg_run p \<Longrightarrow> pg_events p = e # es \<Longrightarrow>
    prog_step L sys timeout threads (S, p) (S, accept_turn e (p\<lparr>pg_events := es\<rparr>))"
| prog_take: "pg_queue p = c # q \<Longrightarrow> length (pg_workers p) < threads \<Longrightarrow> open_job (os_alloc sys) c = Inr job \<Longrightarrow>
    prog_step L sys timeout threads (S, p) (S, p\<lparr>pg_queue := q, pg_workers := pg_workers p @ [job]\<rparr>)"
| prog_work: "pg_workers p = pre @ (w, out) # post \<Longrightarrow> running w \<Longrightarrow>
    w_step L (env_at sys timeout now) (S, w) = Inr (S', w') \<Longrightarrow>
    prog_step L sys timeout threads (S, p) (S', p\<lparr>pg_workers :=
      map (map_prod (dangle (accounts_of L S) (accounts_of L S')) id) (pre @ (w', out) # post)\<rparr>)"
| prog_close: "pg_workers p = pre @ (w, out) # post \<Longrightarrow> \<not> running w \<Longrightarrow> close_job (os_alloc sys) (w, out) = Inr pkts \<Longrightarrow>
    prog_step L sys timeout threads (S, p) (S, p\<lparr>pg_workers := pre @ post, pg_sent := pg_sent p @ [pkts]\<rparr>)"

inductive_cases prog_stepE: "prog_step L sys timeout threads (S, p) c"

text \<open>\<^verbatim>\<open>thpool_wait\<close> returns when the loop has ended and no job is left.\<close>

definition drained :: "prog \<Rightarrow> bool" where
  "drained p \<longleftrightarrow> (pg_run p \<longrightarrow> pg_events p = []) \<and> pg_queue p = [] \<and> pg_workers p = []"

section \<open>Invariant\<close>

lemma open_job_free: "open_job A c = Inr (w, out) \<Longrightarrow> holds w = None \<or> (\<exists>req. w = W_start req)"
  by (auto simp: open_job_def rbind_eq_Inr_iff split: if_splits)

lemma prog_step_pool:
  assumes "prog_step L sys timeout threads (S, p) (S', p')"
    and "lib_ok L" and "pool_inv L M (S, map fst (pg_workers p))"
  shows "pool_inv L M (S', map fst (pg_workers p'))"
  using assms(1)
proof (cases rule: prog_stepE [consumes 1, case_names prog_accept prog_take prog_work prog_close])
  case (prog_accept e es)
  then show ?thesis using assms(3) by (cases e) (simp_all add: accept_turn_def)
next
  case (prog_take c q job)
  then show ?thesis using assms(3) open_job_free [of "os_alloc sys" c "fst job" "snd job"]
    by (auto simp: worker_ok_def)
next
  case (prog_work pre w out post now S2 w')
  let ?ws = "map fst pre @ w # map fst post"
  have nth: "?ws ! length pre = w" by (metis length_map nth_append_length)
  have step: "pool_step L (S, ?ws) (S', map (dangle (accounts_of L S) (accounts_of L S')) (?ws[length pre := w']))"
    by (rule pool_step.pool_work [where E = "env_at sys timeout now"]) (use prog_work nth in simp_all)
  have proj: "map fst (pg_workers p') = map (dangle (accounts_of L S) (accounts_of L S')) (?ws[length pre := w'])"
    using prog_work by (simp add: list_update_append)
  have "pool_inv L M (S, ?ws)" using assms(3) prog_work(2) by simp
  then show ?thesis unfolding proj by (rule pool_step_inv [OF assms(2) step])
next
  case (prog_close pre w out post pkts)
  then show ?thesis using assms(3) by auto
qed

lemma prog_steps_pool:
  assumes "(prog_step L sys timeout threads)\<^sup>*\<^sup>* c c'" and "lib_ok L"
    and "pool_inv L M (fst c, map fst (pg_workers (snd c)))"
  shows "pool_inv L M (fst c', map fst (pg_workers (snd c')))"
  using assms
proof (induction rule: rtranclp_induct)
  case (step c1 c2)
  then show ?case using prog_step_pool [of L sys timeout threads "fst c1" "snd c1" "fst c2" "snd c2" M] by simp
qed

section \<open>Every run ends\<close>

fun rank :: "wstate \<Rightarrow> nat" where
  "rank (W_start req) = 4"
| "rank (W_session req p) = 3"
| "rank (W_alive req p) = 2"
| "rank (W_dispatch req p) = 1"
| "rank (W_broken sid) = 1"
| "rank w = 0"

definition prog_weight :: "prog \<Rightarrow> nat" where
  "prog_weight p =
    7 * length (pg_events p) + 6 * length (pg_queue p) + sum_list (map (\<lambda>job. Suc (rank (fst job))) (pg_workers p))"

lemma rank_dangle [simp]: "rank (dangle U U' w) = rank w"
  by (cases w) simp_all

lemma rank_bound: "rank w \<le> 4"
  by (cases w) simp_all

lemma w_step_rank: "w_step L E (S, w) = Inr (S', w') \<Longrightarrow> running w \<Longrightarrow> rank w' < rank w"
  by (cases w) (auto simp: rbind_eq_Inr_iff Let_def split: option.splits if_splits)

lemma prog_step_weight:
  assumes "prog_step L sys timeout threads (S, p) (S', p')"
  shows "prog_weight p' < prog_weight p"
  using assms
proof (cases rule: prog_stepE [consumes 1, case_names prog_accept prog_take prog_work prog_close])
  case (prog_accept e es)
  then show ?thesis by (cases e) (simp_all add: accept_turn_def prog_weight_def)
next
  case (prog_take c q job)
  then show ?thesis using rank_bound [of "fst job"] by (simp add: prog_weight_def)
next
  case (prog_work pre w out post now S2 w')
  then show ?thesis using w_step_rank [OF prog_work(4, 3)] by (simp add: prog_weight_def o_def)
next
  case (prog_close pre w out post pkts)
  then show ?thesis by (simp add: prog_weight_def)
qed

lemma prog_steps_weight:
  "(prog_step L sys timeout threads ^^ n) c c' \<Longrightarrow> n + prog_weight (snd c') \<le> prog_weight (snd c)"
proof (induction n arbitrary: c')
  case (Suc n)
  then obtain c1 where "(prog_step L sys timeout threads ^^ n) c c1" "prog_step L sys timeout threads c1 c'" by auto
  then show ?case
    using Suc.IH [of c1] prog_step_weight [of L sys timeout threads "fst c1" "snd c1" "fst c'" "snd c'"] by simp
qed auto

section \<open>A run goes on until all is answered\<close>

text \<open>A worker that can not move: its next access, or the response it writes, is undefined.\<close>

definition job_faults :: "('u, 's) lib \<Rightarrow> os \<Rightarrow> u8 \<Rightarrow> ('u, 's) srv \<Rightarrow> wstate \<times> bytes list \<times> wr_event list \<Rightarrow> bool" where
  "job_faults L sys timeout S job \<longleftrightarrow>
    (if running (fst job) then \<forall>now. isl (w_step L (env_at sys timeout now) (S, fst job))
     else isl (close_job (os_alloc sys) job))"

lemma prog_progress:
  assumes "0 < threads" and "\<not> drained p"
    and "list_all (\<lambda>job. \<not> job_faults L sys timeout S job) (pg_workers p)"
    and "list_all (\<lambda>c. \<not> isl (open_job (os_alloc sys) c)) (pg_queue p)"
  shows "\<exists>c. prog_step L sys timeout threads (S, p) c"
proof (cases "pg_workers p")
  case (Cons job post)
  obtain w out where job: "job = (w, out)" by (cases job)
  have ok: "\<not> job_faults L sys timeout S (w, out)" using assms(3) Cons job by simp
  show ?thesis
  proof (cases "running w")
    case True
    then obtain now where "\<not> isl (w_step L (env_at sys timeout now) (S, w))" using ok by (auto simp: job_faults_def)
    then obtain S' w' where "w_step L (env_at sys timeout now) (S, w) = Inr (S', w')"
      by (cases "w_step L (env_at sys timeout now) (S, w)") auto
    then show ?thesis using prog_work [where pre = "[]" and L = L and S = S] Cons job True by fastforce
  next
    case False
    then obtain pkts where "close_job (os_alloc sys) (w, out) = Inr pkts"
      using ok by (cases "close_job (os_alloc sys) (w, out)") (auto simp: job_faults_def)
    then show ?thesis using prog_close [where pre = "[]" and L = L and S = S] Cons job False by fastforce
  qed
next
  case Nil
  show ?thesis
  proof (cases "pg_queue p")
    case (Cons c q)
    then obtain job where o: "open_job (os_alloc sys) c = Inr job"
      using assms(4) by (cases "open_job (os_alloc sys) c") auto
    then show ?thesis using prog_take [OF Cons _ o, of threads L timeout S] Nil assms(1) by auto
  next
    case q: Nil
    then obtain e es where "pg_run p" "pg_events p = e # es"
      using assms(2) Nil by (auto simp: drained_def neq_Nil_conv)
    then show ?thesis using prog_accept by blast
  qed
qed

section \<open>The sequential run is one of them\<close>

lemma prog_same: "pg_workers p = jobs \<Longrightarrow> p\<lparr>pg_workers := jobs\<rparr> = p"
  by (cases p) simp

lemma prog_run_steps:
  assumes "w_steps L (env_at sys timeout now) n (S, w) = Inr (S', w')" and "pg_workers p = [(w, out)]"
  shows "(prog_step L sys timeout threads)\<^sup>*\<^sup>* (S, p) (S', p\<lparr>pg_workers := [(w', out)]\<rparr>)"
  using assms
proof (induction n arbitrary: S w p)
  case 0
  then show ?case by (simp add: prog_same)
next
  case (Suc n)
  then obtain S1 w1 where s: "w_step L (env_at sys timeout now) (S, w) = Inr (S1, w1)"
    "w_steps L (env_at sys timeout now) n (S1, w1) = Inr (S', w')"
    by (auto simp: rbind_eq_Inr_iff)
  show ?case
  proof (cases "running w")
    case True
    have "prog_step L sys timeout threads (S, p) (S1, p\<lparr>pg_workers := [(w1, out)]\<rparr>)"
      using prog_work [where pre = "[]" and post = "[]", OF _ True s(1)] Suc.prems(2) w_step_own [OF s(1)] by simp
    then show ?thesis using Suc.IH [OF s(2), of "p\<lparr>pg_workers := [(w1, out)]\<rparr>"]
      by (simp add: converse_rtranclp_into_rtranclp)
  next
    case False
    then have "S1 = S \<and> w1 = w" using s(1) by (cases w) auto
    then show ?thesis using Suc.IH [of S w p] s(2) Suc.prems(2) by simp
  qed
qed

text \<open>One connection, taken from the queue, worked on without interruption and closed.\<close>

lemma prog_serves:
  assumes "serve_client L (env_at sys timeout now) (os_alloc sys) S c = Inr (out, S')"
    and "pg_queue p = c # q" and "pg_workers p = []" and "0 < threads"
  shows "(prog_step L sys timeout threads)\<^sup>*\<^sup>* (S, p) (S', p\<lparr>pg_queue := q, pg_workers := [], pg_sent := pg_sent p @ [out]\<rparr>)"
proof -
  let ?A = "os_alloc sys" and ?E = "env_at sys timeout now"
  obtain w pkts wr w' n where o: "open_job ?A c = Inr (w, pkts, wr)"
    and r: "w_steps L ?E n (S, w) = Inr (S', w')" "\<not> running w'" and cl: "close_job ?A (w', pkts, wr) = Inr out"
  proof (cases "cn_sockopt c \<and> ?A sizeof_wire")
    case False
    then have "S' = S" "out = []" using assms(1) by (auto simp: serve_client_def)
    then show thesis using that [of W_closed "[]" "cn_writes c" 0 W_closed] False
      by (simp add: open_job_def close_job_def)
  next
    case True
    then obtain result w pkts wr where rd: "read_client_req ?A 0 (cn_in c) (cn_writes c) = Inr (result, w, pkts, wr)"
      using assms(1) by (cases "read_client_req ?A 0 (cn_in c) (cn_writes c)") (auto simp: serve_client_def)
    show thesis
    proof (cases "result = OP_SUCCESS")
      case s: True
      then obtain resp w' pkts' wr' where "ctrl_request L ?E S w = Inr (resp, w', S')"
        and "write_response ?A (wp_session_id w') (Some resp) wr = Inr (pkts', wr')" "out = pkts @ pkts'"
        using assms(1) True rd
        by (cases "ctrl_request L ?E S w") (auto simp: serve_client_def ctrl_parse_action_def rbind_eq_Inr_iff)
      then show thesis using that [of "W_start w" pkts wr 4 "W_done resp w'"] True rd s
        by (simp add: open_job_def close_job_def w_steps_alone)
    next
      case f: False
      then show thesis using that [of "W_broken (wp_session_id w)" pkts wr 1 W_closed] assms(1) True rd
        by (simp add: serve_client_def open_job_def close_job_def)
    qed
  qed
  let ?p1 = "p\<lparr>pg_queue := q, pg_workers := [(w, pkts, wr)]\<rparr>" and ?p2 = "p\<lparr>pg_queue := q, pg_workers := [(w', pkts, wr)]\<rparr>"
  have "prog_step L sys timeout threads (S, p) (S, ?p1)"
    using prog_take [OF assms(2) _ o, of threads L timeout S] assms(3, 4) by simp
  moreover have "(prog_step L sys timeout threads)\<^sup>*\<^sup>* (S, ?p1) (S', ?p2)"
    using prog_run_steps [OF r(1), of ?p1] by simp
  moreover have "prog_step L sys timeout threads (S', ?p2) (S', p\<lparr>pg_queue := q, pg_workers := [], pg_sent := pg_sent p @ [out]\<rparr>)"
    using prog_close [where pre = "[]" and post = "[]" and p = ?p2, OF _ r(2) cl, of L timeout threads S'] by simp
  ultimately show ?thesis by (meson converse_rtranclp_into_rtranclp rtranclp.rtrancl_into_rtrancl)
qed

text \<open>First the loop takes all connections it is going to take, then they are served in order.\<close>

lemma prog_accepts:
  "\<exists>p'. (prog_step L sys timeout threads)\<^sup>*\<^sup>* (S, p) (S, p') \<and>
    pg_queue p' = pg_queue p @ map fst (accept_loop (pg_run p) (pg_events p)) \<and> pg_workers p' = pg_workers p \<and>
    pg_sent p' = pg_sent p \<and> (pg_run p' \<longrightarrow> pg_events p' = [])"
proof (induction "pg_events p" arbitrary: p)
  case Nil
  then show ?case by (intro exI [of _ p]) (simp flip: Nil)
next
  case (Cons e es)
  show ?case
  proof (cases "pg_run p")
    case True
    let ?p = "accept_turn e (p\<lparr>pg_events := es\<rparr>)"
    have p: "pg_events ?p = es" by (cases e) (simp_all add: accept_turn_def)
    have step: "prog_step L sys timeout threads (S, p) (S, ?p)" by (rule prog_accept [OF True]) (simp flip: Cons(2))
    have same: "pg_queue ?p @ map fst (accept_loop (pg_run ?p) es) =
        pg_queue p @ map fst (accept_loop (pg_run p) (pg_events p))"
      "pg_workers ?p = pg_workers p" "pg_sent ?p = pg_sent p"
      using True by (cases e; simp add: accept_turn_def flip: Cons(2))+
    obtain p' where p': "(prog_step L sys timeout threads)\<^sup>*\<^sup>* (S, ?p) (S, p')"
      "pg_queue p' = pg_queue p @ map fst (accept_loop (pg_run p) (pg_events p))" "pg_workers p' = pg_workers p"
      "pg_sent p' = pg_sent p" "pg_run p' \<longrightarrow> pg_events p' = []"
      using Cons.hyps(1) [OF p [symmetric]] unfolding p same by blast
    moreover from step p'(1) have "(prog_step L sys timeout threads)\<^sup>*\<^sup>* (S, p) (S, p')"
      by (rule converse_rtranclp_into_rtranclp)
    ultimately show ?thesis by blast
  next
    case False
    then show ?thesis by (intro exI [of _ p]) simp
  qed
qed

lemma prog_jobs:
  "run_jobs L (os_rand sys) (os_alloc sys) timeout jobs S = Inr (outs, S') \<Longrightarrow> pg_queue p = map fst jobs \<Longrightarrow>
    pg_workers p = [] \<Longrightarrow> 0 < threads \<Longrightarrow>
    (prog_step L sys timeout threads)\<^sup>*\<^sup>* (S, p) (S', p\<lparr>pg_queue := [], pg_workers := [], pg_sent := pg_sent p @ outs\<rparr>)"
proof (induction jobs arbitrary: S p outs)
  case Nil
  then have "p\<lparr>pg_queue := [], pg_workers := [], pg_sent := pg_sent p\<rparr> = p" by (cases p) simp
  then show ?case using Nil(1) by simp
next
  case (Cons job jobs)
  obtain out S1 outs' where s: "serve_client L (env_at sys timeout (snd job)) (os_alloc sys) S (fst job) = Inr (out, S1)"
    and r: "run_jobs L (os_rand sys) (os_alloc sys) timeout jobs S1 = Inr (outs', S')" and o: "outs = out # outs'"
    using Cons.prems(1) by (auto simp: rbind_eq_Inr_iff env_at_def)
  let ?p = "p\<lparr>pg_queue := map fst jobs, pg_workers := [], pg_sent := pg_sent p @ [out]\<rparr>"
  have "(prog_step L sys timeout threads)\<^sup>*\<^sup>* (S, p) (S1, ?p)"
    by (rule prog_serves [OF s]) (use Cons.prems in simp_all)
  moreover have "(prog_step L sys timeout threads)\<^sup>*\<^sup>* (S1, ?p)
      (S', ?p\<lparr>pg_queue := [], pg_workers := [], pg_sent := pg_sent ?p @ outs'\<rparr>)"
    by (rule Cons.IH [OF r]) (use Cons.prems(4) in simp_all)
  ultimately show ?case unfolding o by (simp add: rtranclp_trans)
qed

text \<open>Every connection that the loop takes is in the queue, in work or closed.\<close>

definition prog_jobs_count :: "prog \<Rightarrow> nat" where
  "prog_jobs_count p =
    length (accept_loop (pg_run p) (pg_events p)) + length (pg_queue p) + length (pg_workers p) + length (pg_sent p)"

lemma prog_step_jobs:
  assumes "prog_step L sys timeout threads (S, p) (S', p')"
  shows "prog_jobs_count p' = prog_jobs_count p"
  using assms
proof (cases rule: prog_stepE [consumes 1, case_names prog_accept prog_take prog_work prog_close])
  case (prog_accept e es)
  then show ?thesis by (cases e) (simp_all add: accept_turn_def prog_jobs_count_def)
qed (simp_all add: prog_jobs_count_def)

lemma prog_steps_jobs:
  assumes "(prog_step L sys timeout threads)\<^sup>*\<^sup>* c c'"
  shows "prog_jobs_count (snd c') = prog_jobs_count (snd c)"
  using assms
proof (induction rule: rtranclp_induct)
  case (step c1 c2)
  then show ?case
    using prog_step_jobs [of L sys timeout threads "fst c1" "snd c1" "fst c2" "snd c2"] by simp
qed simp

lemma jobs_in_pool:
  assumes "run_jobs L (os_rand sys) (os_alloc sys) timeout (accept_loop True (os_events sys)) S = Inr (outs, S')"
    and "0 < threads"
  shows "\<exists>p. (prog_step L sys timeout threads)\<^sup>*\<^sup>* (S, prog_start (os_events sys)) (S', p) \<and> drained p \<and> pg_sent p = outs"
proof -
  obtain p where p: "(prog_step L sys timeout threads)\<^sup>*\<^sup>* (S, prog_start (os_events sys)) (S, p)"
    "pg_queue p = map fst (accept_loop True (os_events sys))" "pg_workers p = []" "pg_sent p = []"
    "pg_run p \<longrightarrow> pg_events p = []"
    using prog_accepts [of L sys timeout threads S "prog_start (os_events sys)"] by (auto simp: prog_start_def)
  have "(prog_step L sys timeout threads)\<^sup>*\<^sup>* (S, p) (S', p\<lparr>pg_queue := [], pg_workers := [], pg_sent := pg_sent p @ outs\<rparr>)"
    by (rule prog_jobs [OF assms(1) p(2, 3) assms(2)])
  with p show ?thesis by (intro exI [of _ "p\<lparr>pg_queue := [], pg_workers := [], pg_sent := pg_sent p @ outs\<rparr>"])
    (auto simp: drained_def)
qed

text \<open>The run in which one client connects and hangs up before the interrupt, with one thread.\<close>

lemma sample_pool_run:
  fixes S :: "((string \<times> user_account_t) list, (u32 \<times> int) list) srv"
  obtains S' p where "(prog_step sample_lib sample_os 60 1)\<^sup>*\<^sup>* (S, prog_start (os_events sample_os)) (S', p)"
    and "drained p" and "pg_sent p = [[]]"
  using jobs_in_pool [OF sample_jobs(3), of 1 S] by auto

section \<open>Properties\<close>













end
